(* ===== verification/Link_Prelude.thy ===== *)
theory Link_Prelude
  imports Main "HOL-Library.Word" "HOL-Library.Monad_Syntax"
begin

text \<open>
  Shared vocabulary of the development.

  \<^item> Machine integers: \<open>u8\<close>, \<open>u16\<close>, \<open>u32\<close> are words; a \<open>size_t\<close> that only indexes a
    bounded array is a \<open>nat\<close>.
  \<^item> C arrays: a byte array is a list of its declared size.  Every access goes through
    \<open>load8\<close>, \<open>load\<close> and \<open>store\<close>, which return \<^term>\<open>None\<close> when the access leaves the array.
    A C function is a function into \<open>option\<close>: \<^term>\<open>None\<close> stands for undefined behaviour,
    so that "the function returns \<open>Some\<close>" is the statement of its memory safety.
  \<^item> Uninitialised automatic arrays are \<open>local_array\<close>: their content is an arbitrary function,
    so a result that is proved equal to an expression without it does not depend on it.
\<close>

unbundle bit_operations_syntax

type_synonym u8 = "8 word"
type_synonym u16 = "16 word"
type_synonym u32 = "32 word"
type_synonym bytes = "u8 list"

named_theorems mem_simps \<open>evaluation of in-bounds array accesses\<close>
named_theorems wire_simps \<open>lengths and shapes of wire encodings\<close>

section \<open>Arrays\<close>

definition blit :: "'a list \<Rightarrow> nat \<Rightarrow> 'a list \<Rightarrow> 'a list" where
  "blit buf off xs = take off buf @ xs @ drop (off + length xs) buf"

definition load8 :: "'a list \<Rightarrow> nat \<Rightarrow> 'a option" where
  "load8 buf i = (if i < length buf then Some (buf ! i) else None)"

definition load :: "'a list \<Rightarrow> nat \<Rightarrow> nat \<Rightarrow> 'a list option" where
  "load buf off n = (if off + n \<le> length buf then Some (take n (drop off buf)) else None)"

definition store :: "'a list \<Rightarrow> nat \<Rightarrow> 'a list \<Rightarrow> 'a list option" where
  "store buf off xs = (if off + length xs \<le> length buf then Some (blit buf off xs) else None)"

definition local_array :: "(nat \<Rightarrow> u8) \<Rightarrow> nat \<Rightarrow> bytes" where
  "local_array junk n = map junk [0..<n]"

text \<open>A \<open>for\<close> loop over a fixed list of indices, and the bytes of a string literal without its
  terminating NUL.\<close>

fun for_each :: "('i \<Rightarrow> 's \<Rightarrow> 's option) \<Rightarrow> 'i list \<Rightarrow> 's \<Rightarrow> 's option" where
  "for_each body [] s = Some s"
| "for_each body (i # is) s = do { s \<leftarrow> body i s; for_each body is s }"

definition c_string :: "string \<Rightarrow> bytes" where
  "c_string cs = map of_char cs"

section \<open>Total correctness\<close>

text \<open>\<open>ensures m P\<close>: the C function returned (no undefined behaviour) and its result and final
  state satisfy \<open>P\<close>.\<close>

definition ensures :: "('r \<times> 's) option \<Rightarrow> ('r \<Rightarrow> 's \<Rightarrow> bool) \<Rightarrow> bool" where
  "ensures m P \<longleftrightarrow> (case m of None \<Rightarrow> False | Some (r, s) \<Rightarrow> P r s)"

lemma ensures_simps [simp]:
  "ensures None P \<longleftrightarrow> False"
  "ensures (Some (r, s)) P \<longleftrightarrow> P r s"
  "ensures (if b then m else m') P \<longleftrightarrow> (if b then ensures m P else ensures m' P)"
  by (simp_all add: ensures_def)

lemma ensures_iff: "ensures m P \<longleftrightarrow> (\<exists>r s. m = Some (r, s) \<and> P r s)"
  by (auto simp: ensures_def split: option.splits)

lemma ensures_mono: "ensures m P \<Longrightarrow> (\<And>r s. m = Some (r, s) \<Longrightarrow> P r s \<Longrightarrow> Q r s) \<Longrightarrow> ensures m Q"
  by (auto simp: ensures_iff)

lemma ensures_bind: "ensures m (\<lambda>r s. ensures (f (r, s)) P) \<Longrightarrow> ensures (m \<bind> f) P"
  by (auto simp: ensures_iff)

lemma ensures_conj: "ensures m P \<Longrightarrow> ensures m Q \<Longrightarrow> ensures m (\<lambda>r s. P r s \<and> Q r s)"
  by (auto simp: ensures_iff)

section \<open>Lemmas on arrays\<close>

lemma length_local_array [simp]: "length (local_array junk n) = n"
  by (simp add: local_array_def)

lemma length_blit [simp]:
  "off + length xs \<le> length buf \<Longrightarrow> length (blit buf off xs) = length buf"
  by (simp add: blit_def)

lemma blit_Nil [simp]: "blit buf off [] = buf"
  by (simp add: blit_def)

lemma blit_0: "blit buf 0 xs = xs @ drop (length xs) buf"
  by (simp add: blit_def)

lemma blit_blit:
  "off + length xs + length ys \<le> length buf \<Longrightarrow>
   blit (blit buf off xs) (off + length xs) ys = blit buf off (xs @ ys)"
  by (simp add: blit_def min_absorb2 ac_simps)

lemma blit_blit_at:
  "off' = off + length xs \<Longrightarrow> off + length xs + length ys \<le> length buf \<Longrightarrow>
   blit (blit buf off xs) off' ys = blit buf off (xs @ ys)"
  by (simp add: blit_blit)

lemma take_blit:
  "off + length xs \<le> length buf \<Longrightarrow> take (off + length xs) (blit buf off xs) = take off buf @ xs"
  by (simp add: blit_def min_absorb2)

lemma take_drop_blit [mem_simps]:
  "off + length xs \<le> length buf \<Longrightarrow> take (length xs) (drop off (blit buf off xs)) = xs"
  by (simp add: blit_def min_absorb2)

lemma nth_blit:
  "off + length xs \<le> length buf \<Longrightarrow> i < length buf \<Longrightarrow>
   blit buf off xs ! i = (if off \<le> i \<and> i < off + length xs then xs ! (i - off) else buf ! i)"
  by (auto simp: blit_def nth_append min_def)

lemma store_Some [mem_simps]:
  "off + length xs \<le> length buf \<Longrightarrow> store buf off xs = Some (blit buf off xs)"
  by (simp add: store_def)

lemma load_Some [mem_simps]:
  "off + n \<le> length buf \<Longrightarrow> load buf off n = Some (take n (drop off buf))"
  by (simp add: load_def)

lemma load8_Some [mem_simps]: "i < length buf \<Longrightarrow> load8 buf i = Some (buf ! i)"
  by (simp add: load8_def)

lemma load_eq_Some:
  "load buf off n = Some xs \<longleftrightarrow> off + n \<le> length buf \<and> xs = take n (drop off buf)"
  by (auto simp: load_def)

lemma store_eq_Some:
  "store buf off xs = Some b \<longleftrightarrow> off + length xs \<le> length buf \<and> b = blit buf off xs"
  by (auto simp: store_def)

text \<open>Two adjacent writes are one write: byte-by-byte encoders build one block.\<close>

lemma store_store:
  "(store buf off xs \<bind> (\<lambda>b. store b (off + length xs) ys)) = store buf off (xs @ ys)"
  by (auto simp: store_def blit_blit add.assoc)

lemma store_store_at:
  "off' = off + length xs \<Longrightarrow>
   (store buf off xs \<bind> (\<lambda>b. store b off' ys)) = store buf off (xs @ ys)"
  by (simp add: store_store)

lemma store_store_cont:
  "off' = off + length xs \<Longrightarrow>
   (store buf off xs \<bind> (\<lambda>b. store b off' ys \<bind> k)) = (store buf off (xs @ ys) \<bind> k)"
  by (metis bind_assoc store_store)

lemma bind_eq_Some: "(m \<bind> f) = Some y \<longleftrightarrow> (\<exists>x. m = Some x \<and> f x = Some y)"
  by (rule Option.bind_eq_Some_conv)

lemma take_nth_snoc: "i < length xs \<Longrightarrow> take (Suc i) xs = take i xs @ [xs ! i]"
  by (rule take_Suc_conv_app_nth)

lemma for_each_append:
  "for_each body (is @ js) s = do { s \<leftarrow> for_each body is s; for_each body js s }"
proof (induction "is" arbitrary: s)
  case (Cons i "is")
  then show ?case by (cases "body i s") simp_all
qed simp

lemma length_c_string [simp]: "length (c_string cs) = length cs"
  by (simp add: c_string_def)

text \<open>Filling an array from the left with a loop.\<close>

lemma blit_snoc:
  "n < length buf \<Longrightarrow> length xs = n \<Longrightarrow> blit (blit buf 0 xs) n [x] = blit buf 0 (xs @ [x])"
  by (simp add: blit_blit_at)

lemma blit_full: "length xs = length buf \<Longrightarrow> blit buf 0 xs = xs"
  by (simp add: blit_def)

section \<open>Words\<close>

lemma unat_le_imp_of_nat: "unat (x :: 'a::len word) = n \<Longrightarrow> x = of_nat n"
  by auto

lemma unat_u16_add_nat:
  "unat (a :: u16) + n < 65536 \<Longrightarrow> unat (a + of_nat n) = unat a + n"
  by (simp add: unat_word_ariths unat_of_nat mod_add_right_eq)

section \<open>Logs that only grow\<close>

text \<open>Logs are kept most recent first.\<close>

definition extends :: "'a list \<Rightarrow> 'a list \<Rightarrow> bool" where
  "extends xs ys \<longleftrightarrow> (\<exists>zs. xs = zs @ ys)"

lemma extends_refl [simp, intro]: "extends xs xs"
  by (simp add: extends_def)

lemma extends_Cons [simp, intro]: "extends xs ys \<Longrightarrow> extends (x # xs) ys"
  by (auto simp: extends_def intro: exI [of _ "_ # _"])

lemma extends_trans: "extends xs ys \<Longrightarrow> extends ys zs \<Longrightarrow> extends xs zs"
  by (auto simp: extends_def)

section \<open>Machines that never fault\<close>

text \<open>The contract several components share: an operation applied to a state that satisfies the
  invariant, with an acceptable input, returns (no undefined behaviour) and keeps the invariant.
  Its consequence for sequences of operations is proved once.\<close>

fun run_ops :: "('i \<Rightarrow> 's \<Rightarrow> ('o \<times> 's) option) \<Rightarrow> 's \<Rightarrow> 'i list \<Rightarrow> ('o list \<times> 's) option" where
  "run_ops step s [] = Some ([], s)"
| "run_ops step s (i # is) = do {
     (out, s) \<leftarrow> step i s;
     (outs, s) \<leftarrow> run_ops step s is;
     Some (out # outs, s) }"

lemma run_ops_append:
  "run_ops step s (xs @ ys) = do { (o1, s) \<leftarrow> run_ops step s xs; (o2, s) \<leftarrow> run_ops step s ys; Some (o1 @ o2, s) }"
proof (induction xs arbitrary: s)
  case Nil
  show ?case by (cases "run_ops step s ys") auto
next
  case (Cons x xs)
  show ?case
  proof (cases "step x s")
    case (Some r)
    show ?thesis by (cases "run_ops step (snd r) xs") (auto simp: Some Cons.IH split: prod.split Option.bind_split)
  qed simp
qed

locale safe_machine =
  fixes step :: "'i \<Rightarrow> 's \<Rightarrow> ('o \<times> 's) option"
    and inv :: "'s \<Rightarrow> bool"
    and ok :: "'i \<Rightarrow> bool"
  assumes step_safe: "inv s \<Longrightarrow> ok i \<Longrightarrow> ensures (step i s) (\<lambda>out s'. inv s')"
begin

lemma run_safe:
  "inv s \<Longrightarrow> (\<And>i. i \<in> set is \<Longrightarrow> ok i) \<Longrightarrow>
   ensures (run_ops step s is) (\<lambda>outs s'. inv s' \<and> length outs = length is)"
proof (induction "is" arbitrary: s)
  case (Cons i "is")
  then obtain out s1 where 1: "step i s = Some (out, s1)" "inv s1"
    using step_safe [of s i] by (auto simp: ensures_iff)
  then obtain outs s' where "run_ops step s1 is = Some (outs, s')" "inv s'" "length outs = length is"
    using Cons.IH [OF 1(2)] Cons.prems by (auto simp: ensures_iff)
  with 1 show ?case by simp
qed simp

lemma run_outputs:
  assumes "inv s" "\<And>i. i \<in> set is \<Longrightarrow> ok i"
    and "\<And>i s out s'. inv s \<Longrightarrow> ok i \<Longrightarrow> step i s = Some (out, s') \<Longrightarrow> P i out"
    and "run_ops step s is = Some (outs, s')"
  shows "list_all2 P is outs"
  using assms(1,2,4)
proof (induction "is" arbitrary: s outs)
  case (Cons i "is")
  obtain out s1 where 1: "step i s = Some (out, s1)" "inv s1"
    using step_safe [of s i] Cons.prems by (auto simp: ensures_iff)
  with Cons.prems obtain outs1 where "run_ops step s1 is = Some (outs1, s')" "outs = out # outs1"
    by (auto simp: bind_eq_Some)
  with 1 Cons show ?case
    using assms(3) [OF Cons.prems(1) _ 1(1)] by simp
qed simp

end

text \<open>A machine that also records what it does: the log only grows.\<close>

locale logging_machine = safe_machine step inv ok
  for step :: "'i \<Rightarrow> 's \<Rightarrow> ('o \<times> 's) option" and inv ok +
  fixes log_of :: "'s \<Rightarrow> 'e list"
  assumes step_log: "inv s \<Longrightarrow> ok i \<Longrightarrow> step i s = Some (out, s') \<Longrightarrow> extends (log_of s') (log_of s)"
begin

lemma run_log:
  "inv s \<Longrightarrow> (\<And>i. i \<in> set is \<Longrightarrow> ok i) \<Longrightarrow> run_ops step s is = Some (outs, s') \<Longrightarrow>
   extends (log_of s') (log_of s)"
proof (induction "is" arbitrary: s outs)
  case (Cons i "is")
  then obtain out s1 outs1 where 1: "step i s = Some (out, s1)"
    and 2: "run_ops step s1 is = Some (outs1, s')"
    by (auto simp: bind_eq_Some)
  then have "inv s1"
    using step_safe [of s i] Cons.prems by simp
  then have "extends (log_of s') (log_of s1)"
    using Cons.IH 2 Cons.prems by simp
  moreover have "extends (log_of s1) (log_of s)"
    using step_log [of s i] 1 Cons.prems by simp
  ultimately show ?case
    by (rule extends_trans)
qed simp

end

end
