(* ===== verification/Platform.thy ===== *)
theory Platform
  imports Link_Prelude
begin

text \<open>
  The interface to the code that is not part of the repository: ESP-IDF (OTA, partition, NVS,
  UART, SHA, random, timer and heap services), FreeRTOS and a user-supplied transport.

  Nothing of that code is defined here.  It is the record \<open>esp_idf\<close> of functions, an argument of
  every definition that calls it.  A call that has an effect outside the component is recorded in
  the ghost field \<open>trace\<close> of the device state (most recent call first), and the answer of a
  service is an arbitrary function of the calls made before it and of its arguments.  A service
  that fills a buffer of fixed size (\<open>esp_sha\<close>, \<open>esp_fill_random\<close>,
  \<open>esp_partition_get_sha256\<close>) is given by the bytes it writes, indexed from 0.
  An out-parameter is an \<open>option\<close>: \<^term>\<open>None\<close> when the service leaves it untouched.
  The macro \<open>pdMS_TO_TICKS\<close> depends on the tick rate of the build, so it is a parameter too; a
  recorded delay is in ticks, as \<open>vTaskDelay\<close> gets it.
\<close>

section \<open>Types of the interface\<close>

text \<open>The error codes the component distinguishes by name, and all others.\<close>

datatype esp_err_t = ESP_OK | ESP_FAIL | ESP_ERR_NO_MEM | ESP_ERR_INVALID_ARG
  | ESP_ERR_INVALID_STATE | ESP_ERR_NVS_NO_FREE_PAGES | ESP_ERR_NVS_NEW_VERSION_FOUND
  | ESP_ERR_NVS_NOT_FOUND | ESP_ERR_OTHER int

datatype esp_ota_img_states_t = ESP_OTA_IMG_NEW | ESP_OTA_IMG_PENDING_VERIFY | ESP_OTA_IMG_VALID
  | ESP_OTA_IMG_INVALID | ESP_OTA_IMG_ABORTED | ESP_OTA_IMG_UNDEFINED | ESP_OTA_IMG_OTHER u32

datatype esp_chip_model_t = CHIP_ESP32 | CHIP_ESP32S2 | CHIP_ESP32S3 | CHIP_ESP32C2
  | CHIP_ESP32C3 | CHIP_ESP32C5 | CHIP_ESP32C6 | CHIP_ESP32C61 | CHIP_ESP32H2 | CHIP_ESP32H21
  | CHIP_ESP32H4 | CHIP_ESP32P4 | CHIP_ESP32S31 | CHIP_POSIX_LINUX | CHIP_OTHER u32

text \<open>The fields of \<open>esp_partition_t\<close> and \<open>esp_app_desc_t\<close> the component reads.  A C string is
  the list of its bytes before the terminating NUL.\<close>

record esp_partition_t =
  part_type :: u32
  part_subtype :: u32
  part_size :: u32
  part_label :: bytes

record esp_app_desc_t =
  desc_version :: bytes
  desc_project_name :: bytes
  desc_date :: bytes
  desc_idf_ver :: bytes

type_synonym uart_port_t = int
type_synonym esp_ota_handle_t = u32
type_synonym nvs_handle_t = u32
type_synonym TaskHandle_t = nat

section \<open>Calls with an effect outside the component\<close>

text \<open>The calls of the OTA service and of the driver installation carry their result, so that a trace alone tells which image
  bytes were accepted by the flash and which partition was made bootable.\<close>

datatype call =
    Uart_write_bytes uart_port_t bytes
  | Custom_write nat int bytes
  | Esp_fill_random nat
  | Esp_ota_begin esp_partition_t u32 esp_err_t esp_ota_handle_t
  | Esp_ota_write esp_ota_handle_t bytes esp_err_t
  | Esp_ota_end esp_ota_handle_t esp_err_t
  | Esp_ota_abort esp_ota_handle_t esp_err_t
  | Esp_ota_set_boot_partition esp_partition_t esp_err_t
  | Esp_ota_mark_app_valid
  | Esp_ota_mark_app_invalid_and_reboot
  | Esp_restart
  | VTaskDelay u32
  | VTaskDelete
  | XTaskCreate string u32 u32
  | Uart_driver_install uart_port_t int esp_err_t
  | Uart_driver_delete uart_port_t
  | Uart_param_config uart_port_t int
  | Uart_set_pin uart_port_t int int int int
  | Nvs_flash_init
  | Nvs_open string
  | Nvs_set_u32 nvs_handle_t string u32
  | Nvs_commit nvs_handle_t
  | Nvs_close nvs_handle_t

record base_dev =
  trace :: "call list"

definition emit :: "call \<Rightarrow> 'a base_dev_scheme \<Rightarrow> 'a base_dev_scheme" where
  "emit c s = s\<lparr>trace := c # trace s\<rparr>"

text \<open>What a call puts on the link, if it is a write of the transport.\<close>

fun call_tx :: "call \<Rightarrow> bytes option" where
  "call_tx (Uart_write_bytes _ bs) = Some bs"
| "call_tx (Custom_write _ _ bs) = Some bs"
| "call_tx _ = None"

text \<open>The frames sent by a list of calls (most recent first).\<close>

definition sent :: "call list \<Rightarrow> bytes list" where
  "sent cs = List.map_filter call_tx cs"

section \<open>The services\<close>

record esp_idf =
  uninit :: "nat \<Rightarrow> u8"
  UART_NUM_0 :: uart_port_t
  UART_PIN_NO_CHANGE :: int
  pdMS_TO_TICKS :: "u32 \<Rightarrow> u32"
  ESP_PARTITION_TYPE_APP :: u32
  ESP_PARTITION_SUBTYPE_APP_OTA_0 :: u32
  ESP_PARTITION_SUBTYPE_APP_OTA_15 :: u32
  esp_sha :: "bytes \<Rightarrow> nat \<Rightarrow> u8"
  esp_fill_random :: "call list \<Rightarrow> nat \<Rightarrow> u8"
  esp_ota_get_next_update_partition :: "call list \<Rightarrow> esp_partition_t option"
  esp_ota_begin :: "call list \<Rightarrow> esp_partition_t \<Rightarrow> u32 \<Rightarrow> esp_err_t \<times> esp_ota_handle_t option"
  esp_ota_write :: "call list \<Rightarrow> esp_ota_handle_t \<Rightarrow> bytes \<Rightarrow> esp_err_t"
  esp_ota_end :: "call list \<Rightarrow> esp_ota_handle_t \<Rightarrow> esp_err_t"
  esp_ota_abort :: "call list \<Rightarrow> esp_ota_handle_t \<Rightarrow> esp_err_t"
  esp_partition_get_sha256 :: "call list \<Rightarrow> esp_partition_t \<Rightarrow> esp_err_t \<times> (nat \<Rightarrow> u8)"
  esp_ota_set_boot_partition :: "call list \<Rightarrow> esp_partition_t \<Rightarrow> esp_err_t"
  esp_ota_get_running_partition :: "call list \<Rightarrow> esp_partition_t option"
  esp_ota_get_boot_partition :: "call list \<Rightarrow> esp_partition_t option"
  esp_ota_get_state_partition ::
    "call list \<Rightarrow> esp_partition_t option \<Rightarrow> esp_err_t \<times> esp_ota_img_states_t option"
  esp_ota_check_rollback_is_possible :: "call list \<Rightarrow> bool"
  esp_ota_mark_app_valid_cancel_rollback :: "call list \<Rightarrow> esp_err_t"
  esp_ota_mark_app_invalid_rollback_and_reboot :: "call list \<Rightarrow> esp_err_t option"
  esp_app_get_description :: "esp_app_desc_t option"
  esp_chip_model :: esp_chip_model_t
  esp_app_partitions :: "call list \<Rightarrow> esp_partition_t list"
  esp_timer_get_time :: "call list \<Rightarrow> 64 word"
  heap_caps_get_free_size :: "call list \<Rightarrow> u32"
  nvs_flash_init :: "call list \<Rightarrow> esp_err_t"
  nvs_open :: "call list \<Rightarrow> string \<Rightarrow> esp_err_t \<times> nvs_handle_t"
  nvs_get_u32 :: "call list \<Rightarrow> nvs_handle_t \<Rightarrow> string \<Rightarrow> esp_err_t \<times> u32 option"
  nvs_set_u32 :: "call list \<Rightarrow> nvs_handle_t \<Rightarrow> string \<Rightarrow> u32 \<Rightarrow> esp_err_t"
  nvs_commit :: "call list \<Rightarrow> nvs_handle_t \<Rightarrow> esp_err_t"
  uart_write_bytes :: "call list \<Rightarrow> uart_port_t \<Rightarrow> bytes \<Rightarrow> int"
  custom_write :: "call list \<Rightarrow> nat \<Rightarrow> int \<Rightarrow> bytes \<Rightarrow> esp_err_t"
  uart_driver_install :: "call list \<Rightarrow> uart_port_t \<Rightarrow> int \<Rightarrow> esp_err_t"
  uart_param_config :: "call list \<Rightarrow> uart_port_t \<Rightarrow> int \<Rightarrow> esp_err_t"
  uart_set_pin :: "call list \<Rightarrow> uart_port_t \<Rightarrow> int \<Rightarrow> int \<Rightarrow> int \<Rightarrow> int \<Rightarrow> esp_err_t"
  xTaskCreate :: "call list \<Rightarrow> string \<Rightarrow> u32 \<Rightarrow> u32 \<Rightarrow> TaskHandle_t option"

text \<open>The 32 bytes the SHA-256 service writes for an input.\<close>

definition sha256 :: "esp_idf \<Rightarrow> bytes \<Rightarrow> bytes" where
  "sha256 E xs = map (esp_sha E xs) [0..<32]"

text \<open>A platform on which every service succeeds, for evaluating the model on concrete inputs:
  one OTA slot of 64 KiB, a toy digest, random bytes that count up.\<close>

definition sample_partition :: esp_partition_t where
  "sample_partition = \<lparr>part_type = 0, part_subtype = 0x10, part_size = 0x10000,
     part_label = [0x6F, 0x74, 0x61]\<rparr>"

definition sample_sha :: "bytes \<Rightarrow> nat \<Rightarrow> u8" where
  "sample_sha xs i = foldl (\<lambda>a b. 31 * a + b) (of_nat i) xs"

definition sample_idf :: esp_idf where
  "sample_idf = \<lparr>uninit = (\<lambda>i. of_nat i), UART_NUM_0 = 0, UART_PIN_NO_CHANGE = -1,
     pdMS_TO_TICKS = (\<lambda>ms. ms div 10),
     ESP_PARTITION_TYPE_APP = 0, ESP_PARTITION_SUBTYPE_APP_OTA_0 = 0x10,
     ESP_PARTITION_SUBTYPE_APP_OTA_15 = 0x1F, esp_sha = sample_sha,
     esp_fill_random = (\<lambda>cs i. of_nat (length cs + i)),
     esp_ota_get_next_update_partition = (\<lambda>_. Some sample_partition),
     esp_ota_begin = (\<lambda>_ _ _. (ESP_OK, Some 7)), esp_ota_write = (\<lambda>_ _ _. ESP_OK),
     esp_ota_end = (\<lambda>_ _. ESP_OK), esp_ota_abort = (\<lambda>_ _. ESP_OK),
     esp_partition_get_sha256 = (\<lambda>_ _. (ESP_OK, \<lambda>i. of_nat i)),
     esp_ota_set_boot_partition = (\<lambda>_ _. ESP_OK),
     esp_ota_get_running_partition = (\<lambda>_. Some sample_partition),
     esp_ota_get_boot_partition = (\<lambda>_. Some sample_partition),
     esp_ota_get_state_partition = (\<lambda>_ _. (ESP_OK, Some ESP_OTA_IMG_PENDING_VERIFY)),
     esp_ota_check_rollback_is_possible = (\<lambda>_. True),
     esp_ota_mark_app_valid_cancel_rollback = (\<lambda>_. ESP_OK),
     esp_ota_mark_app_invalid_rollback_and_reboot = (\<lambda>_. None),
     esp_app_get_description = Some \<lparr>desc_version = [0x31, 0x2E, 0x32, 0x2E, 0x33],
       desc_project_name = [0x64], desc_date = [0x31], desc_idf_ver = [0x76]\<rparr>,
     esp_chip_model = CHIP_ESP32C3, esp_app_partitions = (\<lambda>_. [sample_partition]),
     esp_timer_get_time = (\<lambda>_. 5000000), heap_caps_get_free_size = (\<lambda>_. 1000),
     nvs_flash_init = (\<lambda>_. ESP_OK), nvs_open = (\<lambda>_ _. (ESP_OK, 1)),
     nvs_get_u32 = (\<lambda>_ _ _. (ESP_OK, Some 41)), nvs_set_u32 = (\<lambda>_ _ _ _. ESP_OK),
     nvs_commit = (\<lambda>_ _. ESP_OK), uart_write_bytes = (\<lambda>_ _ bs. int (length bs)),
     custom_write = (\<lambda>_ _ _ _. ESP_OK), uart_driver_install = (\<lambda>_ _ _. ESP_OK),
     uart_param_config = (\<lambda>_ _ _. ESP_OK), uart_set_pin = (\<lambda>_ _ _ _ _ _. ESP_OK),
     xTaskCreate = (\<lambda>_ _ _ _. Some 1)\<rparr>"

section \<open>Lemmas\<close>

lemma length_sha256 [simp]: "length (sha256 E xs) = 32"
  by (simp add: sha256_def)

lemma trace_emit [simp]: "trace (emit c s) = c # trace s"
  by (simp add: emit_def)

lemma sent_Nil [simp]: "sent [] = []"
  by (simp add: sent_def List.map_filter_simps)

lemma sent_Cons [simp]:
  "sent (c # cs) = (case call_tx c of None \<Rightarrow> sent cs | Some bs \<Rightarrow> bs # sent cs)"
  by (simp add: sent_def List.map_filter_simps split: option.split)

lemma sent_append [simp]: "sent (cs @ ds) = sent cs @ sent ds"
  by (induction cs) (auto split: option.splits)

end
