(* ===== verification/Crc32.thy ===== *)
theory Crc32
  imports Link_Prelude
begin

text \<open>
  The checksum of the wire protocol (\<open>protocol_crc32\<close> of \<^verbatim>\<open>protocol.c\<close>): a bitwise CRC-32
  with the reflected polynomial \<open>0xEDB88320\<close>.  The bit step is linear over XOR and injective on
  32-bit states; from this follows that messages of equal length that differ only inside a window
  of at most four consecutive bytes have different checksums.
\<close>

section \<open>Definitions\<close>

text \<open>One round of the inner loop; \<open>mask\<close> is all ones exactly when the low bit is set.\<close>

definition crc_bit :: "u32 \<Rightarrow> u32" where
  "crc_bit crc = (let mask = - (crc AND 1) in drop_bit 1 crc XOR (0xEDB88320 AND mask))"

text \<open>One round of the outer loop: eight bit rounds.\<close>

definition crc_byte :: "u32 \<Rightarrow> u8 \<Rightarrow> u32" where
  "crc_byte crc b = (crc_bit ^^ 8) (crc XOR ucast b)"

definition crc32 :: "bytes \<Rightarrow> u32" where
  "crc32 xs = NOT (foldl crc_byte 0xFFFFFFFF xs)"

text \<open>\<open>protocol_crc32(&data[off], length)\<close>.\<close>

definition protocol_crc32 :: "bytes \<Rightarrow> nat \<Rightarrow> nat \<Rightarrow> u32 option" where
  "protocol_crc32 data off len = do { xs \<leftarrow> load data off len; Some (crc32 xs) }"

text \<open>The little-endian value of the first bytes of a list, used to state where bytes enter the
  register.\<close>

fun le_word :: "bytes \<Rightarrow> u32" where
  "le_word [] = 0"
| "le_word (b # bs) = ucast b OR push_bit 8 (le_word bs)"

section \<open>The bit step\<close>

lemma and_1_cases: "(x :: u32) AND 1 = 0 \<or> x AND 1 = 1"
  by (simp add: and_one_eq mod_2_eq_odd)

lemma crc_bit_alt: "crc_bit x = drop_bit 1 x XOR (if odd x then 0xEDB88320 else 0)"
  by (simp add: crc_bit_def Let_def and_one_eq mod_2_eq_odd)

lemma crc_bit_xor: "crc_bit (x XOR y) = crc_bit x XOR crc_bit y"
  by (simp add: crc_bit_alt even_xor_iff) (simp add: ac_simps)

lemma crc_bit_0 [simp]: "crc_bit 0 = 0"
  by (simp add: crc_bit_alt)

lemma crc_bit_top: "bit (crc_bit x) 31 \<longleftrightarrow> odd x"
proof -
  have "\<not> bit x 32"
    using bit_imp_le_length [of x 32] by auto
  then show ?thesis
    by (simp add: crc_bit_alt bit_xor_iff bit_drop_bit_eq)
qed

lemma crc_bit_eq_0: "crc_bit x = 0 \<Longrightarrow> x = 0"
proof -
  assume a: "crc_bit x = 0"
  then have e: "even x"
    using crc_bit_top [of x] by simp
  with a have d: "drop_bit 1 x = 0"
    by (simp add: crc_bit_alt)
  show "x = 0"
  proof (rule bit_word_eqI)
    fix n
    have "\<not> bit (drop_bit 1 x) m" for m
      by (simp only: d bit_0_eq not_False_eq_True bot_apply bot_bool_def)
    then have "\<not> bit x (Suc m)" for m
      by (metis bit_drop_bit_eq plus_1_eq_Suc comp_apply)
    then show "bit x n = bit (0 :: u32) n"
      using e by (cases n) (simp_all add: bit_0)
  qed
qed

lemma xor_eq_0: "(x :: 'a::len word) XOR y = 0 \<longleftrightarrow> x = y"
proof
  assume "x XOR y = 0"
  then have "(x XOR y) XOR y = 0 XOR y" by simp
  then show "x = y" by (simp add: xor.assoc)
qed simp

lemma xor_cancel: "(c :: 'a::len word) XOR x = c XOR y \<longleftrightarrow> x = y"
proof
  assume "c XOR x = c XOR y"
  then have "c XOR (c XOR x) = c XOR (c XOR y)" by simp
  then show "x = y" by (simp add: xor.assoc [symmetric])
qed simp

lemma crc_bits_xor: "(crc_bit ^^ n) (x XOR y) = (crc_bit ^^ n) x XOR (crc_bit ^^ n) y"
  by (induction n) (simp_all add: crc_bit_xor)

lemma crc_bits_inj: "(crc_bit ^^ n) x = (crc_bit ^^ n) y \<longleftrightarrow> x = y"
proof (induction n)
  case (Suc n)
  have "crc_bit u = crc_bit v \<longleftrightarrow> u = v" for u v
    using crc_bit_eq_0 [of "u XOR v"] by (auto simp: crc_bit_xor xor_eq_0)
  with Suc show ?case by simp
qed simp

text \<open>Bits above the low byte only move down during eight rounds.\<close>

lemma crc_bit_shift: "\<not> bit (push_bit k w) 31 \<Longrightarrow> crc_bit (push_bit (Suc k) w) = push_bit k w"
proof -
  assume w: "\<not> bit (push_bit k w) 31"
  have "even (push_bit (Suc k) w)"
    by (simp add: push_bit_eq_mult)
  moreover have "drop_bit 1 (push_bit (Suc k) w) = push_bit k w"
  proof (rule bit_word_eqI)
    fix n assume n: "n < LENGTH(32)"
    have "bit (drop_bit 1 (push_bit (Suc k) w)) n = bit (push_bit (Suc k) w) (Suc n)"
      by (simp only: bit_drop_bit_eq comp_apply plus_1_eq_Suc)
    also have "\<dots> = (n \<noteq> 31 \<and> bit (push_bit k w) n)"
      using n unfolding bit_push_bit_iff by auto
    also have "\<dots> = bit (push_bit k w) n"
      using w by auto
    finally show "bit (drop_bit 1 (push_bit (Suc k) w)) n = bit (push_bit k w) n" .
  qed
  ultimately show ?thesis
    by (simp only: crc_bit_alt not_True_eq_False if_False xor.right_neutral)
qed

lemma crc_bits_shift:
  "(\<And>n. 32 - k \<le> n \<Longrightarrow> \<not> bit w n) \<Longrightarrow> k \<le> 32 \<Longrightarrow> (crc_bit ^^ k) (push_bit k w) = w"
proof (induction k)
  case (Suc k)
  have "\<not> bit (push_bit k w) 31"
    using Suc.prems by (simp add: bit_push_bit_iff)
  then have "crc_bit (push_bit (Suc k) w) = push_bit k w"
    by (rule crc_bit_shift)
  moreover have "(crc_bit ^^ k) (push_bit k w) = w"
    using Suc by simp
  ultimately show ?case
    by (simp only: funpow_Suc_right comp_apply)
qed simp

section \<open>Windows of up to four bytes\<close>

lemma bit_le_word: "bit (le_word bs) n \<Longrightarrow> n < 8 * length bs"
proof (induction bs arbitrary: n)
  case (Cons b bs)
  have "bit (ucast b :: u32) n \<Longrightarrow> n < 8"
    using bit_imp_le_length [of b n] by (simp add: bit_ucast_iff)
  with Cons show ?case
    by (fastforce simp: bit_or_iff bit_push_bit_iff)
qed simp

lemma le_word_xor: "le_word (b # bs) = ucast b XOR push_bit 8 (le_word bs)"
proof (rule bit_word_eqI)
  fix n
  have "bit (ucast b :: u32) n \<Longrightarrow> n < 8"
    using bit_imp_le_length [of b n] by (simp add: bit_ucast_iff)
  then show "bit (le_word (b # bs)) n = bit (ucast b XOR push_bit 8 (le_word bs)) n"
    by (auto simp: bit_or_iff bit_xor_iff bit_push_bit_iff)
qed

lemma foldl_crc_byte_window:
  "length bs \<le> 4 \<Longrightarrow> foldl crc_byte c bs = (crc_bit ^^ (8 * length bs)) (c XOR le_word bs)"
proof (induction bs arbitrary: c)
  case (Cons b bs)
  have "\<not> bit (le_word bs) n" if "24 \<le> n" for n
    using that Cons.prems bit_le_word [of bs n] by fastforce
  then have "(crc_bit ^^ 8) (push_bit 8 (le_word bs)) = le_word bs"
    by (intro crc_bits_shift) simp_all
  then have "crc_byte c b XOR le_word bs = (crc_bit ^^ 8) (c XOR le_word (b # bs))"
    by (simp only: crc_byte_def le_word_xor crc_bits_xor xor.assoc)
  then have "foldl crc_byte c (b # bs) =
      (crc_bit ^^ (8 * length bs)) ((crc_bit ^^ 8) (c XOR le_word (b # bs)))"
    using Cons by simp
  also have "\<dots> = (crc_bit ^^ (8 * length (b # bs))) (c XOR le_word (b # bs))"
    by (simp only: funpow_add [THEN fun_cong, unfolded comp_apply, symmetric]) (simp add: add.commute)
  finally show ?case .
qed simp

lemma le_word_inj:
  "length xs = length ys \<Longrightarrow> length xs \<le> 4 \<Longrightarrow> le_word xs = le_word ys \<Longrightarrow> xs = ys"
proof (induction xs ys rule: list_induct2)
  case (Cons x xs y ys)
  have b: "bit (le_word (z # zs)) n = (if n < 8 then bit z n else n < 32 \<and> bit (le_word zs) (n - 8))"
    for z :: u8 and zs n
    using bit_imp_le_length [of z n] 
    by (auto simp: bit_or_iff bit_push_bit_iff bit_ucast_iff)
  have "x = y"
  proof (rule bit_word_eqI)
    fix n assume "n < LENGTH(8)"
    then show "bit x n = bit y n"
      using b [of x xs n] b [of y ys n] Cons.prems(2) by simp
  qed
  moreover have "le_word xs = le_word ys"
  proof (rule bit_word_eqI)
    fix n
    show "bit (le_word xs) n = bit (le_word ys) n"
      using b [of x xs "n + 8"] b [of y ys "n + 8"] Cons.prems Cons.hyps
        bit_le_word [of xs n] bit_le_word [of ys n] by auto
  qed
  ultimately show ?case
    using Cons by simp
qed simp

lemma foldl_crc_byte_inj: "foldl crc_byte c xs = foldl crc_byte d xs \<longleftrightarrow> c = d"
proof (induction xs arbitrary: c d)
  case (Cons x xs)
  have "crc_byte c x = crc_byte d x \<longleftrightarrow> c = d"
    by (simp only: crc_byte_def crc_bits_inj xor_cancel xor.commute [of _ "ucast x"])
  with Cons show ?case by simp
qed simp

theorem crc32_detects_window:
  assumes "length xs = length ys" "length xs \<le> 4" "xs \<noteq> ys"
  shows "crc32 (pre @ xs @ post) \<noteq> crc32 (pre @ ys @ post)"
proof -
  let ?c = "foldl crc_byte 0xFFFFFFFF pre"
  have "le_word xs \<noteq> le_word ys"
    using le_word_inj assms by blast
  then have "?c XOR le_word xs \<noteq> ?c XOR le_word ys"
    by (simp only: xor_cancel not_False_eq_True)
  then have "foldl crc_byte ?c xs \<noteq> foldl crc_byte ?c ys"
    using assms by (simp add: foldl_crc_byte_window crc_bits_inj)
  then show ?thesis
    by (simp add: crc32_def foldl_crc_byte_inj)
qed

end
