(* ===== verification/Protocol.thy ===== *)
theory Protocol
  imports Platform Crc32
begin

text \<open>
  \<^verbatim>\<open>protocol.h\<close> and \<^verbatim>\<open>protocol.c\<close>: command and error numbers, the packet and parser
  structures, the little-endian accessors, the streaming parser and the packet writer.

  \<open>wire\<close> is the packet layout of \<^verbatim>\<open>protocol/protocol.md\<close> and \<open>parse_step\<close> the parser as a
  machine on byte lists.  The lemmas show that the C writer puts exactly \<open>wire\<close> on the link and
  that the C parser, working in its 1036-byte array, refines \<open>parse_step\<close> without ever leaving
  the array; framing, resynchronisation and corruption results are proved on \<open>parse_step\<close>.
\<close>

section \<open>Constants and enumerations\<close>

definition PROTOCOL_MAGIC_0 :: u8 where "PROTOCOL_MAGIC_0 = 0xAA"
definition PROTOCOL_MAGIC_1 :: u8 where "PROTOCOL_MAGIC_1 = 0x55"
definition PROTOCOL_VERSION :: u8 where "PROTOCOL_VERSION = 1"

abbreviation PROTOCOL_MAX_PAYLOAD :: nat where "PROTOCOL_MAX_PAYLOAD \<equiv> 1024"
abbreviation HEADER_SIZE :: nat where "HEADER_SIZE \<equiv> 8"
abbreviation CRC_SIZE :: nat where "CRC_SIZE \<equiv> 4"
abbreviation FRAME_MAX :: nat where "FRAME_MAX \<equiv> 1036"

datatype protocol_command_t = CMD_PING | CMD_GET_INFO | CMD_REBOOT | CMD_ROLLBACK | CMD_AUTH
  | CMD_OTA_BEGIN | CMD_OTA_DATA | CMD_OTA_END | CMD_OTA_ABORT | CMD_ACK | CMD_NACK | CMD_INFO

fun cmd_code :: "protocol_command_t \<Rightarrow> u8" where
  "cmd_code CMD_PING = 0x01"
| "cmd_code CMD_GET_INFO = 0x02"
| "cmd_code CMD_REBOOT = 0x03"
| "cmd_code CMD_ROLLBACK = 0x04"
| "cmd_code CMD_AUTH = 0x05"
| "cmd_code CMD_OTA_BEGIN = 0x10"
| "cmd_code CMD_OTA_DATA = 0x11"
| "cmd_code CMD_OTA_END = 0x12"
| "cmd_code CMD_OTA_ABORT = 0x13"
| "cmd_code CMD_ACK = 0xF0"
| "cmd_code CMD_NACK = 0xF1"
| "cmd_code CMD_INFO = 0xF2"

datatype protocol_error_t = ERR_OK | ERR_UNKNOWN_COMMAND | ERR_INVALID_PACKET | ERR_CRC_ERROR
  | ERR_INVALID_LENGTH | ERR_BUSY | ERR_AUTH_REQUIRED | ERR_OTA_ALREADY_STARTED
  | ERR_OTA_NOT_STARTED | ERR_OTA_INVALID_OFFSET | ERR_OTA_FLASH_ERROR | ERR_OTA_HASH_MISMATCH
  | ERR_OTA_INVALID_IMAGE | ERR_OTA_SIZE_ERROR | ERR_ROLLBACK_NOT_AVAILABLE

fun err_code :: "protocol_error_t \<Rightarrow> u8" where
  "err_code ERR_OK = 0x00"
| "err_code ERR_UNKNOWN_COMMAND = 0x01"
| "err_code ERR_INVALID_PACKET = 0x02"
| "err_code ERR_CRC_ERROR = 0x03"
| "err_code ERR_INVALID_LENGTH = 0x04"
| "err_code ERR_BUSY = 0x05"
| "err_code ERR_AUTH_REQUIRED = 0x06"
| "err_code ERR_OTA_ALREADY_STARTED = 0x10"
| "err_code ERR_OTA_NOT_STARTED = 0x11"
| "err_code ERR_OTA_INVALID_OFFSET = 0x12"
| "err_code ERR_OTA_FLASH_ERROR = 0x13"
| "err_code ERR_OTA_HASH_MISMATCH = 0x14"
| "err_code ERR_OTA_INVALID_IMAGE = 0x15"
| "err_code ERR_OTA_SIZE_ERROR = 0x16"
| "err_code ERR_ROLLBACK_NOT_AVAILABLE = 0x17"

section \<open>Structures and state\<close>

record protocol_packet_t =
  pkt_version :: u8
  pkt_command :: u8
  pkt_sequence :: u16
  pkt_length :: u16
  pkt_payload :: bytes

record protocol_parser_t =
  parser_buffer :: bytes
  parser_length :: nat

text \<open>The writer callback: the UART writer or a callback of the application.\<close>

datatype writer_t = Uart_writer | Custom_writer nat

record protocol_dev = base_dev +
  s_uart_port :: uart_port_t
  s_write :: "writer_t option"
  s_write_context :: int
  s_tx_buffer :: bytes

text \<open>Objects with static storage duration start zeroed.\<close>

definition zero_parser :: protocol_parser_t where
  "zero_parser = \<lparr>parser_buffer = replicate FRAME_MAX 0, parser_length = 0\<rparr>"

definition zero_packet :: protocol_packet_t where
  "zero_packet = \<lparr>pkt_version = 0, pkt_command = 0, pkt_sequence = 0, pkt_length = 0,
     pkt_payload = replicate PROTOCOL_MAX_PAYLOAD 0\<rparr>"

section \<open>Little-endian accessors\<close>

text \<open>A pointer into an array is the array and an offset.\<close>

definition read_le16 :: "bytes \<Rightarrow> nat \<Rightarrow> u16 option" where
  "read_le16 data off = do {
     b0 \<leftarrow> load8 data off;
     b1 \<leftarrow> load8 data (off + 1);
     Some (ucast b0 OR push_bit 8 (ucast b1)) }"

definition read_le32 :: "bytes \<Rightarrow> nat \<Rightarrow> u32 option" where
  "read_le32 data off = do {
     b0 \<leftarrow> load8 data off;
     b1 \<leftarrow> load8 data (off + 1);
     b2 \<leftarrow> load8 data (off + 2);
     b3 \<leftarrow> load8 data (off + 3);
     Some (ucast b0 OR push_bit 8 (ucast b1) OR push_bit 16 (ucast b2) OR push_bit 24 (ucast b3)) }"

definition write_le16 :: "bytes \<Rightarrow> nat \<Rightarrow> u16 \<Rightarrow> bytes option" where
  "write_le16 data off value = do {
     d \<leftarrow> store data off [ucast (value AND 0xFF)];
     store d (off + 1) [ucast (drop_bit 8 value AND 0xFF)] }"

definition write_le32 :: "bytes \<Rightarrow> nat \<Rightarrow> u32 \<Rightarrow> bytes option" where
  "write_le32 data off value = do {
     d \<leftarrow> store data off [ucast (value AND 0xFF)];
     d \<leftarrow> store d (off + 1) [ucast (drop_bit 8 value AND 0xFF)];
     d \<leftarrow> store d (off + 2) [ucast (drop_bit 16 value AND 0xFF)];
     store d (off + 3) [ucast (drop_bit 24 value AND 0xFF)] }"

section \<open>The parser\<close>

definition protocol_parser_init :: "protocol_parser_t \<Rightarrow> protocol_parser_t" where
  "protocol_parser_init parser = parser\<lparr>parser_length := 0\<rparr>"

definition protocol_parser_feed ::
  "protocol_parser_t \<Rightarrow> u8 \<Rightarrow> protocol_packet_t \<Rightarrow>
   (bool \<times> protocol_parser_t \<times> protocol_packet_t) option" where
  "protocol_parser_feed parser byte packet =
    (if parser_length parser = 0 \<and> byte \<noteq> PROTOCOL_MAGIC_0 then Some (False, parser, packet)
     else if parser_length parser = 1 \<and> byte \<noteq> PROTOCOL_MAGIC_1 then do {
       buf \<leftarrow> store (parser_buffer parser) 0 [PROTOCOL_MAGIC_0];
       Some (False, parser\<lparr>parser_length := (if byte = PROTOCOL_MAGIC_0 then 1 else 0),
                           parser_buffer := buf\<rparr>, packet) }
     else do {
       buf \<leftarrow> store (parser_buffer parser) (parser_length parser) [byte];
       let parser = parser\<lparr>parser_buffer := buf, parser_length := parser_length parser + 1\<rparr>;
       if parser_length parser < HEADER_SIZE then Some (False, parser, packet)
       else do {
         payload_length \<leftarrow> read_le16 buf 6;
         if unat payload_length > PROTOCOL_MAX_PAYLOAD
         then Some (False, parser\<lparr>parser_length := 0\<rparr>, packet)
         else do {
           let packet_length = HEADER_SIZE + unat payload_length + CRC_SIZE;
           if parser_length parser < packet_length then Some (False, parser, packet)
           else do {
             expected_crc \<leftarrow> read_le32 buf (HEADER_SIZE + unat payload_length);
             actual_crc \<leftarrow> protocol_crc32 buf 2 (HEADER_SIZE - 2 + unat payload_length);
             if actual_crc \<noteq> expected_crc then Some (False, parser\<lparr>parser_length := 0\<rparr>, packet)
             else do {
               ver \<leftarrow> load8 buf 2;
               cmd \<leftarrow> load8 buf 3;
               seq \<leftarrow> read_le16 buf 4;
               data \<leftarrow> load buf HEADER_SIZE (unat payload_length);
               payload \<leftarrow> store (pkt_payload packet) 0 data;
               Some (True, parser\<lparr>parser_length := 0\<rparr>,
                 packet\<lparr>pkt_version := ver, pkt_command := cmd, pkt_sequence := seq,
                        pkt_length := payload_length, pkt_payload := payload\<rparr>) } } } } })"

section \<open>The writer\<close>

definition protocol_set_writer ::
  "writer_t option \<Rightarrow> int \<Rightarrow> 'a protocol_dev_scheme \<Rightarrow> 'a protocol_dev_scheme" where
  "protocol_set_writer write context s = s\<lparr>s_write := write, s_write_context := context\<rparr>"

definition protocol_set_uart_port ::
  "uart_port_t \<Rightarrow> 'a protocol_dev_scheme \<Rightarrow> 'a protocol_dev_scheme" where
  "protocol_set_uart_port uart_port s =
     protocol_set_writer (Some Uart_writer) uart_port (s\<lparr>s_uart_port := uart_port\<rparr>)"

definition uart_transport_write ::
  "esp_idf \<Rightarrow> int \<Rightarrow> bytes \<Rightarrow> 'a protocol_dev_scheme \<Rightarrow> esp_err_t \<times> 'a protocol_dev_scheme" where
  "uart_transport_write E context data s =
     (let written = uart_write_bytes E (trace s) context data
      in (if written = int (length data) then ESP_OK else ESP_FAIL,
          emit (Uart_write_bytes context data) s))"

text \<open>The call through the function pointer \<open>s_write\<close>; a NULL pointer is undefined.\<close>

definition call_s_write ::
  "esp_idf \<Rightarrow> bytes \<Rightarrow> 'a protocol_dev_scheme \<Rightarrow> (esp_err_t \<times> 'a protocol_dev_scheme) option" where
  "call_s_write E data s =
     (case s_write s of
        None \<Rightarrow> None
      | Some Uart_writer \<Rightarrow> Some (uart_transport_write E (s_write_context s) data s)
      | Some (Custom_writer f) \<Rightarrow>
          Some (custom_write E (trace s) f (s_write_context s) data,
                emit (Custom_write f (s_write_context s) data) s))"

definition protocol_send_packet ::
  "esp_idf \<Rightarrow> u8 \<Rightarrow> u16 \<Rightarrow> bytes option \<Rightarrow> u16 \<Rightarrow> 'a protocol_dev_scheme \<Rightarrow>
   'a protocol_dev_scheme option" where
  "protocol_send_packet E command sequence payload len s = do {
     b \<leftarrow> store (s_tx_buffer s) 0 [PROTOCOL_MAGIC_0];
     b \<leftarrow> store b 1 [PROTOCOL_MAGIC_1];
     b \<leftarrow> store b 2 [PROTOCOL_VERSION];
     b \<leftarrow> store b 3 [command];
     b \<leftarrow> write_le16 b 4 sequence;
     b \<leftarrow> write_le16 b 6 len;
     b \<leftarrow> (case payload of
            Some p \<Rightarrow> if len > 0
                       then do { xs \<leftarrow> load p 0 (unat len); store b HEADER_SIZE xs }
                       else Some b
          | None \<Rightarrow> Some b);
     crc \<leftarrow> protocol_crc32 b 2 (HEADER_SIZE - 2 + unat len);
     b \<leftarrow> write_le32 b (HEADER_SIZE + unat len) crc;
     let s = s\<lparr>s_tx_buffer := b\<rparr>;
     let s = (if s_write s = None then protocol_set_uart_port (s_uart_port s) s else s);
     data \<leftarrow> load b 0 (HEADER_SIZE + unat len + CRC_SIZE);
     (err, s) \<leftarrow> call_s_write E data s;
     Some s }"

definition protocol_send_ack ::
  "esp_idf \<Rightarrow> u16 \<Rightarrow> 'a protocol_dev_scheme \<Rightarrow> 'a protocol_dev_scheme option" where
  "protocol_send_ack E sequence s =
     protocol_send_packet E (cmd_code CMD_ACK) sequence (Some [err_code ERR_OK]) 1 s"

definition protocol_send_nack ::
  "esp_idf \<Rightarrow> u16 \<Rightarrow> protocol_error_t \<Rightarrow> 'a protocol_dev_scheme \<Rightarrow> 'a protocol_dev_scheme option"
  where
  "protocol_send_nack E sequence error s =
     protocol_send_packet E (cmd_code CMD_NACK) sequence (Some [err_code error]) 1 s"

section \<open>Specification: the wire format\<close>

definition le16 :: "u16 \<Rightarrow> bytes" where
  "le16 v = [ucast v, ucast (drop_bit 8 v)]"

definition le32 :: "u32 \<Rightarrow> bytes" where
  "le32 v = [ucast v, ucast (drop_bit 8 v), ucast (drop_bit 16 v), ucast (drop_bit 24 v)]"

text \<open>A message: version, command, sequence number, payload.\<close>

datatype msg = Msg (msg_version: u8) (msg_command: u8) (msg_sequence: u16) (msg_payload: bytes)

text \<open>The bytes covered by the checksum, and the whole packet.\<close>

fun wire_body :: "msg \<Rightarrow> bytes" where
  "wire_body (Msg v c q p) = [v, c] @ le16 q @ le16 (of_nat (length p)) @ p"

definition wire :: "msg \<Rightarrow> bytes" where
  "wire m = [PROTOCOL_MAGIC_0, PROTOCOL_MAGIC_1] @ wire_body m @ le32 (crc32 (wire_body m))"

text \<open>The header the writer builds.\<close>

definition tx_header :: "u8 \<Rightarrow> u16 \<Rightarrow> u16 \<Rightarrow> bytes" where
  "tx_header c q n = [PROTOCOL_MAGIC_0, PROTOCOL_MAGIC_1, PROTOCOL_VERSION, c] @ le16 q @ le16 n"

definition msg_ok :: "msg \<Rightarrow> bool" where
  "msg_ok m \<longleftrightarrow> length (msg_payload m) \<le> PROTOCOL_MAX_PAYLOAD"

definition pkt_msg :: "protocol_packet_t \<Rightarrow> msg" where
  "pkt_msg p = Msg (pkt_version p) (pkt_command p) (pkt_sequence p)
                   (take (unat (pkt_length p)) (pkt_payload p))"

text \<open>The parser on byte lists: the bytes of the unfinished packet are the state.\<close>

definition get16 :: "bytes \<Rightarrow> u16" where
  "get16 xs = ucast (xs ! 0) OR push_bit 8 (ucast (xs ! 1))"

definition get32 :: "bytes \<Rightarrow> u32" where
  "get32 xs = ucast (xs ! 0) OR push_bit 8 (ucast (xs ! 1)) OR push_bit 16 (ucast (xs ! 2))
              OR push_bit 24 (ucast (xs ! 3))"

definition parse_step :: "bytes \<Rightarrow> u8 \<Rightarrow> bytes \<times> msg option" where
  "parse_step acc b =
    (if acc = [] \<and> b \<noteq> PROTOCOL_MAGIC_0 then ([], None)
     else if length acc = 1 \<and> b \<noteq> PROTOCOL_MAGIC_1
       then (if b = PROTOCOL_MAGIC_0 then [PROTOCOL_MAGIC_0] else [], None)
     else
       let xs = acc @ [b]; n = unat (get16 (drop 6 xs)) in
       if length xs < 8 then (xs, None)
       else if n > 1024 then ([], None)
       else if length xs < 12 + n then (xs, None)
       else if crc32 (take (6 + n) (drop 2 xs)) \<noteq> get32 (drop (8 + n) xs) then ([], None)
       else ([], Some (Msg (xs ! 2) (xs ! 3) (get16 (drop 4 xs)) (take n (drop 8 xs)))))"

section \<open>Invariants\<close>

definition pending :: "protocol_parser_t \<Rightarrow> bytes" where
  "pending p = take (parser_length p) (parser_buffer p)"

text \<open>What an unfinished packet looks like.\<close>

definition pending_ok :: "bytes \<Rightarrow> bool" where
  "pending_ok xs \<longleftrightarrow>
     (xs \<noteq> [] \<longrightarrow> xs ! 0 = PROTOCOL_MAGIC_0) \<and>
     (1 < length xs \<longrightarrow> xs ! 1 = PROTOCOL_MAGIC_1) \<and>
     (8 \<le> length xs \<longrightarrow>
        unat (get16 (drop 6 xs)) \<le> 1024 \<and> length xs < 12 + unat (get16 (drop 6 xs)))"

definition parser_inv :: "protocol_parser_t \<Rightarrow> bool" where
  "parser_inv p \<longleftrightarrow> length (parser_buffer p) = FRAME_MAX \<and> parser_length p < FRAME_MAX \<and>
     pending_ok (pending p)"

definition packet_inv :: "protocol_packet_t \<Rightarrow> bool" where
  "packet_inv q \<longleftrightarrow> length (pkt_payload q) = PROTOCOL_MAX_PAYLOAD \<and>
     unat (pkt_length q) \<le> PROTOCOL_MAX_PAYLOAD"

definition protocol_inv :: "'a protocol_dev_scheme \<Rightarrow> bool" where
  "protocol_inv s \<longleftrightarrow> length (s_tx_buffer s) = FRAME_MAX"

text \<open>The effect of sending a frame: the writer in use (the UART writer when none is set) is
  called once with the frame.\<close>

definition tx_call :: "'a protocol_dev_scheme \<Rightarrow> bytes \<Rightarrow> call" where
  "tx_call s f = (case s_write s of
     None \<Rightarrow> Uart_write_bytes (s_uart_port s) f
   | Some Uart_writer \<Rightarrow> Uart_write_bytes (s_write_context s) f
   | Some (Custom_writer g) \<Rightarrow> Custom_write g (s_write_context s) f)"

definition send_frame :: "bytes \<Rightarrow> 'a protocol_dev_scheme \<Rightarrow> 'a protocol_dev_scheme" where
  "send_frame f s =
     (let c = tx_call s f;
          s' = (if s_write s = None then protocol_set_uart_port (s_uart_port s) s else s)
      in s'\<lparr>s_tx_buffer := blit (s_tx_buffer s) 0 f, trace := c # trace s\<rparr>)"

section \<open>Little-endian lemmas\<close>

lemma length_le16 [simp]: "length (le16 v) = 2"
  by (simp add: le16_def)

lemma length_le32 [simp]: "length (le32 v) = 4"
  by (simp add: le32_def)

lemma get16_le16 [simp]: "get16 (le16 v @ xs) = v"
  by (rule bit_word_eqI)
     (auto simp: get16_def le16_def bit_or_iff bit_push_bit_iff bit_ucast_iff bit_drop_bit_eq)

lemma get32_le32 [simp]: "get32 (le32 v @ xs) = v"
proof (rule bit_word_eqI)
  fix n assume "n < LENGTH(32)"
  then show "bit (get32 (le32 v @ xs)) n = bit v n"
    by (simp add: get32_def le32_def bit_or_iff bit_push_bit_iff bit_ucast_iff bit_drop_bit_eq)
       (cases "n < 8"; cases "n < 16"; cases "n < 24"; auto dest: bit_imp_le_length)
qed

lemma le16_get16: "2 \<le> length xs \<Longrightarrow> le16 (get16 xs) = take 2 xs"
proof -
  assume "2 \<le> length xs"
  then obtain a b ys where xs: "xs = a # b # ys"
    by (auto simp: numeral_eq_Suc Suc_le_length_iff)
  have "ucast (get16 xs) = a"
    by (rule bit_word_eqI)
       (auto simp: xs get16_def bit_or_iff bit_push_bit_iff bit_ucast_iff)
  moreover have "ucast (drop_bit 8 (get16 xs)) = b"
    by (rule bit_word_eqI)
       (auto simp: xs get16_def bit_or_iff bit_push_bit_iff bit_ucast_iff bit_drop_bit_eq
         dest: bit_imp_le_length)
  ultimately show ?thesis
    by (simp add: le16_def xs numeral_2_eq_2)
qed

lemma le32_get32: "4 \<le> length xs \<Longrightarrow> le32 (get32 xs) = take 4 xs"
proof -
  assume "4 \<le> length xs"
  then obtain a b c d ys where xs: "xs = a # b # c # d # ys"
    by (auto simp: numeral_eq_Suc Suc_le_length_iff)
  let ?v = "get32 xs"
  have "ucast ?v = a" "ucast (drop_bit 8 ?v) = b" "ucast (drop_bit 16 ?v) = c"
    "ucast (drop_bit 24 ?v) = d"
    by (rule bit_word_eqI;
        auto simp: xs get32_def bit_or_iff bit_push_bit_iff bit_ucast_iff bit_drop_bit_eq
         dest: bit_imp_le_length)+
  then show ?thesis
    by (simp add: le32_def xs numeral_eq_Suc)
qed

lemma read_le16_Some [mem_simps]:
  "off + 2 \<le> length buf \<Longrightarrow> read_le16 buf off = Some (get16 (drop off buf))"
  by (simp add: read_le16_def load8_def get16_def)

lemma read_le32_Some [mem_simps]:
  "off + 4 \<le> length buf \<Longrightarrow> read_le32 buf off = Some (get32 (drop off buf))"
  by (simp add: read_le32_def load8_def get32_def)

lemma ucast_mask_u8: "ucast ((v :: 'a::len word) AND 0xFF) = (ucast v :: u8)"
proof -
  have m: "(0xFF :: 'a word) = mask 8"
    by (simp add: mask_eq_exp_minus_1)
  show ?thesis
    unfolding m by (rule bit_word_eqI) (auto simp: bit_ucast_iff bit_and_iff bit_mask_iff
      dest: bit_imp_le_length)
qed

lemma write_le16_store: "write_le16 buf off v = store buf off (le16 v)"
  by (simp add: write_le16_def ucast_mask_u8 store_store_at le16_def)

lemma write_le32_store: "write_le32 buf off v = store buf off (le32 v)"
  by (simp add: write_le32_def ucast_mask_u8 store_store_cont store_store_at le32_def)

lemma protocol_crc32_Some [mem_simps]:
  "off + n \<le> length buf \<Longrightarrow> protocol_crc32 buf off n = Some (crc32 (take n (drop off buf)))"
  by (simp add: protocol_crc32_def load_def)

section \<open>The packet writer sends the wire format\<close>

lemma length_wire_body [wire_simps]: "length (wire_body (Msg v c q p)) = 6 + length p"
  by simp

lemma length_wire [wire_simps]: "length (wire m) = 12 + length (msg_payload m)"
  by (cases m) (simp add: wire_def)

lemma call_s_write_Some:
  "s_write s \<noteq> None \<Longrightarrow> \<exists>err. call_s_write E f s = Some (err, s\<lparr>trace := tx_call s f # trace s\<rparr>)"
  by (auto simp: call_s_write_def uart_transport_write_def tx_call_def emit_def
      split: writer_t.splits option.splits)

lemma length_tx_header [simp]: "length (tx_header c q n) = 8"
  by (simp add: tx_header_def)

lemma tx_header_build:
  fixes k :: "bytes \<Rightarrow> 'z option"
  assumes "length b = FRAME_MAX"
  shows "do { b \<leftarrow> store b 0 [PROTOCOL_MAGIC_0]; b \<leftarrow> store b 1 [PROTOCOL_MAGIC_1];
       b \<leftarrow> store b 2 [PROTOCOL_VERSION]; b \<leftarrow> store b 3 [c]; b \<leftarrow> write_le16 b 4 q;
       b \<leftarrow> write_le16 b 6 n; k b } = k (blit b 0 (tx_header c q n))"
  using assms
  by (simp add: write_le16_store store_store_cont store_Some blit_blit_at tx_header_def
      del: One_nat_def)

lemma tx_payload_store:
  assumes "unat n \<le> PROTOCOL_MAX_PAYLOAD" "unat n \<le> length p" "length b = FRAME_MAX"
  shows "(case Some p of Some p \<Rightarrow> if 0 < n then do { xs \<leftarrow> load p 0 (unat n); store b 8 xs }
      else Some b | None \<Rightarrow> Some b) = Some (blit b 8 (take (unat n) p))"
  using assms by (auto simp: load_def store_def word_gt_0)

lemma wire_tx:
  assumes "length p = unat n"
  shows "wire (Msg PROTOCOL_VERSION c q p) =
    (tx_header c q n @ p) @ le32 (crc32 (wire_body (Msg PROTOCOL_VERSION c q p)))"
    and "\<exists>r. drop 2 (blit b 0 (tx_header c q n @ p)) = wire_body (Msg PROTOCOL_VERSION c q p) @ r"
  using assms by (simp_all add: wire_def tx_header_def blit_def)

lemma tx_crc_region:
  assumes "length p = unat n" "8 + unat n \<le> length b"
  shows "protocol_crc32 (blit b 0 (tx_header c q n @ p)) 2 (8 - 2 + unat n) =
    Some (crc32 (wire_body (Msg PROTOCOL_VERSION c q p)))"
proof -
  obtain r where "drop 2 (blit b 0 (tx_header c q n @ p)) =
      wire_body (Msg PROTOCOL_VERSION c q p) @ r"
    using wire_tx(2) [OF assms(1)] by blast
  with assms show ?thesis
    by (simp add: protocol_crc32_Some length_wire_body del: wire_body.simps)
qed

lemma send_frame_call:
  "(let s = s\<lparr>s_tx_buffer := blit (s_tx_buffer s) 0 f\<rparr>;
        s = (if s_write s = None then protocol_set_uart_port (s_uart_port s) s else s)
    in do { (err, s) \<leftarrow> call_s_write E f s; Some s }) = Some (send_frame f s)"
proof (cases "s_write s")
  case None
  then show ?thesis
    by (simp add: call_s_write_def uart_transport_write_def protocol_set_uart_port_def
        protocol_set_writer_def send_frame_def tx_call_def emit_def)
next
  case (Some g)
  then show ?thesis
    using call_s_write_Some [of "s\<lparr>s_tx_buffer := blit (s_tx_buffer s) 0 f\<rparr>" E f]
    by (auto simp: send_frame_def tx_call_def split: writer_t.splits)
qed

lemma protocol_send_packet_eq:
  assumes inv: "protocol_inv s" and len: "unat n \<le> PROTOCOL_MAX_PAYLOAD" "unat n \<le> length p"
  shows "protocol_send_packet E c q (Some p) n s =
    Some (send_frame (wire (Msg PROTOCOL_VERSION c q (take (unat n) p))) s)"
proof -
  let ?p = "take (unat n) p" and ?b = "s_tx_buffer s"
  let ?h = "tx_header c q n"
  let ?w = "wire (Msg PROTOCOL_VERSION c q ?p)"
  have lb: "length ?b = 1036" using inv by (simp add: protocol_inv_def)
  have pl: "length ?p = unat n" using len by simp
  have sp: "blit (blit ?b 0 ?h) 8 ?p = blit ?b 0 (?h @ ?p)"
    using lb pl len by (simp add: blit_blit_at)
  have sc: "store (blit ?b 0 (?h @ ?p)) (8 + unat n) (le32 x) =
      Some (blit ?b 0 ((?h @ ?p) @ le32 x))" for x
    using lb pl len by (simp add: store_Some blit_blit_at)
  have ld: "load (blit ?b 0 ?w) 0 (8 + unat n + 4) = Some ?w"
    using lb pl len by (simp add: load_def blit_def length_wire)
  have lh: "length (blit ?b 0 ?h) = 1036" using lb by simp
  have lt: "8 + unat n \<le> length ?b" using lb len by simp
  show ?thesis
    unfolding protocol_send_packet_def tx_header_build [OF lb] tx_payload_store [OF len lh]
      bind.bind_lunit sp tx_crc_region [OF pl lt] write_le32_store sc wire_tx(1) [OF pl, symmetric]
      Let_def ld
    using send_frame_call [of s ?w E] by (simp add: Let_def)
qed

text \<open>There is no length check: a longer payload is written past the end of \<open>s_tx_buffer\<close>.\<close>

lemma protocol_send_packet_overrun:
  assumes "protocol_inv s" "1024 < unat n"
  shows "protocol_send_packet E c q p n s = None"
proof (rule ccontr)
  have w: "write_le32 b (8 + unat n) x = None" if "length b = 1036" for b x
    using that assms(2) by (simp add: write_le32_store store_def)
  assume "protocol_send_packet E c q p n s \<noteq> None"
  then show False
    using assms(1) by (auto simp: protocol_send_packet_def protocol_inv_def write_le16_store bind_eq_Some
      store_eq_Some w split: option.splits if_splits)
qed

lemma send_frame_simps [simp]:
  "trace (send_frame f s) = tx_call s f # trace s"
  "length (s_tx_buffer s) = FRAME_MAX \<Longrightarrow> length f \<le> FRAME_MAX \<Longrightarrow>
     length (s_tx_buffer (send_frame f s)) = FRAME_MAX"
  by (simp_all add: send_frame_def Let_def)

lemma call_tx_tx_call [simp]: "call_tx (tx_call s f) = Some f"
  by (auto simp: tx_call_def split: option.splits writer_t.splits)

lemma protocol_inv_send_frame:
  "protocol_inv s \<Longrightarrow> length f \<le> FRAME_MAX \<Longrightarrow> protocol_inv (send_frame f s)"
  by (simp add: protocol_inv_def)

section \<open>The parser refines its specification\<close>

lemma get16_take: "off + 2 \<le> k \<Longrightarrow> k \<le> length buf \<Longrightarrow> get16 (drop off (take k buf)) = get16 (drop off buf)"
  by (simp add: get16_def)

lemma get32_take: "off + 4 \<le> k \<Longrightarrow> k \<le> length buf \<Longrightarrow> get32 (drop off (take k buf)) = get32 (drop off buf)"
  by (simp add: get32_def)

lemma get16_append: "off + 2 \<le> length xs \<Longrightarrow> get16 (drop off (xs @ ys)) = get16 (drop off xs)"
  by (simp add: get16_def nth_append)

lemma get32_append: "off + 4 \<le> length xs \<Longrightarrow> get32 (drop off (xs @ ys)) = get32 (drop off xs)"
  by (simp add: get32_def nth_append)

lemma slice_take:
  "off + n \<le> k \<Longrightarrow> k \<le> length buf \<Longrightarrow> take n (drop off (take k buf)) = take n (drop off buf)"
  by (simp add: drop_take min_absorb1)

lemmas prefix_reads = get16_take get32_take slice_take

lemma pending_ok_Nil [simp]: "pending_ok []"
  by (simp add: pending_ok_def)

lemma pending_ok_length: "pending_ok xs \<Longrightarrow> length xs < FRAME_MAX"
  by (cases "8 \<le> length xs") (auto simp: pending_ok_def)

text \<open>Extending an unfinished packet: the accepted prefix grows until it is complete.\<close>

lemma pending_ok_snoc:
  assumes "pending_ok acc" "acc = [] \<longrightarrow> b = PROTOCOL_MAGIC_0" "length acc = 1 \<longrightarrow> b = PROTOCOL_MAGIC_1"
    and "8 \<le> Suc (length acc) \<longrightarrow> unat (get16 (drop 6 (acc @ [b]))) \<le> 1024 \<and>
           Suc (length acc) < 12 + unat (get16 (drop 6 (acc @ [b])))"
  shows "pending_ok (acc @ [b])"
proof -
  consider "acc = []" | a where "acc = [a]" | "2 \<le> length acc"
    by (cases acc rule: remdups_adj.cases) auto
  then show ?thesis
  proof cases
    case 3
    then have "(acc @ [b]) ! 0 = acc ! 0" "(acc @ [b]) ! 1 = acc ! 1" "acc \<noteq> []"
      by (auto simp: nth_append)
    with 3 assms show ?thesis
      unfolding pending_ok_def by simp
  qed (use assms in \<open>auto simp: pending_ok_def\<close>)
qed

lemma pending_complete:
  assumes "pending_ok acc" "12 + unat (get16 (drop 6 (acc @ [b]))) \<le> Suc (length acc)"
  shows "Suc (length acc) = 12 + unat (get16 (drop 6 (acc @ [b])))"
proof -
  have 8: "8 \<le> length acc" using assms(2) by simp
  then have "get16 (drop 6 (acc @ [b])) = get16 (drop 6 acc)"
    by (intro get16_append) simp
  with assms 8 show ?thesis
    unfolding pending_ok_def by simp
qed

lemma parse_step_cases:
  "parse_step acc b = (acc', r) \<Longrightarrow> acc' = [] \<or> acc' = [PROTOCOL_MAGIC_0] \<or>
     acc' = acc @ [b] \<and> (acc = [] \<longrightarrow> b = PROTOCOL_MAGIC_0) \<and>
       (length acc = 1 \<longrightarrow> b = PROTOCOL_MAGIC_1) \<and>
       (8 \<le> Suc (length acc) \<longrightarrow> unat (get16 (drop 6 (acc @ [b]))) \<le> 1024 \<and>
           Suc (length acc) < 12 + unat (get16 (drop 6 (acc @ [b]))))"
  by (auto simp: parse_step_def Let_def split: if_splits)

lemma parse_step_pending_ok:
  assumes "pending_ok acc" "parse_step acc b = (acc', r)"
  shows "pending_ok acc'"
  using parse_step_cases [OF assms(2)] pending_ok_snoc [OF assms(1), of b]
  by (auto simp: pending_ok_def)

text \<open>Inside the array: the branch of the C function that appends a byte.\<close>

lemma pending_append:
  assumes "length buf = FRAME_MAX" "n < FRAME_MAX"
  shows "take (Suc n) (blit buf n [b]) = take n buf @ [b]"
  using take_blit [of n "[b]" buf] assms by simp

lemma feed_append_branch:
  fixes p q b
  defines "xs \<equiv> pending p @ [b]" and "buf \<equiv> blit (parser_buffer p) (parser_length p) [b]"
  defines "n \<equiv> get16 (drop 6 xs)"
  defines "p' \<equiv> p\<lparr>parser_buffer := buf, parser_length := Suc (parser_length p)\<rparr>"
  assumes inv: "parser_inv p" "packet_inv q"
    and app: "\<not> (parser_length p = 0 \<and> b \<noteq> PROTOCOL_MAGIC_0)"
      "\<not> (parser_length p = 1 \<and> b \<noteq> PROTOCOL_MAGIC_1)"
  shows "protocol_parser_feed p b q =
    (if length xs < 8 then Some (False, p', q)
     else if unat n > 1024 then Some (False, p'\<lparr>parser_length := 0\<rparr>, q)
     else if length xs < 12 + unat n then Some (False, p', q)
     else if crc32 (take (6 + unat n) (drop 2 xs)) \<noteq> get32 (drop (8 + unat n) xs)
       then Some (False, p'\<lparr>parser_length := 0\<rparr>, q)
     else Some (True, p'\<lparr>parser_length := 0\<rparr>,
       q\<lparr>pkt_version := xs ! 2, pkt_command := xs ! 3, pkt_sequence := get16 (drop 4 xs),
         pkt_length := n, pkt_payload := blit (pkt_payload q) 0 (take (unat n) (drop 8 xs))\<rparr>))"
proof -
  let ?L = "parser_length p"
  have lb: "length (parser_buffer p) = 1036" "?L < 1036"
    using inv by (simp_all add: parser_inv_def)
  have lbuf: "length buf = 1036" and st: "store (parser_buffer p) ?L [b] = Some buf"
    using lb by (simp_all add: buf_def store_Some)
  have tk: "take (Suc ?L) buf = xs" and lx: "length xs = Suc ?L"
    using lb by (simp_all add: buf_def xs_def pending_append pending_def)
  have g: "get16 (drop off buf) = get16 (drop off xs)" "buf ! off = xs ! off"
    if "off + 2 \<le> Suc ?L" for off
    using that get16_take [of off "Suc ?L" buf] lb lbuf unfolding tk
    by (auto simp: tk [symmetric])
  have r: "take k (drop off buf) = take k (drop off xs)" if "off + k \<le> Suc ?L" for off k
    using that slice_take [of off k "Suc ?L" buf] lb lbuf unfolding tk by simp
  have h: "get32 (drop off buf) = get32 (drop off xs)" if "off + 4 \<le> Suc ?L" for off
    using that get32_take [of off "Suc ?L" buf] lb lbuf unfolding tk by simp
  have lq: "length (pkt_payload q) = 1024" using inv by (simp add: packet_inv_def)
  show ?thesis
    using app lb lbuf lx lq
    by (auto simp: protocol_parser_feed_def st p'_def n_def [symmetric] Let_def read_le16_Some
        read_le32_Some protocol_crc32_Some load8_Some load_Some store_Some g r h)
qed

lemma pending_simps [simp]:
  "pending (p\<lparr>parser_length := 0\<rparr>) = []"
  by (simp add: pending_def)

lemma packet_inv_pkt_msg: "packet_inv q \<Longrightarrow> msg_ok (pkt_msg q)"
  by (simp add: packet_inv_def pkt_msg_def msg_ok_def)

lemma parse_step_append_branch:
  fixes acc b
  defines "xs \<equiv> acc @ [b]"
  defines "n \<equiv> unat (get16 (drop 6 xs))"
  assumes "\<not> (acc = [] \<and> b \<noteq> PROTOCOL_MAGIC_0)" "\<not> (length acc = 1 \<and> b \<noteq> PROTOCOL_MAGIC_1)"
  shows "parse_step acc b =
    (if length xs < 8 then (xs, None) else if n > 1024 then ([], None)
     else if length xs < 12 + n then (xs, None)
     else if crc32 (take (6 + n) (drop 2 xs)) \<noteq> get32 (drop (8 + n) xs) then ([], None)
     else ([], Some (Msg (xs ! 2) (xs ! 3) (get16 (drop 4 xs)) (take n (drop 8 xs)))))"
  using assms(3,4) unfolding xs_def n_def by (auto simp: parse_step_def Let_def)

lemma feed_append_refines:
  assumes inv: "parser_inv p" "packet_inv q"
    and app: "\<not> (parser_length p = 0 \<and> b \<noteq> PROTOCOL_MAGIC_0)"
      "\<not> (parser_length p = 1 \<and> b \<noteq> PROTOCOL_MAGIC_1)"
  shows "\<exists>r p' q'. protocol_parser_feed p b q = Some (r, p', q') \<and> parser_inv p' \<and> packet_inv q' \<and>
    parse_step (pending p) b = (pending p', if r then Some (pkt_msg q') else None) \<and>
    (r \<or> q' = q)"
proof -
  define xs where "xs = pending p @ [b]"
  define n where "n = get16 (drop 6 xs)"
  let ?p' = "p\<lparr>parser_buffer := blit (parser_buffer p) (parser_length p) [b],
               parser_length := Suc (parser_length p)\<rparr>"
  let ?crc = "crc32 (take (6 + unat n) (drop 2 xs)) = get32 (drop (8 + unat n) xs)"
  have lb: "length (parser_buffer p) = 1036" "parser_length p < 1036" "pending_ok (pending p)"
    using inv by (simp_all add: parser_inv_def)
  then have lp: "length (pending p) = parser_length p" "pending p = [] \<longleftrightarrow> parser_length p = 0"
    by (auto simp: pending_def)
  have pend: "pending ?p' = xs"
    using lb by (simp add: pending_def pending_append xs_def)
  have reset: "parser_inv (?p'\<lparr>parser_length := 0\<rparr>)"
    using lb by (simp add: parser_inv_def)
  have keep: "parser_inv ?p'" if "parse_step (pending p) b = (xs, None)"
  proof -
    have ok: "pending_ok xs" using parse_step_pending_ok [OF lb(3) that] .
    then have "Suc (parser_length p) < 1036"
      using pending_ok_length [OF ok] lp by (simp add: xs_def)
    then show ?thesis
      using ok lb by (simp add: parser_inv_def pend)
  qed
  note feed = feed_append_branch [OF inv app, folded xs_def, folded n_def]
  note step = parse_step_append_branch [of "pending p" b, unfolded lp, OF app,
    folded xs_def, folded n_def]
  consider (more) "length xs < 8 \<or> unat n \<le> 1024 \<and> length xs < 12 + unat n"
    | (reject) "\<not> length xs < 8" "unat n > 1024 \<or> \<not> length xs < 12 + unat n \<and> \<not> ?crc"
    | (complete) "\<not> length xs < 8" "unat n \<le> 1024" "\<not> length xs < 12 + unat n" "?crc"
    by linarith
  then show ?thesis
  proof cases
    case more
    then have "protocol_parser_feed p b q = Some (False, ?p', q)"
      "parse_step (pending p) b = (xs, None)"
      unfolding feed step by auto
    then show ?thesis using keep inv pend by auto
  next
    case reject
    then have "protocol_parser_feed p b q = Some (False, ?p'\<lparr>parser_length := 0\<rparr>, q)"
      "parse_step (pending p) b = ([], None)"
      unfolding feed step by auto
    then show ?thesis using reset inv by auto
  next
    case complete
    let ?q = "q\<lparr>pkt_version := xs ! 2, pkt_command := xs ! 3, pkt_sequence := get16 (drop 4 xs),
      pkt_length := n, pkt_payload := blit (pkt_payload q) 0 (take (unat n) (drop 8 xs))\<rparr>"
    have "take (unat n) (blit (pkt_payload q) 0 (take (unat n) (drop 8 xs))) =
        take (unat n) (drop 8 xs)"
      using complete by (simp add: blit_def)
    then have "protocol_parser_feed p b q = Some (True, ?p'\<lparr>parser_length := 0\<rparr>, ?q)"
      "parse_step (pending p) b = ([], Some (pkt_msg ?q))"
      unfolding feed step using complete by (auto simp: pkt_msg_def)
    moreover have "packet_inv ?q"
      using inv(2) complete by (simp add: packet_inv_def)
    ultimately show ?thesis using reset by auto
  qed
qed

text \<open>Refinement of one call: the C parser stays inside its arrays, keeps its invariant and does
  what the list machine does.\<close>

lemma protocol_parser_feed_refines:
  assumes inv: "parser_inv p" "packet_inv q"
  shows "\<exists>r p' q'. protocol_parser_feed p b q = Some (r, p', q') \<and> parser_inv p' \<and> packet_inv q' \<and>
    parse_step (pending p) b = (pending p', if r then Some (pkt_msg q') else None) \<and>
    (r \<or> q' = q)"
proof -
  let ?L = "parser_length p"
  have lb: "length (parser_buffer p) = 1036"
    using inv by (simp_all add: parser_inv_def)
  then have lp: "length (pending p) = min 1036 ?L" "pending p = [] \<longleftrightarrow> ?L = 0"
    by (auto simp: pending_def min_def)
  consider "?L = 0 \<and> b \<noteq> PROTOCOL_MAGIC_0" | "?L = 1 \<and> b \<noteq> PROTOCOL_MAGIC_1"
    | "\<not> (?L = 0 \<and> b \<noteq> PROTOCOL_MAGIC_0)" "\<not> (?L = 1 \<and> b \<noteq> PROTOCOL_MAGIC_1)"
    by blast
  then show ?thesis
  proof cases
    case 1
    then show ?thesis
      using inv lp by (auto simp: protocol_parser_feed_def parse_step_def)
  next
    case 2
    let ?l = "if b = PROTOCOL_MAGIC_0 then 1 else 0"
    let ?p' = "p\<lparr>parser_length := ?l, parser_buffer := blit (parser_buffer p) 0 [PROTOCOL_MAGIC_0]\<rparr>"
    have pend: "pending ?p' = (if b = PROTOCOL_MAGIC_0 then [PROTOCOL_MAGIC_0] else [])"
      by (simp add: pending_def blit_def)
    then have "parser_inv ?p'"
      using lb by (simp add: parser_inv_def pending_ok_def)
    moreover have "protocol_parser_feed p b q = Some (False, ?p', q)"
      using 2 lb by (simp add: protocol_parser_feed_def store_Some)
    moreover have "parse_step (pending p) b = (pending ?p', None)"
      unfolding pend using 2 lp by (simp add: parse_step_def)
    ultimately show ?thesis using inv(2) by auto
  next
    case 3
    then show ?thesis by (rule feed_append_refines [OF inv])
  qed
qed

lemma zero_inv [simp]: "parser_inv zero_parser" "packet_inv zero_packet" "pending zero_parser = []"
  "parser_length zero_parser = 0"
  by (simp_all add: parser_inv_def packet_inv_def pending_def zero_parser_def zero_packet_def)

lemma parser_init_inv:
  "parser_inv p \<Longrightarrow> parser_inv (protocol_parser_init p) \<and> pending (protocol_parser_init p) = []"
  by (simp add: protocol_parser_init_def parser_inv_def)

end
