(* ===== verification/Framing.thy ===== *)
theory Framing
  imports Protocol
begin

text \<open>
  The parser on whole byte streams.  \<open>feed_run\<close> is the loop of \<open>ota_link_task\<close> reduced to the
  parser: it feeds the received bytes one by one and collects the packets for which
  \<open>protocol_parser_feed\<close> returned true.  The locale \<open>frame_decoder\<close> is the contract of a
  streaming decoder; it is interpreted on the list machine \<open>parse_step\<close>.
\<close>

section \<open>Definitions\<close>

fun run_machine :: "('s \<Rightarrow> 'b \<Rightarrow> 's \<times> 'm option) \<Rightarrow> 's \<Rightarrow> 'b list \<Rightarrow> 's \<times> 'm list" where
  "run_machine step s [] = (s, [])"
| "run_machine step s (b # bs) =
     (case step s b of (s', r) \<Rightarrow>
        case run_machine step s' bs of (s'', ms) \<Rightarrow>
          (s'', (case r of None \<Rightarrow> ms | Some m \<Rightarrow> m # ms)))"

fun feed_run :: "protocol_parser_t \<Rightarrow> protocol_packet_t \<Rightarrow> bytes \<Rightarrow>
    (msg list \<times> protocol_parser_t \<times> protocol_packet_t) option" where
  "feed_run p q [] = Some ([], p, q)"
| "feed_run p q (b # bs) = do {
     (r, p, q) \<leftarrow> protocol_parser_feed p b q;
     (ms, p', q') \<leftarrow> feed_run p q bs;
     Some (if r then pkt_msg q # ms else ms, p', q') }"

text \<open>Line noise: no adjacent pair of the two magic bytes.\<close>

fun no_magic :: "bytes \<Rightarrow> bool" where
  "no_magic (a # b # xs) \<longleftrightarrow> \<not> (a = PROTOCOL_MAGIC_0 \<and> b = PROTOCOL_MAGIC_1) \<and> no_magic (b # xs)"
| "no_magic _ \<longleftrightarrow> True"

text \<open>A frame with any body whose length field is right, followed by any four bytes.\<close>

definition raw_frame :: "bytes \<Rightarrow> bytes \<Rightarrow> bytes" where
  "raw_frame body cs = [PROTOCOL_MAGIC_0, PROTOCOL_MAGIC_1] @ body @ cs"

definition body_ok :: "bytes \<Rightarrow> bool" where
  "body_ok body \<longleftrightarrow> 6 \<le> length body \<and> length body = 6 + unat (get16 (drop 4 body)) \<and>
     length body \<le> 1030"

text \<open>The messages \<open>ms\<close> occur in a byte stream as disjoint frames, in order.\<close>

inductive frames_in :: "bytes \<Rightarrow> msg list \<Rightarrow> bool" where
  frames_none: "frames_in xs []"
| frames_skip: "frames_in xs ms \<Longrightarrow> frames_in (b # xs) ms"
| frames_frame: "frames_in xs ms \<Longrightarrow> msg_ok m \<Longrightarrow> frames_in (wire m @ xs) (m # ms)"

section \<open>Contract of a streaming decoder\<close>

lemma run_machine_append:
  "run_machine step s (xs @ ys) =
     (case run_machine step s xs of (s', ms) \<Rightarrow>
        case run_machine step s' ys of (s'', ns) \<Rightarrow> (s'', ms @ ns))"
  by (induction xs arbitrary: s) (auto split: prod.splits option.splits)

lemma run_machine_snoc:
  "run_machine step s xs = (s', ms) \<Longrightarrow> step s' b = (s'', r) \<Longrightarrow>
   run_machine step s (xs @ [b]) = (s'', ms @ (case r of None \<Rightarrow> [] | Some m \<Rightarrow> [m]))"
  by (simp add: run_machine_append split: option.splits)

locale frame_decoder =
  fixes step :: "'s \<Rightarrow> 'b \<Rightarrow> 's \<times> 'm option"
    and idle :: 's
    and enc :: "'m \<Rightarrow> 'b list"
    and ok :: "'m \<Rightarrow> bool"
    and noise :: "'b list \<Rightarrow> bool"
  assumes decode_enc: "ok m \<Longrightarrow> noise xs \<Longrightarrow> run_machine step idle (xs @ enc m) = (idle, [m])"
    and noise_Nil: "noise []"
begin

lemma decode_frames:
  "(\<And>x m. (x, m) \<in> set fs \<Longrightarrow> noise x \<and> ok m) \<Longrightarrow>
   run_machine step idle (concat (map (\<lambda>(x, m). x @ enc m) fs)) = (idle, map snd fs)"
proof (induction fs)
  case (Cons f fs)
  obtain x m where f: "f = (x, m)" by (cases f)
  have "run_machine step idle (x @ enc m) = (idle, [m])"
    using Cons.prems [of x m] by (intro decode_enc) (simp_all add: f)
  moreover have "run_machine step idle (concat (map (\<lambda>(x, m). x @ enc m) fs)) = (idle, map snd fs)"
    by (rule Cons.IH) (meson Cons.prems list.set_intros(2))
  ultimately show ?case
    by (simp add: f run_machine_append [of step idle "x @ enc m", simplified])
qed simp

lemma enc_inj:
  assumes "ok m" "ok n" "enc m = enc n"
  shows "m = n"
  using decode_enc [OF assms(1) noise_Nil] decode_enc [OF assms(2) noise_Nil] assms(3) by simp

end

section \<open>Frames on the list machine\<close>

lemma parse_step_idle: "parse_step [] PROTOCOL_MAGIC_0 = ([PROTOCOL_MAGIC_0], None)"
  by (simp add: parse_step_def)

lemma parse_step_start:
  "s \<in> {[], [PROTOCOL_MAGIC_0]} \<Longrightarrow> parse_step s b =
   (if s \<noteq> [] \<and> b = PROTOCOL_MAGIC_1 then [PROTOCOL_MAGIC_0, PROTOCOL_MAGIC_1]
    else if b = PROTOCOL_MAGIC_0 then [PROTOCOL_MAGIC_0] else [], None)"
  by (auto simp: parse_step_def PROTOCOL_MAGIC_0_def PROTOCOL_MAGIC_1_def)

lemma noise_skipped:
  "no_magic (s @ xs) \<Longrightarrow> s \<in> {[], [PROTOCOL_MAGIC_0]} \<Longrightarrow>
   \<exists>s' \<in> {[], [PROTOCOL_MAGIC_0]}. run_machine parse_step s xs = (s', [])"
proof (induction xs arbitrary: s)
  case (Cons b xs)
  let ?s' = "if b = PROTOCOL_MAGIC_0 then [PROTOCOL_MAGIC_0] else []"
  have "\<not> (s \<noteq> [] \<and> b = PROTOCOL_MAGIC_1)"
    using Cons.prems by auto
  then have "parse_step s b = (?s', None)"
    unfolding parse_step_start [OF Cons.prems(2)] by auto
  moreover have "no_magic (b # xs)"
    using Cons.prems by auto
  then have "no_magic (?s' @ xs)"
    by (cases xs) auto
  then obtain s' where "s' \<in> {[], [PROTOCOL_MAGIC_0]}" "run_machine parse_step ?s' xs = (s', [])"
    using Cons.IH [of ?s'] by (cases "b = PROTOCOL_MAGIC_0") auto
  ultimately show ?case
    by auto
qed auto

lemma body_okD:
  assumes "body_ok body"
  shows "6 \<le> length body" "unat (get16 (drop 4 body)) = length body - 6"
    "length body - 6 \<le> 1024"
  using assms unfolding body_ok_def by linarith+

lemma raw_frame_step:
  assumes ok: "body_ok body" "length cs = 4" and k: "Suc k < length (raw_frame body cs)"
  shows "parse_step (take k (raw_frame body cs)) (raw_frame body cs ! k) =
    (take (Suc k) (raw_frame body cs), None)"
proof -
  define w where "w = raw_frame body cs"
  have lw: "length w = 6 + length body" using ok by (simp add: w_def raw_frame_def)
  have tk: "take k w @ [w ! k] = take (Suc k) w" using k by (simp add: w_def take_Suc_conv_app_nth)
  have 0: "\<not> (take k w = [] \<and> w ! k \<noteq> PROTOCOL_MAGIC_0)"
    using lw by (cases k) (auto simp: w_def raw_frame_def)
  have 1: "\<not> (length (take k w) = 1 \<and> w ! k \<noteq> PROTOCOL_MAGIC_1)"
    using k by (auto simp: w_def raw_frame_def)
  have "get16 (drop 6 (take (Suc k) w)) = get16 (drop 4 body)" if "8 \<le> Suc k"
  proof -
    have "get16 (drop 6 (take (Suc k) w)) = get16 (drop 6 w)"
      using that k by (intro get16_take) (simp_all add: w_def)
    also have "drop 6 w = drop 4 (body @ cs)"
      by (simp add: w_def raw_frame_def)
    also have "get16 \<dots> = get16 (drop 4 body)"
      using body_okD [OF ok(1)] by (intro get16_append) simp
    finally show ?thesis .
  qed
  then have n: "8 \<le> Suc k \<Longrightarrow> unat (get16 (drop 6 (take (Suc k) w))) = length body - 6"
    using body_okD [OF ok(1)] by simp
  have l: "length (take (Suc k) w) = Suc k" "Suc k < 6 + length body"
    using k lw by (simp_all add: w_def)
  have "parse_step (take k w) (w ! k) = (take (Suc k) w, None)"
  proof (cases "8 \<le> Suc k")
    case True
    then show ?thesis
      unfolding parse_step_append_branch [OF 0 1] tk l(1) n [OF True]
      using body_okD [OF ok(1)] l(2) by simp
  next
    case False
    then show ?thesis
      unfolding parse_step_append_branch [OF 0 1] tk l(1) by simp
  qed
  then show ?thesis by (simp only: w_def)
qed

lemma raw_frame_prefix:
  assumes "body_ok body" "length cs = 4"
  shows "k < length (raw_frame body cs) \<Longrightarrow>
    run_machine parse_step [] (take k (raw_frame body cs)) = (take k (raw_frame body cs), [])"
proof (induction k)
  case (Suc k)
  then show ?case
    using run_machine_snoc [OF Suc.IH raw_frame_step [OF assms, of k]]
    by (simp add: take_Suc_conv_app_nth)
qed simp

lemma raw_frame_run:
  assumes ok: "body_ok body" "length cs = 4"
  shows "run_machine parse_step [] (raw_frame body cs) =
    ([], if crc32 body = get32 cs
         then [Msg (body ! 0) (body ! 1) (get16 (drop 2 body)) (drop 6 body)] else [])"
proof -
  define w where "w = raw_frame body cs"
  define k where "k = length body + 5"
  let ?n = "length body - 6"
  have lw: "length w = Suc k" using ok by (simp add: w_def raw_frame_def k_def)
  have w: "w = take k w @ [w ! k]"
    using lw take_Suc_conv_app_nth [of k w] by simp
  have 0: "\<not> (take k w = [] \<and> w ! k \<noteq> PROTOCOL_MAGIC_0)"
    and 1: "\<not> (length (take k w) = 1 \<and> w ! k \<noteq> PROTOCOL_MAGIC_1)"
    using lw by (auto simp: k_def)
  note body = body_okD [OF ok(1)]
  have ne: "body \<noteq> []" "1 < length body" using body by auto
  have g: "unat (get16 (drop 6 w)) = ?n"
    using get16_append [of 4 body cs] body by (simp add: w_def raw_frame_def)
  have "get16 (drop 4 w) = get16 (drop 2 body)"
    using get16_append [of 2 body cs] body by (simp add: w_def raw_frame_def)
  moreover have "w ! 2 = body ! 0" "w ! 3 = body ! 1" "take (6 + ?n) (drop 2 w) = body"
    "take ?n (drop 8 w) = drop 6 body" "drop (8 + ?n) w = cs"
    using body ne by (simp_all add: w_def raw_frame_def nth_append)
  ultimately have "parse_step (take k w) (w ! k) = ([], if crc32 body = get32 cs
      then Some (Msg (body ! 0) (body ! 1) (get16 (drop 2 body)) (drop 6 body)) else None)"
    unfolding parse_step_append_branch [OF 0 1] w [symmetric] g
    using lw body by (simp add: k_def)
  moreover have "run_machine parse_step [] (take k w) = (take k w, [])"
    using raw_frame_prefix [OF ok, of k] lw by (simp add: w_def)
  ultimately have "run_machine parse_step [] (take k w @ [w ! k]) = ([], [] @
      (case (if crc32 body = get32 cs
        then Some (Msg (body ! 0) (body ! 1) (get16 (drop 2 body)) (drop 6 body)) else None) of
       None \<Rightarrow> [] | Some m \<Rightarrow> [m]))"
    by (intro run_machine_snoc)
  then show ?thesis
    unfolding w [symmetric] by (simp add: w_def)
qed

section \<open>Wire frames\<close>

lemma wire_raw: "wire m = raw_frame (wire_body m) (le32 (crc32 (wire_body m)))"
  by (simp add: wire_def raw_frame_def)

lemma wire_body_slices:
  "wire_body (Msg v c q p) ! 0 = v" "wire_body (Msg v c q p) ! Suc 0 = c"
  "drop 2 (wire_body (Msg v c q p)) = le16 q @ le16 (of_nat (length p)) @ p"
  "drop 4 (wire_body (Msg v c q p)) = le16 (of_nat (length p)) @ p"
  "drop 6 (wire_body (Msg v c q p)) = p"
  by simp_all

lemma unat_of_nat_u16: "n \<le> 1024 \<Longrightarrow> unat (of_nat n :: u16) = n"
  by (simp add: unat_of_nat)

lemma wire_body_ok: "msg_ok m \<Longrightarrow> body_ok (wire_body m)"
  by (cases m) (simp add: body_ok_def msg_ok_def wire_body_slices unat_of_nat_u16)

lemma wire_decode: "msg_ok m \<Longrightarrow> run_machine parse_step [] (wire m) = ([], [m])"
  unfolding wire_raw using raw_frame_run [OF wire_body_ok, of m] get32_le32 [of _ "[]"]
  by (cases m) (simp add: wire_body_slices del: wire_body.simps)

lemma wire_decode_from:
  assumes "msg_ok m" "s \<in> {[], [PROTOCOL_MAGIC_0]}"
  shows "run_machine parse_step s (wire m) = ([], [m])"
proof -
  obtain w where w: "wire m = PROTOCOL_MAGIC_0 # w"
    by (simp add: wire_def)
  have "parse_step s PROTOCOL_MAGIC_0 = parse_step [] PROTOCOL_MAGIC_0"
    unfolding parse_step_start [OF assms(2)] parse_step_idle
    by (simp add: PROTOCOL_MAGIC_0_def PROTOCOL_MAGIC_1_def)
  then show ?thesis
    using wire_decode [OF assms(1)] by (simp add: w)
qed

interpretation link_frames: frame_decoder parse_step "[]" wire msg_ok no_magic
proof
  fix m xs
  assume "msg_ok m" "no_magic xs"
  moreover from this obtain s where "s \<in> {[], [PROTOCOL_MAGIC_0]}" "run_machine parse_step [] xs = (s, [])"
    using noise_skipped [of "[]" xs] by auto
  ultimately show "run_machine parse_step [] (xs @ wire m) = ([], [m])"
    by (simp add: run_machine_append wire_decode_from)
qed simp

section \<open>Accepted packets are frames of the stream\<close>

lemma slice_add: "take (i + j) (drop k xs) = take i (drop k xs) @ take j (drop (k + i) xs)"
  by (simp add: take_add add.commute)

lemma frame_shape:
  assumes "length xs = 12 + n" "unat (get16 (drop 6 xs)) = n"
    "xs ! 0 = PROTOCOL_MAGIC_0" "xs ! 1 = PROTOCOL_MAGIC_1"
    "crc32 (take (6 + n) (drop 2 xs)) = get32 (drop (8 + n) xs)"
  shows "xs = wire (Msg (xs ! 2) (xs ! 3) (get16 (drop 4 xs)) (take n (drop 8 xs)))"
proof -
  let ?m = "Msg (xs ! 2) (xs ! 3) (get16 (drop 4 xs)) (take n (drop 8 xs))"
  have n: "of_nat (length (take n (drop 8 xs))) = get16 (drop 6 xs)"
  proof -
    have "length (take n (drop 8 xs)) = unat (get16 (drop 6 xs))"
      using assms(1,2) by simp
    then show ?thesis by simp
  qed
  have two: "take 2 (drop k xs) = [xs ! k, xs ! Suc k]" if "k + 2 \<le> length xs" for k
    using that by (simp add: take_Suc_conv_app_nth numeral_2_eq_2)
  have body: "wire_body ?m = take (6 + n) (drop 2 xs)"
  proof -
    have "take (6 + n) (drop 2 xs) =
        take 2 (drop 2 xs) @ take 2 (drop 4 xs) @ take 2 (drop 6 xs) @ take n (drop 8 xs)"
      using slice_add [of 2 "4 + n" 2 xs] slice_add [of 2 "2 + n" 4 xs] slice_add [of 2 n 6 xs]
      by (simp add: add_2_eq_Suc [symmetric] del: add_2_eq_Suc add_2_eq_Suc')
    then show ?thesis
      using n two [of 2] assms(1) by (simp add: le16_get16)
  qed
  have "le32 (crc32 (wire_body ?m)) = drop (8 + n) xs"
    unfolding body assms(5) using assms(1) by (simp add: le32_get32)
  moreover have "xs = take 2 xs @ take (6 + n) (drop 2 xs) @ drop (8 + n) xs"
    using append_take_drop_id [of 2 xs] append_take_drop_id [of "6 + n" "drop 2 xs"]
    by (simp add: add.commute)
  ultimately show ?thesis
    unfolding wire_def body using two [of 0] assms(1,3,4) by simp
qed

lemma parse_step_Some:
  assumes "pending_ok acc" "parse_step acc b = (acc', Some m)"
  shows "acc @ [b] = wire m \<and> msg_ok m \<and> acc' = []"
proof -
  define xs where "xs = acc @ [b]"
  let ?n = "unat (get16 (drop 6 xs))"
  have a: "\<not> length xs < 8" "?n \<le> 1024" "\<not> length xs < 12 + ?n"
    "crc32 (take (6 + ?n) (drop 2 xs)) = get32 (drop (8 + ?n) xs)" "acc' = []"
    "m = Msg (xs ! 2) (xs ! 3) (get16 (drop 4 xs)) (take ?n (drop 8 xs))"
    using assms(2) unfolding parse_step_def Let_def xs_def by (auto split: if_splits)
  have lx: "length xs = Suc (length acc)" by (simp add: xs_def)
  have l: "length xs = 12 + ?n"
    using pending_complete [OF assms(1), of b, folded xs_def] a(3) unfolding lx by simp
  then have "xs ! 0 = PROTOCOL_MAGIC_0" "xs ! 1 = PROTOCOL_MAGIC_1"
    using assms(1) by (auto simp: pending_ok_def xs_def nth_append)
  then have "xs = wire m"
    unfolding a(6) using frame_shape [OF l refl] a(4) by simp
  moreover have "msg_ok m"
    unfolding a(6) msg_ok_def using a(2) by simp
  ultimately show ?thesis
    using a(5) unfolding xs_def by blast
qed

lemma frames_in_append: "frames_in xs ms \<Longrightarrow> frames_in (ys @ xs) ms"
  by (induction ys) (auto intro: frames_in.intros)

lemma parse_step_None:
  assumes "pending_ok acc" "parse_step acc b = (acc', None)"
  shows "\<exists>g. acc @ [b] = g @ acc'"
proof -
  consider "acc' = []" | "acc' = acc @ [b]" | "acc' = [b]"
    using assms(2) by (auto simp: parse_step_def Let_def split: if_splits)
  then show ?thesis by cases auto
qed

lemma parse_run_sound:
  "pending_ok acc \<Longrightarrow> run_machine parse_step acc xs = (acc', ms) \<Longrightarrow> frames_in (acc @ xs) ms"
proof (induction xs arbitrary: acc ms)
  case (Cons b xs)
  obtain acc1 r where step: "parse_step acc b = (acc1, r)" by (cases "parse_step acc b")
  obtain ns where run: "run_machine parse_step acc1 xs = (acc', ns)"
    and ms: "ms = (case r of None \<Rightarrow> ns | Some m \<Rightarrow> m # ns)"
    using Cons.prems(2) step by (auto split: prod.splits)
  have IH: "frames_in (acc1 @ xs) ns"
    using Cons.IH [OF parse_step_pending_ok [OF Cons.prems(1) step] run] .
  show ?case
  proof (cases r)
    case None
    obtain g where "acc @ [b] = g @ acc1"
      using parse_step_None [OF Cons.prems(1)] step None by auto
    then have eq: "acc @ b # xs = g @ acc1 @ xs"
      by (metis append_Cons append_Nil append_assoc)
    show ?thesis
      unfolding eq using frames_in_append [OF IH, of g] None ms by simp
  next
    case (Some m)
    then have "acc @ [b] = wire m" "msg_ok m" "acc1 = []"
      using parse_step_Some [OF Cons.prems(1)] step by auto
    moreover from this have eq: "acc @ b # xs = wire m @ xs"
      by (metis append_Cons append_Nil append_assoc)
    ultimately show ?thesis
      unfolding eq using IH Some ms by (auto intro: frames_frame)
  qed
qed (auto intro: frames_none)

section \<open>The C parser on a stream\<close>

lemma feed_run_refines:
  "parser_inv p \<Longrightarrow> packet_inv q \<Longrightarrow>
   \<exists>ms p' q'. feed_run p q xs = Some (ms, p', q') \<and> parser_inv p' \<and> packet_inv q' \<and>
     run_machine parse_step (pending p) xs = (pending p', ms)"
proof (induction xs arbitrary: p q)
  case (Cons b xs)
  obtain r p1 q1 where f: "protocol_parser_feed p b q = Some (r, p1, q1)" "parser_inv p1" "packet_inv q1"
    "parse_step (pending p) b = (pending p1, if r then Some (pkt_msg q1) else None)"
    using protocol_parser_feed_refines [OF Cons.prems] by blast
  obtain ms p' q' where "feed_run p1 q1 xs = Some (ms, p', q')" "parser_inv p'" "packet_inv q'"
    "run_machine parse_step (pending p1) xs = (pending p', ms)"
    using Cons.IH [OF f(2,3)] by blast
  with f show ?case by auto
qed simp

lemma idle_pending: "parser_inv p \<Longrightarrow> pending p = [] \<longleftrightarrow> parser_length p = 0"
  by (auto simp: parser_inv_def pending_def)

text \<open>A frame in progress is decided, one way or the other, before the buffer is full.\<close>

lemma parse_step_progress:
  assumes "2 \<le> length acc" "parse_step acc b = (acc', r)"
  shows "acc' = [] \<or> (acc' = acc @ [b] \<and> r = None)"
  using assms unfolding parse_step_def Let_def by (auto split: if_splits)

lemma pending_short: "pending_ok acc \<Longrightarrow> length acc < 1036"
  by (cases "8 \<le> length acc") (auto simp: pending_ok_def)

lemma parse_run_decides:
  "pending_ok acc \<Longrightarrow> 2 \<le> length acc \<Longrightarrow> length acc + length xs = 1036 \<Longrightarrow>
   \<exists>k ms. k \<le> length xs \<and> run_machine parse_step acc (take k xs) = ([], ms) \<and> length ms \<le> 1"
proof (induction xs arbitrary: acc)
  case Nil
  then show ?case using pending_short [of acc] by simp
next
  case (Cons b xs)
  obtain acc' r where st: "parse_step acc b = (acc', r)" by fastforce
  show ?case
  proof (cases "acc' = []")
    case True
    then have "run_machine parse_step acc (take 1 (b # xs)) = ([], case r of None \<Rightarrow> [] | Some m \<Rightarrow> [m])"
      using st by simp
    then show ?thesis
      by (intro exI [of _ 1] exI [of _ "case r of None \<Rightarrow> [] | Some m \<Rightarrow> [m]"]) (simp split: option.split)
  next
    case False
    then have "acc' = acc @ [b]" "r = None" using parse_step_progress [OF Cons.prems(2) st] by auto
    moreover obtain k ms where "k \<le> length xs" "run_machine parse_step acc' (take k xs) = ([], ms)" "length ms \<le> 1"
      using Cons.IH [OF parse_step_pending_ok [OF Cons.prems(1) st]] Cons.prems(2,3) calculation by auto
    ultimately show ?thesis using st by (intro exI [of _ "Suc k"] exI [of _ ms]) simp
  qed
qed

section \<open>Properties\<close>

text \<open>C1. Memory safety and soundness of the receive path: for every byte stream, starting from
  any state the parser can be in, \<open>protocol_parser_feed\<close> never reads or writes outside its arrays,
  its invariant holds afterwards, and the packets it delivers are exactly frames of the wire
  format (right magic, length at most 1024, right CRC) that occur disjointly and in order in the
  received bytes.\<close>

theorem parser_safe_and_sound:
  assumes "parser_inv p" "packet_inv q"
  shows "\<exists>ms p' q'. feed_run p q xs = Some (ms, p', q') \<and> parser_inv p' \<and> packet_inv q' \<and>
    frames_in (pending p @ xs) ms"
  using feed_run_refines [OF assms, of xs] parse_run_sound assms(1)
  by (fastforce simp: parser_inv_def)

theorem parser_safe_and_sound_witness:
  "\<exists>ms p' q'. feed_run zero_parser zero_packet [0xAA, 0xAA, 0x55, 1, 1, 0xFF] = Some (ms, p', q') \<and>
    parser_inv p' \<and> packet_inv q' \<and>
    frames_in (pending zero_parser @ [0xAA, 0xAA, 0x55, 1, 1, 0xFF]) ms"
  by (rule parser_safe_and_sound) simp_all

text \<open>C2. Completeness of the receive path: an idle parser that receives any sequence of frames,
  each preceded by arbitrary noise without the magic pair \<open>AA 55\<close> (the noise may contain or end
  with \<open>AA\<close>), delivers exactly the framed messages in order and is idle again.\<close>

theorem parser_delivers_frames:
  assumes "parser_inv p" "packet_inv q" "parser_length p = 0"
    and "\<And>x m. (x, m) \<in> set fs \<Longrightarrow> no_magic x \<and> msg_ok m"
  shows "\<exists>p' q'. feed_run p q (concat (map (\<lambda>(x, m). x @ wire m) fs)) = Some (map snd fs, p', q') \<and>
    parser_length p' = 0"
proof -
  let ?xs = "concat (map (\<lambda>(x, m). x @ wire m) fs)"
  obtain ms p' q' where f: "feed_run p q ?xs = Some (ms, p', q')" "parser_inv p'"
    "run_machine parse_step (pending p) ?xs = (pending p', ms)"
    using feed_run_refines [OF assms(1,2)] by blast
  moreover have "run_machine parse_step [] ?xs = ([], map snd fs)"
    using assms(4) by (rule link_frames.decode_frames)
  ultimately show ?thesis
    using assms(3) idle_pending [OF assms(1)] idle_pending [OF f(2)] by auto
qed

theorem parser_delivers_frames_witness:
  "\<exists>p' q'. feed_run zero_parser zero_packet
      (concat (map (\<lambda>(x, m). x @ wire m) [([0x00, 0xAA], Msg 1 1 7 []), ([], Msg 1 2 8 [5])])) =
      Some (map snd [([0x00, 0xAA] :: bytes, Msg 1 1 7 []), ([], Msg 1 2 8 [5])], p', q') \<and>
    parser_length p' = 0"
  by (rule parser_delivers_frames) (auto simp: msg_ok_def PROTOCOL_MAGIC_0_def)

text \<open>C3. Corruption: if a frame of an acceptable message is received with up to four consecutive
  bytes changed anywhere under the checksum (version, command, sequence or payload; the length
  field reads as sent), the parser delivers nothing and returns to idle.\<close>

theorem parser_rejects_corruption:
  assumes "parser_inv p" "packet_inv q" "parser_length p = 0"
    and m: "msg_ok m" "wire_body m = pre @ xs @ post"
    and c: "length ys = length xs" "length xs \<le> 4" "ys \<noteq> xs"
    and len: "get16 (drop 4 (pre @ ys @ post)) = get16 (drop 4 (pre @ xs @ post))"
  shows "\<exists>p' q'. feed_run p q ([PROTOCOL_MAGIC_0, PROTOCOL_MAGIC_1] @ (pre @ ys @ post) @
      le32 (crc32 (pre @ xs @ post))) = Some ([], p', q') \<and> parser_length p' = 0"
proof -
  let ?w = "raw_frame (pre @ ys @ post) (le32 (crc32 (pre @ xs @ post)))"
  have "body_ok (pre @ ys @ post)"
    using wire_body_ok [OF m(1)] c(1) len unfolding m(2) body_ok_def by simp
  moreover have "crc32 (pre @ ys @ post) \<noteq> crc32 (pre @ xs @ post)"
    using crc32_detects_window [of ys xs] c by simp
  ultimately have run: "run_machine parse_step [] ?w = ([], [])"
    using get32_le32 [of _ "[]"] by (simp add: raw_frame_run)
  obtain ms p' q' where f: "feed_run p q ?w = Some (ms, p', q')" "parser_inv p'"
    "run_machine parse_step (pending p) ?w = (pending p', ms)"
    using feed_run_refines [OF assms(1,2)] by blast
  with run show ?thesis
    using assms(3) idle_pending [OF assms(1)] idle_pending [OF f(2)]
    by (auto simp: raw_frame_def)
qed

theorem parser_rejects_corruption_witness:
  "\<exists>p' q'. feed_run zero_parser zero_packet ([PROTOCOL_MAGIC_0, PROTOCOL_MAGIC_1] @
      ([1] @ [0x03] @ le16 7 @ le16 0) @ le32 (crc32 ([1] @ [0x01] @ le16 7 @ le16 0))) =
      Some ([], p', q') \<and> parser_length p' = 0"
  by (rule parser_rejects_corruption [where m = "Msg 1 1 7 []"])
     (simp_all add: msg_ok_def)

text \<open>C4. Round trip through the link.  \<open>protocol_send_packet\<close> does not check the length it is given: for
  a payload object of at least that many bytes it stays inside \<open>s_tx_buffer\<close> exactly when the length
  is at most 1024.  It then calls the writer exactly once, and the bytes it writes, received by an
  idle parser, are decoded to exactly the command, sequence number and payload that were sent.\<close>

theorem send_receive_roundtrip:
  assumes "protocol_inv s" "unat n \<le> length d" "parser_inv p" "packet_inv q" "parser_length p = 0"
  shows "(protocol_send_packet E c sq (Some d) n s \<noteq> None \<longleftrightarrow> unat n \<le> 1024) \<and>
    (unat n \<le> 1024 \<longrightarrow> (\<exists>s' w p' q'. protocol_send_packet E c sq (Some d) n s = Some s' \<and> protocol_inv s' \<and>
      trace s' = tx_call s w # trace s \<and>
      feed_run p q w = Some ([Msg PROTOCOL_VERSION c sq (take (unat n) d)], p', q') \<and>
      parser_length p' = 0))"
proof (cases "unat n \<le> 1024")
  case True
  let ?m = "Msg PROTOCOL_VERSION c sq (take (unat n) d)"
  have ok: "msg_ok ?m" using True by (simp add: msg_ok_def)
  then have "length (wire ?m) \<le> FRAME_MAX"
    by (simp add: length_wire msg_ok_def)
  moreover have sent: "protocol_send_packet E c sq (Some d) n s = Some (send_frame (wire ?m) s)"
    using assms True by (simp add: protocol_send_packet_eq)
  moreover have "run_machine parse_step [] (wire ?m) = ([], [?m])"
    using ok by (rule wire_decode)
  moreover obtain ms p' q' where f: "feed_run p q (wire ?m) = Some (ms, p', q')" "parser_inv p'"
    "run_machine parse_step (pending p) (wire ?m) = (pending p', ms)"
    using feed_run_refines [OF assms(3,4)] by blast
  moreover have "pending p = []"
    using assms(5) idle_pending [OF assms(3)] by simp
  ultimately have "feed_run p q (wire ?m) = Some ([?m], p', q')" "parser_length p' = 0"
    "protocol_inv (send_frame (wire ?m) s)"
    using idle_pending [OF f(2)] protocol_inv_send_frame [OF assms(1)] by auto
  then show ?thesis using sent True by (metis option.distinct(1) send_frame_simps(1))
qed (simp add: protocol_send_packet_overrun [OF assms(1)])

theorem send_receive_roundtrip_witness:
  "\<exists>(s :: protocol_dev) s' w p' q'. protocol_send_packet sample_idf 0xF0 9 (Some [0]) 1 s = Some s' \<and> protocol_inv s' \<and>
    trace s' = tx_call s w # trace s \<and>
    feed_run zero_parser zero_packet w = Some ([Msg PROTOCOL_VERSION 0xF0 9 [0]], p', q') \<and> parser_length p' = 0"
proof -
  let ?s = "\<lparr>trace = [], s_uart_port = 0, s_write = None, s_write_context = 0, s_tx_buffer = replicate FRAME_MAX 0\<rparr>"
  have inv: "protocol_inv ?s" by (simp add: protocol_inv_def)
  have c: "unat (1 :: u16) \<le> length [0 :: u8]" "parser_length zero_parser = 0" "unat (1 :: u16) \<le> 1024"
    "take (unat (1 :: u16)) [0 :: u8] = [0]" by simp_all
  from mp [OF conjunct2 [OF send_receive_roundtrip [OF inv c(1) zero_inv(1,2) c(2), where E = sample_idf and c = "0xF0" and sq = 9]] c(3)]
  show ?thesis unfolding c(4) by (rule exI [of _ ?s])
qed

text \<open>C38. The parser is never stuck: a frame in progress is decided after at most as many further bytes as
  the buffer has room for, whatever they are; by then at most one packet was delivered and the
  parser is idle.\<close>

theorem parser_never_stuck:
  assumes "parser_inv p" "packet_inv q" "2 \<le> parser_length p" "parser_length p + length xs = 1036"
  shows "\<exists>k ms p' q'. k \<le> length xs \<and> feed_run p q (take k xs) = Some (ms, p', q') \<and>
    length ms \<le> 1 \<and> parser_length p' = 0"
proof -
  have l: "length (pending p) = parser_length p" "pending_ok (pending p)"
    using assms(1) by (simp_all add: parser_inv_def pending_def)
  obtain k ms where k: "k \<le> length xs" "run_machine parse_step (pending p) (take k xs) = ([], ms)" "length ms \<le> 1"
    using parse_run_decides [of "pending p" xs] l assms(3,4) by auto
  obtain ns p' q' where f: "feed_run p q (take k xs) = Some (ns, p', q')" "parser_inv p'"
    "run_machine parse_step (pending p) (take k xs) = (pending p', ns)"
    using feed_run_refines [OF assms(1,2)] by blast
  then show ?thesis using k idle_pending [OF f(2)] by (intro exI [of _ k] exI [of _ ns]) auto
qed

theorem parser_never_stuck_witness:
  "\<exists>p. parser_length p = 2 \<and> (\<exists>k ms p' q'. k \<le> length (replicate 1034 (0 :: u8)) \<and>
    feed_run p zero_packet (take k (replicate 1034 0)) = Some (ms, p', q') \<and> length ms \<le> 1 \<and> parser_length p' = 0)"
proof -
  let ?p = "zero_parser\<lparr>parser_buffer := PROTOCOL_MAGIC_0 # PROTOCOL_MAGIC_1 # replicate 1034 0, parser_length := 2\<rparr>"
  have "parser_inv ?p" by (simp add: parser_inv_def pending_def pending_ok_def)
  from parser_never_stuck [OF this zero_inv(2), of "replicate 1034 0"] show ?thesis
    by (intro exI [of _ ?p]) simp
qed

end
