(* ===== verification/Ota_Manager.thy ===== *)
theory Ota_Manager
  imports Protocol
begin

text \<open>
  \<^verbatim>\<open>ota_manager.c\<close>: the state of an update and the four operations on it.

  The specification is the abstract update \<open>update_of\<close>: no update, or the announced size and
  digest, the image bytes the flash has accepted since the update began, and the length of the
  last chunk.  The accepted bytes are read off the trace of the OTA service (\<open>staged\<close>), so the
  refinement lemmas relate the counters of \<open>ota_state_t\<close> to what was really written.
\<close>

section \<open>State\<close>

abbreviation OTA_SHA256_SIZE :: nat where "OTA_SHA256_SIZE \<equiv> 32"
abbreviation OTA_BEGIN_PAYLOAD_SIZE :: nat where "OTA_BEGIN_PAYLOAD_SIZE \<equiv> 36"
abbreviation OTA_DATA_HEADER_SIZE :: nat where "OTA_DATA_HEADER_SIZE \<equiv> 8"
abbreviation OTA_MAX_CHUNK_DATA_SIZE :: nat where "OTA_MAX_CHUNK_DATA_SIZE \<equiv> 1016"

record ota_state_t =
  ota_active :: bool
  firmware_size :: u32
  bytes_received :: u32
  last_chunk_offset :: u32
  last_chunk_length :: u16
  last_chunk_data :: bytes
  expected_sha256 :: bytes
  ota_handle :: esp_ota_handle_t
  ota_partition :: "esp_partition_t option"

text \<open>\<open>memset(&s_ota, 0, sizeof(s_ota))\<close>\<close>

definition zero_ota :: ota_state_t where
  "zero_ota = \<lparr>ota_active = False, firmware_size = 0, bytes_received = 0, last_chunk_offset = 0,
     last_chunk_length = 0, last_chunk_data = replicate OTA_MAX_CHUNK_DATA_SIZE 0,
     expected_sha256 = replicate OTA_SHA256_SIZE 0, ota_handle = 0, ota_partition = None\<rparr>"

record ota_dev = protocol_dev +
  s_ota :: ota_state_t
  s_actual_sha256 :: bytes

section \<open>Operations\<close>

definition read_u32_le :: "bytes \<Rightarrow> nat \<Rightarrow> u32 option" where
  "read_u32_le data off = do {
     b0 \<leftarrow> load8 data off;
     b1 \<leftarrow> load8 data (off + 1);
     b2 \<leftarrow> load8 data (off + 2);
     b3 \<leftarrow> load8 data (off + 3);
     Some (ucast b0 OR push_bit 8 (ucast b1) OR push_bit 16 (ucast b2) OR push_bit 24 (ucast b3)) }"

definition ota_manager_begin ::
  "esp_idf \<Rightarrow> bytes \<Rightarrow> u16 \<Rightarrow> 'a ota_dev_scheme \<Rightarrow> (protocol_error_t \<times> 'a ota_dev_scheme) option" where
  "ota_manager_begin E payload len s =
    (if ota_active (s_ota s) then Some (ERR_OTA_ALREADY_STARTED, s)
     else if unat len \<noteq> OTA_BEGIN_PAYLOAD_SIZE then Some (ERR_INVALID_LENGTH, s)
     else do {
       size \<leftarrow> read_u32_le payload 0;
       if size = 0 then Some (ERR_OTA_SIZE_ERROR, s)
       else case esp_ota_get_next_update_partition E (trace s) of
         None \<Rightarrow> Some (ERR_OTA_INVALID_IMAGE, s)
       | Some part \<Rightarrow>
           if size > part_size part then Some (ERR_OTA_SIZE_ERROR, s)
           else do {
             let (err, out) = esp_ota_begin E (trace s) part size;
             let handle = (case out of None \<Rightarrow> 0 | Some h \<Rightarrow> h);
             let s = emit (Esp_ota_begin part size err handle) s;
             if err \<noteq> ESP_OK then Some (ERR_OTA_FLASH_ERROR, s)
             else do {
               sha \<leftarrow> load payload 4 OTA_SHA256_SIZE;
               expected \<leftarrow> store (expected_sha256 zero_ota) 0 sha;
               Some (ERR_OK, s\<lparr>s_ota := zero_ota\<lparr>ota_active := True, firmware_size := size,
                 ota_handle := handle, ota_partition := Some part,
                 expected_sha256 := expected\<rparr>\<rparr>) } } })"

definition ota_manager_abort ::
  "esp_idf \<Rightarrow> 'a ota_dev_scheme \<Rightarrow> (protocol_error_t \<times> 'a ota_dev_scheme) option" where
  "ota_manager_abort E s =
    (if \<not> ota_active (s_ota s) then Some (ERR_OTA_NOT_STARTED, s)
     else
       let handle = ota_handle (s_ota s);
           err = esp_ota_abort E (trace s) handle;
           s = (emit (Esp_ota_abort handle err) s)\<lparr>s_ota := zero_ota\<rparr>
       in if err \<noteq> ESP_OK then Some (ERR_OTA_FLASH_ERROR, s) else Some (ERR_OK, s))"

definition ota_manager_write_data ::
  "esp_idf \<Rightarrow> bytes \<Rightarrow> u16 \<Rightarrow> 'a ota_dev_scheme \<Rightarrow> (protocol_error_t \<times> 'a ota_dev_scheme) option" where
  "ota_manager_write_data E payload len s =
    (if \<not> ota_active (s_ota s) then Some (ERR_OTA_NOT_STARTED, s)
     else if unat len \<le> OTA_DATA_HEADER_SIZE then Some (ERR_INVALID_LENGTH, s)
     else do {
       chunk_number \<leftarrow> read_u32_le payload 0;
       offset \<leftarrow> read_u32_le payload 4;
       let data_length = len - 8;
       if unat data_length > OTA_MAX_CHUNK_DATA_SIZE then Some (ERR_INVALID_LENGTH, s)
       else if offset \<noteq> bytes_received (s_ota s) then do {
         dup \<leftarrow> (if offset = last_chunk_offset (s_ota s) \<and>
                    data_length = last_chunk_length (s_ota s) \<and>
                    offset + ucast data_length = bytes_received (s_ota s)
                 then do {
                   d \<leftarrow> load payload OTA_DATA_HEADER_SIZE (unat data_length);
                   l \<leftarrow> load (last_chunk_data (s_ota s)) 0 (unat data_length);
                   Some (d = l) }
                 else Some False);
         if dup then Some (ERR_OK, s) else Some (ERR_OTA_INVALID_OFFSET, s) }
       else if offset + ucast data_length > firmware_size (s_ota s)
         then Some (ERR_OTA_SIZE_ERROR, s)
       else do {
         data \<leftarrow> load payload OTA_DATA_HEADER_SIZE (unat data_length);
         let handle = ota_handle (s_ota s);
         let err = esp_ota_write E (trace s) handle data;
         let s = emit (Esp_ota_write handle data err) s;
         if err \<noteq> ESP_OK then Some (ERR_OTA_FLASH_ERROR, s)
         else do {
           last \<leftarrow> store (last_chunk_data (s_ota s)) 0 data;
           Some (ERR_OK, s\<lparr>s_ota := (s_ota s)\<lparr>last_chunk_offset := offset,
             last_chunk_length := data_length, last_chunk_data := last,
             bytes_received := bytes_received (s_ota s) + ucast data_length\<rparr>\<rparr>) } } })"

definition ota_manager_end ::
  "esp_idf \<Rightarrow> 'a ota_dev_scheme \<Rightarrow> (protocol_error_t \<times> 'a ota_dev_scheme) option" where
  "ota_manager_end E s =
    (if \<not> ota_active (s_ota s) then Some (ERR_OTA_NOT_STARTED, s)
     else if bytes_received (s_ota s) \<noteq> firmware_size (s_ota s) then Some (ERR_OTA_SIZE_ERROR, s)
     else do {
       let handle = ota_handle (s_ota s);
       let err = esp_ota_end E (trace s) handle;
       let s = emit (Esp_ota_end handle err) s;
       if err \<noteq> ESP_OK then Some (ERR_OTA_INVALID_IMAGE, s\<lparr>s_ota := zero_ota\<rparr>)
       else do {
         part \<leftarrow> ota_partition (s_ota s);
         let (err, digest) = esp_partition_get_sha256 E (trace s) part;
         actual \<leftarrow> store (s_actual_sha256 s) 0 (map digest [0..<OTA_SHA256_SIZE]);
         let s = s\<lparr>s_actual_sha256 := actual\<rparr>;
         if err \<noteq> ESP_OK then Some (ERR_OTA_HASH_MISMATCH, s\<lparr>s_ota := zero_ota\<rparr>)
         else do {
           a \<leftarrow> load (s_actual_sha256 s) 0 OTA_SHA256_SIZE;
           e \<leftarrow> load (expected_sha256 (s_ota s)) 0 OTA_SHA256_SIZE;
           if a \<noteq> e then Some (ERR_OTA_HASH_MISMATCH, s\<lparr>s_ota := zero_ota\<rparr>)
           else
             let err = esp_ota_set_boot_partition E (trace s) part;
                 s = (emit (Esp_ota_set_boot_partition part err) s)\<lparr>s_ota := zero_ota\<rparr>
             in if err \<noteq> ESP_OK then Some (ERR_OTA_INVALID_IMAGE, s) else Some (ERR_OK, s) } } })"

definition ota_manager_is_active :: "'a ota_dev_scheme \<Rightarrow> bool" where
  "ota_manager_is_active s = ota_active (s_ota s)"

section \<open>Specification\<close>

text \<open>The image bytes accepted by the flash since the last successful \<open>esp_ota_begin\<close>.\<close>

fun staged :: "call list \<Rightarrow> bytes" where
  "staged [] = []"
| "staged (c # cs) =
     (case c of
        Esp_ota_begin _ _ ESP_OK _ \<Rightarrow> []
      | Esp_ota_write _ d ESP_OK \<Rightarrow> staged cs @ d
      | _ \<Rightarrow> staged cs)"

text \<open>The OTA handle that is open after a list of calls, and whether every call so far used the
  service correctly: begin only with no handle open; write, end and abort only on the open
  handle.  \<open>esp_ota_end\<close> and \<open>esp_ota_abort\<close> release the handle whatever they return.\<close>

fun open_handle :: "call list \<Rightarrow> esp_ota_handle_t option" where
  "open_handle [] = None"
| "open_handle (c # cs) =
     (case c of
        Esp_ota_begin _ _ ESP_OK h \<Rightarrow> Some h
      | Esp_ota_end _ _ \<Rightarrow> None
      | Esp_ota_abort _ _ \<Rightarrow> None
      | _ \<Rightarrow> open_handle cs)"

fun handles_ok :: "call list \<Rightarrow> bool" where
  "handles_ok [] \<longleftrightarrow> True"
| "handles_ok (c # cs) \<longleftrightarrow> handles_ok cs \<and>
     (case c of
        Esp_ota_begin _ _ _ _ \<Rightarrow> open_handle cs = None
      | Esp_ota_write h _ _ \<Rightarrow> open_handle cs = Some h
      | Esp_ota_end h _ \<Rightarrow> open_handle cs = Some h
      | Esp_ota_abort h _ \<Rightarrow> open_handle cs = Some h
      | _ \<Rightarrow> True)"

text \<open>The chunk bytes of an \<open>OTA_DATA\<close> payload.\<close>

definition chunk_of :: "bytes \<Rightarrow> u16 \<Rightarrow> bytes" where
  "chunk_of payload len = take (unat len - 8) (drop 8 payload)"

datatype update = NoUpdate
  | Update (upd_size: nat) (upd_digest: bytes) (upd_image: bytes) (upd_last: nat)

definition update_of :: "'a ota_dev_scheme \<Rightarrow> update" where
  "update_of s = (if ota_active (s_ota s)
     then Update (unat (firmware_size (s_ota s))) (expected_sha256 (s_ota s)) (staged (trace s))
            (unat (last_chunk_length (s_ota s)))
     else NoUpdate)"

text \<open>What a chunk does to an update: append at the end, acknowledge a repetition of the last
  chunk, reject anything else.\<close>

fun update_write :: "bool \<Rightarrow> nat \<Rightarrow> bytes \<Rightarrow> update \<Rightarrow> protocol_error_t \<times> update" where
  "update_write flash_ok off d NoUpdate = (ERR_OTA_NOT_STARTED, NoUpdate)"
| "update_write flash_ok off d (Update sz dg img l) =
    (if off = length img then
       if off + length d > sz then (ERR_OTA_SIZE_ERROR, Update sz dg img l)
       else if flash_ok then (ERR_OK, Update sz dg (img @ d) (length d))
       else (ERR_OTA_FLASH_ERROR, Update sz dg img l)
     else if off + length d = length img \<and> length d = l \<and> d = drop off img
       then (ERR_OK, Update sz dg img l)
     else (ERR_OTA_INVALID_OFFSET, Update sz dg img l))"

text \<open>One operation of the component as an input of a machine; \<open>op_ok\<close> says that a payload
  pointer refers to at least \<open>length\<close> bytes.\<close>

datatype ota_op = Op_begin bytes u16 | Op_data bytes u16 | Op_end | Op_abort

fun op_ok :: "ota_op \<Rightarrow> bool" where
  "op_ok (Op_begin p n) \<longleftrightarrow> unat n \<le> length p"
| "op_ok (Op_data p n) \<longleftrightarrow> unat n \<le> length p"
| "op_ok _ \<longleftrightarrow> True"

fun ota_exec :: "esp_idf \<Rightarrow> ota_op \<Rightarrow> 'a ota_dev_scheme \<Rightarrow> (protocol_error_t \<times> 'a ota_dev_scheme) option"
  where
  "ota_exec E (Op_begin p n) s = ota_manager_begin E p n s"
| "ota_exec E (Op_data p n) s = ota_manager_write_data E p n s"
| "ota_exec E Op_end s = ota_manager_end E s"
| "ota_exec E Op_abort s = ota_manager_abort E s"

text \<open>The digest check of \<open>ota_manager_end\<close>: the service could hash the partition and the digest is
  the announced one.\<close>

definition digest_matches :: "esp_idf \<Rightarrow> call list \<Rightarrow> esp_partition_t \<Rightarrow> bytes \<Rightarrow> bool" where
  "digest_matches E cs part expected \<longleftrightarrow>
     fst (esp_partition_get_sha256 E cs part) = ESP_OK \<and>
     map (snd (esp_partition_get_sha256 E cs part)) [0..<OTA_SHA256_SIZE] = expected"

section \<open>Invariant\<close>

text \<open>Shape of the state: array sizes, a partition while active, zero while idle.\<close>

definition ota_inv :: "'a ota_dev_scheme \<Rightarrow> bool" where
  "ota_inv s \<longleftrightarrow> length (last_chunk_data (s_ota s)) = OTA_MAX_CHUNK_DATA_SIZE \<and>
     length (expected_sha256 (s_ota s)) = OTA_SHA256_SIZE \<and>
     length (s_actual_sha256 s) = OTA_SHA256_SIZE \<and>
     unat (last_chunk_length (s_ota s)) \<le> OTA_MAX_CHUNK_DATA_SIZE \<and>
     bytes_received (s_ota s) \<le> firmware_size (s_ota s) \<and>
     (if ota_active (s_ota s)
      then \<exists>part. ota_partition (s_ota s) = Some part \<and> 0 < firmware_size (s_ota s) \<and>
             firmware_size (s_ota s) \<le> part_size part
      else s_ota s = zero_ota) \<and>
     handles_ok (trace s) \<and>
     open_handle (trace s) = (if ota_active (s_ota s) then Some (ota_handle (s_ota s)) else None)"

text \<open>Agreement of the counters with the bytes accepted by the flash.\<close>

definition ota_image_inv :: "'a ota_dev_scheme \<Rightarrow> bool" where
  "ota_image_inv s \<longleftrightarrow> (ota_active (s_ota s) \<longrightarrow>
     unat (firmware_size (s_ota s)) + OTA_MAX_CHUNK_DATA_SIZE < 2 ^ 32 \<and>
     unat (bytes_received (s_ota s)) = length (staged (trace s)) \<and>
     unat (last_chunk_offset (s_ota s)) + unat (last_chunk_length (s_ota s)) =
       length (staged (trace s)) \<and>
     take (unat (last_chunk_length (s_ota s))) (last_chunk_data (s_ota s)) =
       drop (unat (last_chunk_offset (s_ota s))) (staged (trace s)))"

text \<open>What the component relies on: an update partition is smaller than the 32-bit address space
  by at least one chunk (ESP32 flash chips are at most 1 GiB).\<close>

definition partitions_fit :: "esp_idf \<Rightarrow> bool" where
  "partitions_fit E \<longleftrightarrow>
     (\<forall>cs part. esp_ota_get_next_update_partition E cs = Some part \<longrightarrow>
        unat (part_size part) + OTA_MAX_CHUNK_DATA_SIZE < 2 ^ 32)"

text \<open>Concrete states for evaluation: idle, and an update of four bytes just begun.\<close>

definition sample_idle :: ota_dev where
  "sample_idle = \<lparr>trace = [], s_uart_port = 0, s_write = None, s_write_context = 0,
     s_tx_buffer = replicate FRAME_MAX 0, s_ota = zero_ota,
     s_actual_sha256 = replicate OTA_SHA256_SIZE 0\<rparr>"

definition sample_begun :: ota_dev where
  "sample_begun = sample_idle\<lparr>trace := [Esp_ota_begin sample_partition 4 ESP_OK 7],
     s_ota := zero_ota\<lparr>ota_active := True, firmware_size := 4, ota_handle := 7,
       ota_partition := Some sample_partition, expected_sha256 := map of_nat [0..<32]\<rparr>\<rparr>"

text \<open>The same update with all four bytes received.\<close>

definition sample_done :: ota_dev where
  "sample_done = sample_begun\<lparr>
     trace := [Esp_ota_write 7 [1, 2, 3, 4] ESP_OK, Esp_ota_begin sample_partition 4 ESP_OK 7],
     s_ota := (s_ota sample_begun)\<lparr>bytes_received := 4, last_chunk_length := 4,
       last_chunk_data := [1, 2, 3, 4] @ replicate 1012 0\<rparr>\<rparr>"

section \<open>The operations without array accesses\<close>

lemma read_u32_le_Some [mem_simps]:
  "off + 4 \<le> length buf \<Longrightarrow> read_u32_le buf off = Some (get32 (drop off buf))"
  by (simp add: read_u32_le_def load8_def get32_def)

lemma zero_ota_simps [simp]:
  "ota_active zero_ota = False" "length (last_chunk_data zero_ota) = 1016"
  "length (expected_sha256 zero_ota) = 32" "last_chunk_length zero_ota = 0"
  "firmware_size zero_ota = 0" "bytes_received zero_ota = 0" "last_chunk_offset zero_ota = 0"
  by (simp_all add: zero_ota_def)

lemma unat_len_minus_8: "8 < unat (len :: u16) \<Longrightarrow> unat (len - 8) = unat len - 8"
  by (simp add: unat_sub word_le_nat_alt)

lemma ota_manager_begin_eq:
  assumes "unat len \<le> length payload"
  shows "ota_manager_begin E payload len s =
    (if ota_active (s_ota s) then Some (ERR_OTA_ALREADY_STARTED, s)
     else if unat len \<noteq> 36 then Some (ERR_INVALID_LENGTH, s)
     else
       let size = get32 payload in
       if size = 0 then Some (ERR_OTA_SIZE_ERROR, s)
       else case esp_ota_get_next_update_partition E (trace s) of
         None \<Rightarrow> Some (ERR_OTA_INVALID_IMAGE, s)
       | Some part \<Rightarrow>
           if size > part_size part then Some (ERR_OTA_SIZE_ERROR, s)
           else
             let (err, out) = esp_ota_begin E (trace s) part size;
                 handle = (case out of None \<Rightarrow> 0 | Some h \<Rightarrow> h);
                 s = emit (Esp_ota_begin part size err handle) s
             in if err \<noteq> ESP_OK then Some (ERR_OTA_FLASH_ERROR, s)
                else Some (ERR_OK, s\<lparr>s_ota := zero_ota\<lparr>ota_active := True, firmware_size := size,
                 ota_handle := handle, ota_partition := Some part,
                 expected_sha256 := take 32 (drop 4 payload)\<rparr>\<rparr>))"
proof (cases "unat len = 36")
  case True
  then have "36 \<le> length payload" using assms by simp
  then show ?thesis
    by (auto simp: ota_manager_begin_def read_u32_le_Some load_Some store_Some blit_def Let_def
        split: option.splits prod.splits)
qed (simp add: ota_manager_begin_def)

lemma ota_manager_write_data_eq:
  assumes "unat len \<le> length payload" "length (last_chunk_data (s_ota s)) = 1016"
  shows "ota_manager_write_data E payload len s =
    (let off = get32 (drop 4 payload); n = len - 8; d = chunk_of payload len in
     if \<not> ota_active (s_ota s) then Some (ERR_OTA_NOT_STARTED, s)
     else if unat len \<le> 8 then Some (ERR_INVALID_LENGTH, s)
     else if unat n > 1016 then Some (ERR_INVALID_LENGTH, s)
     else if off \<noteq> bytes_received (s_ota s) then
       if off = last_chunk_offset (s_ota s) \<and> n = last_chunk_length (s_ota s) \<and>
          off + ucast n = bytes_received (s_ota s) \<and> d = take (unat n) (last_chunk_data (s_ota s))
       then Some (ERR_OK, s) else Some (ERR_OTA_INVALID_OFFSET, s)
     else if off + ucast n > firmware_size (s_ota s) then Some (ERR_OTA_SIZE_ERROR, s)
     else
       let handle = ota_handle (s_ota s);
           err = esp_ota_write E (trace s) handle d;
           s = emit (Esp_ota_write handle d err) s
       in if err \<noteq> ESP_OK then Some (ERR_OTA_FLASH_ERROR, s)
          else Some (ERR_OK, s\<lparr>s_ota := (s_ota s)\<lparr>last_chunk_offset := off,
             last_chunk_length := n, last_chunk_data := blit (last_chunk_data (s_ota s)) 0 d,
             bytes_received := bytes_received (s_ota s) + ucast n\<rparr>\<rparr>))"
proof (cases "8 < unat len")
  case True
  define n where "n = len - 8"
  have d: "load payload 8 (unat n) = Some (chunk_of payload len)"
    and ld: "length (chunk_of payload len) = unat n"
    using True assms(1) by (simp_all add: load_Some unat_len_minus_8 chunk_of_def n_def)
  show ?thesis
    using True assms unfolding ota_manager_write_data_def n_def [symmetric]
    by (simp add: read_u32_le_Some d load_Some store_Some ld Let_def emit_def not_less
        cong: if_cong conj_cong split del: if_split)
       (use d in \<open>auto simp: load_Some\<close>)
qed (simp add: ota_manager_write_data_def Let_def)

section \<open>Safety of the operations\<close>

lemma ota_manager_begin_safe:
  assumes "ota_inv s" "unat len \<le> length payload"
  shows "ensures (ota_manager_begin E payload len s) (\<lambda>r s'. ota_inv s')"
  using assms
  by (auto simp: ota_manager_begin_eq ota_inv_def Let_def emit_def word_gt_0 not_less
      split: option.splits prod.splits esp_err_t.splits)

lemma ota_manager_abort_safe:
  "ota_inv s \<Longrightarrow> ensures (ota_manager_abort E s) (\<lambda>r s'. ota_inv s')"
  by (simp add: ota_manager_abort_def ota_inv_def Let_def emit_def)

lemma ota_manager_write_data_safe:
  assumes "ota_inv s" "unat len \<le> length payload"
  shows "ensures (ota_manager_write_data E payload len s) (\<lambda>r s'. ota_inv s')"
proof -
  have l: "length (last_chunk_data (s_ota s)) = 1016" using assms by (simp add: ota_inv_def)
  have c: "length (chunk_of payload len) = unat (len - 8)" if "8 < unat len"
    using that assms(2) by (simp add: chunk_of_def unat_len_minus_8)
  show ?thesis
    using assms(1) c
    by (auto simp: ota_manager_write_data_eq [OF assms(2) l] ota_inv_def Let_def emit_def not_less
        split: esp_err_t.splits)
qed

lemma ota_manager_end_safe:
  "ota_inv s \<Longrightarrow> ensures (ota_manager_end E s) (\<lambda>r s'. ota_inv s')"
  by (auto simp: ota_manager_end_def ota_inv_def Let_def emit_def store_Some load_Some
      split: prod.splits)

section \<open>Refinement of the abstract update\<close>

lemma unat_ucast_u16_u32 [simp]: "unat (ucast (n :: u16) :: u32) = unat n"
proof -
  have "unat n < 2 ^ 16" using unsigned_less [of n, where ?'a = nat] by simp
  then have "take_bit 32 (unat n) = unat n" by (simp add: take_bit_nat_eq_self_iff)
  then show ?thesis by (simp add: unsigned_ucast_eq)
qed

lemma unat_add_u32: "unat (a :: u32) + unat b < 2 ^ 32 \<Longrightarrow> unat (a + b) = unat a + unat b"
  by (simp add: unat_word_ariths)

lemma length_chunk_of: "unat len \<le> length payload \<Longrightarrow> length (chunk_of payload len) = unat len - 8"
  by (simp add: chunk_of_def)

text \<open>The test for a repeated chunk compares the chunk with the end of the image.\<close>

lemma duplicate_test:
  assumes "ota_active (s_ota s)" "ota_image_inv s" "length d = unat n"
  shows "(off = last_chunk_offset (s_ota s) \<and> n = last_chunk_length (s_ota s) \<and>
      off + ucast n = bytes_received (s_ota s) \<and> d = take (unat n) (last_chunk_data (s_ota s))) \<longleftrightarrow>
    (unat off + length d = length (staged (trace s)) \<and>
      length d = unat (last_chunk_length (s_ota s)) \<and> d = drop (unat off) (staged (trace s)))"
    (is "?L \<longleftrightarrow> ?R")
proof -
  let ?o = "s_ota s" and ?img = "staged (trace s)"
  have i: "unat (bytes_received ?o) = length ?img"
    "unat (last_chunk_offset ?o) + unat (last_chunk_length ?o) = length ?img"
    "take (unat (last_chunk_length ?o)) (last_chunk_data ?o) = drop (unat (last_chunk_offset ?o)) ?img"
    using assms(1,2) by (simp_all add: ota_image_inv_def)
  have lt: "length ?img < 2 ^ 32" using i(1) unsigned_less [of "bytes_received ?o", where ?'a = nat] by simp
  show ?thesis
  proof
    assume ?L then show ?R using i assms(3) by auto
  next
    assume r: ?R
    then have n: "n = last_chunk_length ?o" using assms(3) by (simp add: word_unat_eq_iff)
    then have off: "off = last_chunk_offset ?o" using r i(2) by (simp add: word_unat_eq_iff)
    have "unat (off + ucast n) = unat (bytes_received ?o)"
      using i(1,2) lt by (simp add: n off unat_add_u32)
    then have "off + ucast n = bytes_received ?o" by (simp add: word_unat_eq_iff)
    with r n off i(3) show ?L by simp
  qed
qed

lemma ota_manager_write_data_refines:
  assumes inv: "ota_inv s" "ota_image_inv s" and len: "unat len \<le> length payload" "8 < unat len"
    "unat len \<le> 1024"
  shows "ensures (ota_manager_write_data E payload len s)
    (\<lambda>r s'. (r, update_of s') = update_write
         (esp_ota_write E (trace s) (ota_handle (s_ota s)) (chunk_of payload len) = ESP_OK)
         (unat (get32 (drop 4 payload))) (chunk_of payload len) (update_of s) \<and> ota_image_inv s')"
proof (cases "ota_active (s_ota s)")
  case True
  define n d off where "n = len - 8" and "d = chunk_of payload len" and "off = get32 (drop 4 payload)"
  let ?o = "s_ota s" and ?img = "staged (trace s)"
  have n: "unat n = length d" "unat n \<le> 1016"
    using len by (simp_all add: n_def d_def length_chunk_of unat_len_minus_8)
  have i: "unat (firmware_size ?o) + 1016 < 2 ^ 32" "unat (bytes_received ?o) = length ?img"
    using True inv(2) by (simp_all add: ota_image_inv_def)
  have l: "length (last_chunk_data ?o) = 1016" and le: "length ?img \<le> unat (firmware_size ?o)"
    using inv(1) i by (simp_all add: ota_inv_def word_le_nat_alt)
  have off: "off = bytes_received ?o \<longleftrightarrow> unat off = length ?img"
    using i by (auto simp: word_unat_eq_iff)
  have add: "unat (bytes_received ?o + ucast n) = length ?img + length d"
    using i le n by (simp add: unat_add_u32)
  have nd: "take (length d) (blit (last_chunk_data ?o) 0 d) = d"
    by (simp add: blit_def)
  note dup = duplicate_test [OF True inv(2) n(1) [symmetric], of off]
  note eq = ota_manager_write_data_eq [OF len(1) l, of E, unfolded Let_def n_def [symmetric]
      d_def [symmetric] off_def [symmetric] dup off]
  have g: "bytes_received ?o + ucast n > firmware_size ?o \<longleftrightarrow>
      length ?img + length d > unat (firmware_size ?o)"
    using add by (simp add: word_less_nat_alt)
  show ?thesis
  proof (cases "unat off = length ?img")
    case at_end: True
    then have "off = bytes_received ?o" using off by simp
    note eq' = eq [unfolded this g]
    show ?thesis
    proof (cases "length ?img + length d > unat (firmware_size ?o) \<or>
        esp_ota_write E (trace s) (ota_handle ?o) d \<noteq> ESP_OK")
      case rejected: True
      then show ?thesis
        using True at_end inv(2) len(2) n i(2)
        by (auto simp: eq' update_of_def ota_image_inv_def emit_def d_def [symmetric]
            off_def [symmetric] split: esp_err_t.splits)
    next
      case written: False
      then show ?thesis
        using True at_end inv(2) len(2) n i(2) add nd
        by (simp add: eq' update_of_def ota_image_inv_def emit_def d_def [symmetric]
            off_def [symmetric])
    qed
  next
    case False
    then show ?thesis
      using True inv(2) len(2) n
      by (auto simp: eq update_of_def d_def [symmetric] off_def [symmetric])
  qed
next
  case False
  then have "length (last_chunk_data (s_ota s)) = 1016" using inv(1) by (simp add: ota_inv_def)
  with False inv show ?thesis
    by (simp add: ota_manager_write_data_eq [OF len(1)] update_of_def)
qed

lemma ota_manager_begin_image:
  assumes "ota_inv s" "ota_image_inv s" "partitions_fit E" "unat len \<le> length payload"
  shows "ensures (ota_manager_begin E payload len s) (\<lambda>r s'. ota_image_inv s' \<and>
    update_of s' = (if r = ERR_OK
      then Update (unat (get32 payload)) (take 32 (drop 4 payload)) [] 0 else update_of s))"
  using assms
  by (auto simp: ota_manager_begin_eq ota_image_inv_def partitions_fit_def update_of_def Let_def
      emit_def not_less word_le_nat_alt intro: le_less_trans
      split: option.splits prod.splits esp_err_t.splits)

lemma ota_manager_end_image:
  "ota_inv s \<Longrightarrow> ota_image_inv s \<Longrightarrow> ensures (ota_manager_end E s) (\<lambda>r s'. ota_image_inv s')"
  by (auto simp: ota_manager_end_def ota_inv_def ota_image_inv_def Let_def emit_def store_Some
      load_Some split: prod.splits)

lemma ota_manager_abort_image:
  "ota_inv s \<Longrightarrow> ota_image_inv s \<Longrightarrow> ensures (ota_manager_abort E s) (\<lambda>r s'. ota_image_inv s')"
  by (auto simp: ota_manager_abort_def ota_image_inv_def Let_def emit_def)

lemma ota_manager_write_data_short:
  assumes "ota_inv s" "unat len \<le> length payload" "unat len \<le> 8 \<or> 1024 < unat len"
  shows "ota_manager_write_data E payload len s =
    Some (if ota_active (s_ota s) then ERR_INVALID_LENGTH else ERR_OTA_NOT_STARTED, s)"
proof -
  have "length (last_chunk_data (s_ota s)) = 1016" using assms(1) by (simp add: ota_inv_def)
  with assms show ?thesis
    by (auto simp: ota_manager_write_data_eq Let_def unat_len_minus_8)
qed

lemma ota_manager_write_data_image:
  assumes "ota_inv s" "ota_image_inv s" "unat len \<le> length payload"
  shows "ensures (ota_manager_write_data E payload len s) (\<lambda>r s'. ota_image_inv s')"
proof (cases "8 < unat len \<and> unat len \<le> 1024")
  case True
  then show ?thesis
    using ota_manager_write_data_refines [OF assms] by (auto intro: ensures_mono)
next
  case False
  then show ?thesis
    using assms ota_manager_write_data_short [OF assms(1,3), of E] by auto
qed

lemma ota_exec_safe: "ota_inv s \<Longrightarrow> op_ok op \<Longrightarrow> ensures (ota_exec E op s) (\<lambda>r s'. ota_inv s')"
  by (cases op) (simp_all add: ota_manager_begin_safe ota_manager_write_data_safe
      ota_manager_end_safe ota_manager_abort_safe)

lemma ota_exec_image:
  "ota_inv s \<and> ota_image_inv s \<Longrightarrow> op_ok op \<and> partitions_fit E \<Longrightarrow>
   ensures (ota_exec E op s) (\<lambda>r s'. ota_inv s' \<and> ota_image_inv s')"
  by (cases op; intro ensures_conj ota_exec_safe) (simp_all add: ota_manager_begin_image [THEN ensures_mono]
      ota_manager_write_data_image ota_manager_end_image ota_manager_abort_image)

lemma ota_manager_end_log:
  "ota_manager_end E s = Some (r, s') \<Longrightarrow> extends (trace s') (trace s)"
  unfolding ota_manager_end_def Let_def emit_def
  by (auto split: if_splits Option.bind_splits prod.splits)

lemma ota_exec_log: "ota_exec E op s = Some (r, s') \<Longrightarrow> extends (trace s') (trace s)"
  by (cases op) (auto simp: ota_manager_begin_def ota_manager_write_data_def ota_manager_end_log
      ota_manager_abort_def Let_def emit_def bind_eq_Some split: if_splits option.splits prod.splits)

text \<open>The operations, on any platform, form a machine that never faults and logs its calls.\<close>

interpretation ota_engine: logging_machine "ota_exec E" ota_inv op_ok trace
  for E :: esp_idf
  by unfold_locales (auto intro: ota_exec_safe ota_exec_log)

interpretation ota_image: safe_machine "ota_exec E" "\<lambda>s. ota_inv s \<and> ota_image_inv s"
  "\<lambda>op. op_ok op \<and> partitions_fit E"
  for E :: esp_idf
  by unfold_locales (rule ota_exec_image)

lemma blit_same_length: "length xs = length ys \<Longrightarrow> blit xs 0 ys = ys"
  by (simp add: blit_def)

lemma ota_manager_end_eq:
  assumes "ota_inv s" "ota_active (s_ota s)" "ota_partition (s_ota s) = Some part"
    "bytes_received (s_ota s) = firmware_size (s_ota s)"
  shows "ota_manager_end E s =
    (let h = ota_handle (s_ota s); err = esp_ota_end E (trace s) h;
         t = Esp_ota_end h err # trace s;
         dig = map (snd (esp_partition_get_sha256 E t part)) [0..<32] in
     if err \<noteq> ESP_OK then Some (ERR_OTA_INVALID_IMAGE, s\<lparr>trace := t, s_ota := zero_ota\<rparr>)
     else if \<not> digest_matches E t part (expected_sha256 (s_ota s))
       then Some (ERR_OTA_HASH_MISMATCH, s\<lparr>trace := t, s_actual_sha256 := dig, s_ota := zero_ota\<rparr>)
     else let err = esp_ota_set_boot_partition E t part in
       Some (if err = ESP_OK then ERR_OK else ERR_OTA_INVALID_IMAGE,
         s\<lparr>trace := Esp_ota_set_boot_partition part err # t, s_actual_sha256 := dig,
           s_ota := zero_ota\<rparr>))"
  using assms
  by (auto simp: ota_manager_end_def ota_inv_def Let_def emit_def store_Some load_Some
      digest_matches_def blit_same_length split: prod.splits)

lemma ota_write_repeated:
  assumes inv: "ota_inv s" "ota_image_inv s" and len: "unat len \<le> length payload" "8 < unat len"
      "unat len \<le> 1024"
    and act: "ota_active (s_ota s)"
    and dup: "unat (get32 (drop 4 payload)) + length (chunk_of payload len) = length (staged (trace s))"
      "length (chunk_of payload len) = unat (last_chunk_length (s_ota s))"
      "chunk_of payload len = drop (unat (get32 (drop 4 payload))) (staged (trace s))"
  shows "ota_manager_write_data E payload len s = Some (ERR_OK, s)"
proof -
  have l: "length (last_chunk_data (s_ota s)) = 1016" using inv by (simp add: ota_inv_def)
  have c: "length (chunk_of payload len) = unat (len - 8)" "unat (len - 8) \<le> 1016" "0 < unat (len - 8)"
    using len by (simp_all add: length_chunk_of unat_len_minus_8)
  have "get32 (drop 4 payload) \<noteq> bytes_received (s_ota s)"
    using inv(2) act dup(1) c by (auto simp: ota_image_inv_def)
  moreover have "get32 (drop 4 payload) = last_chunk_offset (s_ota s) \<and>
      len - 8 = last_chunk_length (s_ota s) \<and>
      get32 (drop 4 payload) + ucast (len - 8) = bytes_received (s_ota s) \<and>
      chunk_of payload len = take (unat (len - 8)) (last_chunk_data (s_ota s))"
    using duplicate_test [OF act inv(2) c(1)] dup by blast
  ultimately show ?thesis
    using act len(2) c(2) unfolding ota_manager_write_data_eq [OF len(1) l] Let_def by auto
qed

lemma update_write_OK:
  "update_write ok off d u = (ERR_OK, u') \<Longrightarrow> \<exists>sz dg img. u' = Update sz dg img (length d) \<and>
     off + length d = length img \<and> d = drop off img"
  by (cases u) (auto split: if_splits)

lemma ota_write_refines:
  assumes "ota_inv s" "ota_image_inv s" "8 < unat len" "unat len \<le> 1024" "unat len \<le> length payload"
  shows "ensures (ota_manager_write_data E payload len s)
    (\<lambda>r s'. (r, update_of s') = update_write
         (esp_ota_write E (trace s) (ota_handle (s_ota s)) (chunk_of payload len) = ESP_OK)
         (unat (get32 (drop 4 payload))) (chunk_of payload len) (update_of s) \<and>
       ota_inv s' \<and> ota_image_inv s')"
  using ensures_conj [OF ota_manager_write_data_refines [OF assms(1,2,5,3,4)]
      ota_manager_write_data_safe [OF assms(1,5)]]
  by (rule ensures_mono) auto

lemma sample_inv [simp]:
  "ota_inv sample_idle" "ota_image_inv sample_idle" "ota_inv sample_begun" "ota_image_inv sample_begun"
  "ota_inv sample_done" "ota_image_inv sample_done"
  by (simp_all add: sample_idle_def sample_begun_def sample_done_def ota_inv_def ota_image_inv_def
      sample_partition_def)

section \<open>Properties\<close>

text \<open>C5. Any sequence of begin, data, end and abort operations, whatever the flash services answer,
  never leaves an array, uses the OTA service correctly (begin only when no handle is open; write,
  end and abort only on the open handle, never after it was released) and never counts more bytes
  than were announced; a handle is open exactly while an update is active.\<close>

theorem ota_sequences_safe:
  assumes "ota_inv s" and "\<And>op. op \<in> set ops \<Longrightarrow> op_ok op"
  shows "ensures (run_ops (ota_exec E) s ops) (\<lambda>rs s'. ota_inv s' \<and> handles_ok (trace s') \<and>
    (open_handle (trace s') \<noteq> None \<longleftrightarrow> ota_manager_is_active s') \<and>
    bytes_received (s_ota s') \<le> firmware_size (s_ota s') \<and> length rs = length ops)"
  by (rule ensures_mono [OF ota_engine.run_safe [OF assms]])
     (auto simp: ota_inv_def ota_manager_is_active_def)

theorem ota_sequences_safe_witness:
  "ensures (run_ops (ota_exec sample_idf) sample_idle [Op_abort, Op_begin (replicate 36 1) 36, Op_end])
    (\<lambda>rs s'. ota_inv s' \<and> handles_ok (trace s') \<and>
      (open_handle (trace s') \<noteq> None \<longleftrightarrow> ota_manager_is_active s') \<and>
      bytes_received (s_ota s') \<le> firmware_size (s_ota s') \<and>
      length rs = length [Op_abort, Op_begin (replicate 36 1) 36, Op_end])"
  by (rule ota_sequences_safe) auto

text \<open>C6. Refinement of \<open>ota_manager_write_data\<close>: on a payload with a chunk of 1 to 1016 bytes it
  returns the error and makes the change of the abstract update, where the image is what the
  flash accepted: a chunk at the end of the image is appended, a repetition of the last chunk is
  acknowledged without writing, anything else is rejected unchanged.\<close>

theorem ota_write_refines_update:
  assumes "ota_inv s" "ota_image_inv s" "8 < unat len" "unat len \<le> 1024" "unat len \<le> length payload"
  shows "ensures (ota_manager_write_data E payload len s)
    (\<lambda>r s'. (r, update_of s') = update_write
         (esp_ota_write E (trace s) (ota_handle (s_ota s)) (chunk_of payload len) = ESP_OK)
         (unat (get32 (drop 4 payload))) (chunk_of payload len) (update_of s) \<and>
       ota_inv s' \<and> ota_image_inv s')"
  using assms by (rule ota_write_refines)

theorem ota_write_refines_update_witness:
  "ensures (ota_manager_write_data sample_idf [0, 0, 0, 0, 0, 0, 0, 0, 1, 2] 10 sample_begun)
    (\<lambda>r s'. (r, update_of s') = update_write
         (esp_ota_write sample_idf (trace sample_begun) (ota_handle (s_ota sample_begun))
           (chunk_of [0, 0, 0, 0, 0, 0, 0, 0, 1, 2] 10) = ESP_OK)
         (unat (get32 (drop 4 [0, 0, 0, 0, 0, 0, 0, 0, 1, 2])))
         (chunk_of [0, 0, 0, 0, 0, 0, 0, 0, 1, 2] 10) (update_of sample_begun) \<and>
       ota_inv s' \<and> ota_image_inv s')"
  by (rule ota_write_refines_update) simp_all

text \<open>C7. Lost acknowledgement: if \<open>ota_manager_write_data\<close> accepted a chunk, the same payload sent
  again is acknowledged and changes nothing, neither the state nor the flash.\<close>

theorem ota_chunk_retry_idempotent:
  assumes "ota_inv s" "ota_image_inv s" "unat len \<le> length payload"
    and "ota_manager_write_data E payload len s = Some (ERR_OK, s')"
  shows "ota_manager_write_data E payload len s' = Some (ERR_OK, s')"
proof -
  have len: "8 < unat len" "unat len \<le> 1024"
    using ota_manager_write_data_short [OF assms(1,3), of E] assms(4)
    by (force split: if_splits)+
  note r = ota_write_refines [OF assms(1,2) len assms(3), of E, unfolded assms(4)]
  then have inv: "ota_inv s'" "ota_image_inv s'" by simp_all
  note r [unfolded ensures_simps, THEN conjunct1, symmetric]
  then obtain sz dg img where u: "update_of s' = Update sz dg img (length (chunk_of payload len))"
    and d: "unat (get32 (drop 4 payload)) + length (chunk_of payload len) = length img"
      "chunk_of payload len = drop (unat (get32 (drop 4 payload))) img"
    using update_write_OK by blast
  have act: "ota_active (s_ota s')"
    using u by (simp add: update_of_def split: if_splits)
  then have "staged (trace s') = img"
    "unat (last_chunk_length (s_ota s')) = length (chunk_of payload len)"
    using u by (simp_all add: update_of_def)
  with d show ?thesis
    by (intro ota_write_repeated [OF inv assms(3) len act]) (simp_all only:)
qed

theorem ota_chunk_retry_idempotent_witness:
  "\<exists>s'. ota_manager_write_data sample_idf [0, 0, 0, 0, 0, 0, 0, 0, 1, 2] 10 sample_begun = Some (ERR_OK, s') \<and>
     ota_manager_write_data sample_idf [0, 0, 0, 0, 0, 0, 0, 0, 1, 2] 10 s' = Some (ERR_OK, s')"
proof -
  have "\<exists>s'. ota_manager_write_data sample_idf [0, 0, 0, 0, 0, 0, 0, 0, 1, 2] 10 sample_begun =
      Some (ERR_OK, s')"
    by (subst ota_manager_write_data_eq)
       (simp_all add: sample_begun_def sample_idle_def sample_idf_def Let_def get32_def)
  then show ?thesis
    using ota_chunk_retry_idempotent [of sample_begun 10] by auto
qed

text \<open>C8. The boot partition is switched only to a verified image: when \<open>ota_manager_end\<close> calls
  \<open>esp_ota_set_boot_partition\<close>, an update was active on that partition, the flash accepted exactly
  the announced number of bytes, \<open>esp_ota_end\<close> succeeded and the digest of the partition is the
  announced one; it reports success exactly when the switch succeeded.\<close>

theorem ota_end_boots_only_verified:
  assumes "ota_inv s" "ota_image_inv s"
  shows "ensures (ota_manager_end E s) (\<lambda>r s'. \<exists>cs. trace s' = cs @ trace s \<and>
    (\<forall>part err. Esp_ota_set_boot_partition part err \<in> set cs \<longrightarrow>
       ota_active (s_ota s) \<and> ota_partition (s_ota s) = Some part \<and>
       length (staged (trace s)) = unat (firmware_size (s_ota s)) \<and>
       Esp_ota_end (ota_handle (s_ota s)) ESP_OK \<in> set cs \<and>
       digest_matches E (Esp_ota_end (ota_handle (s_ota s)) ESP_OK # trace s) part
         (expected_sha256 (s_ota s))) \<and>
    (r = ERR_OK \<longleftrightarrow> (\<exists>part. Esp_ota_set_boot_partition part ESP_OK \<in> set cs)) \<and>
    (r = ERR_OK \<longrightarrow> \<not> ota_manager_is_active s'))"
proof -
  consider "\<not> ota_active (s_ota s)"
    | "ota_active (s_ota s)" "bytes_received (s_ota s) \<noteq> firmware_size (s_ota s)"
    | part where "ota_active (s_ota s)" "bytes_received (s_ota s) = firmware_size (s_ota s)"
        "ota_partition (s_ota s) = Some part"
    using assms(1) by (auto simp: ota_inv_def split: if_splits)
  then show ?thesis
  proof cases
    case 3
    then have "length (staged (trace s)) = unat (firmware_size (s_ota s))"
      using assms(2) by (simp add: ota_image_inv_def)
    with 3 show ?thesis
      by (auto simp: ota_manager_end_eq [OF assms(1)] Let_def ota_manager_is_active_def)
  qed (auto simp: ota_manager_end_def)
qed

theorem ota_end_boots_only_verified_witness:
  "ensures (ota_manager_end sample_idf sample_done) (\<lambda>r s'. \<exists>cs. trace s' = cs @ trace sample_done \<and>
    (\<forall>part err. Esp_ota_set_boot_partition part err \<in> set cs \<longrightarrow>
       ota_active (s_ota sample_done) \<and> ota_partition (s_ota sample_done) = Some part \<and>
       length (staged (trace sample_done)) = unat (firmware_size (s_ota sample_done)) \<and>
       Esp_ota_end (ota_handle (s_ota sample_done)) ESP_OK \<in> set cs \<and>
       digest_matches sample_idf
         (Esp_ota_end (ota_handle (s_ota sample_done)) ESP_OK # trace sample_done) part
         (expected_sha256 (s_ota sample_done))) \<and>
    (r = ERR_OK \<longleftrightarrow> (\<exists>part. Esp_ota_set_boot_partition part ESP_OK \<in> set cs)) \<and>
    (r = ERR_OK \<longrightarrow> \<not> ota_manager_is_active s'))"
  by (rule ota_end_boots_only_verified) simp_all

end
