(* ===== verification/Hmac.thy ===== *)
theory Hmac
  imports Platform
begin

text \<open>
  The HMAC helpers of \<^verbatim>\<open>auth.c\<close> that do not touch the session state: \<open>hmac_sha256\<close>,
  \<open>constant_time_equal\<close> and \<open>hmac_prefixed_nonce_pair\<close>.

  An output parameter is the array it points to, passed in and returned.  The specification
  \<open>hmac\<close> is the construction of FIPS 198-1 over the SHA-256 service; the lemmas show that the C
  code computes it inside its fixed arrays for every key and every input of up to 1036 bytes.
\<close>

section \<open>Operations\<close>

abbreviation AUTH_NONCE_SIZE :: nat where "AUTH_NONCE_SIZE \<equiv> 16"
abbreviation AUTH_TAG_SIZE :: nat where "AUTH_TAG_SIZE \<equiv> 16"
abbreviation HMAC_BLOCK_SIZE :: nat where "HMAC_BLOCK_SIZE \<equiv> 64"
abbreviation SHA256_SIZE :: nat where "SHA256_SIZE \<equiv> 32"
abbreviation HMAC_MAX_DATA_SIZE :: nat where "HMAC_MAX_DATA_SIZE \<equiv> 1036"

definition AUTH_PROOF_PREFIX :: bytes where "AUTH_PROOF_PREFIX = c_string ''auth-proof''"
definition AUTH_DEVICE_PROOF_PREFIX :: bytes where
  "AUTH_DEVICE_PROOF_PREFIX = c_string ''device-proof''"
definition AUTH_SESSION_PREFIX :: bytes where "AUTH_SESSION_PREFIX = c_string ''session''"
definition AUTH_RESPONSE_PREFIX :: bytes where "AUTH_RESPONSE_PREFIX = c_string ''response''"

text \<open>\<open>esp_sha(SHA2_256, input, len, output)\<close>: reads \<open>len\<close> bytes, writes 32.\<close>

definition call_esp_sha :: "esp_idf \<Rightarrow> bytes option \<Rightarrow> nat \<Rightarrow> bytes \<Rightarrow> bytes option" where
  "call_esp_sha E input len out = do {
     p \<leftarrow> input;
     xs \<leftarrow> load p 0 len;
     store out 0 (sha256 E xs) }"

definition hmac_sha256 ::
  "esp_idf \<Rightarrow> bytes option \<Rightarrow> nat \<Rightarrow> bytes option \<Rightarrow> nat \<Rightarrow> bytes \<Rightarrow> (bool \<times> bytes) option" where
  "hmac_sha256 E key key_len data data_len out = do {
     let key_block = replicate HMAC_BLOCK_SIZE 0;
     let inner_input = local_array (uninit E) (HMAC_BLOCK_SIZE + HMAC_MAX_DATA_SIZE);
     let inner_hash = local_array (uninit E) SHA256_SIZE;
     let outer_input = local_array (uninit E) (HMAC_BLOCK_SIZE + SHA256_SIZE);
     key_block \<leftarrow>
       (if key_len > HMAC_BLOCK_SIZE then call_esp_sha E key key_len key_block
        else case key of
          Some k \<Rightarrow> if key_len > 0 then do { xs \<leftarrow> load k 0 key_len; store key_block 0 xs }
                    else Some key_block
        | None \<Rightarrow> Some key_block);
     if data_len > HMAC_MAX_DATA_SIZE then Some (False, out)
     else do {
       (inner_input, outer_input) \<leftarrow>
         for_each (\<lambda>i (inner, outer). do {
             k \<leftarrow> load8 key_block i;
             inner \<leftarrow> store inner i [k XOR 0x36];
             outer \<leftarrow> store outer i [k XOR 0x5C];
             Some (inner, outer) }) [0..<HMAC_BLOCK_SIZE] (inner_input, outer_input);
       inner_input \<leftarrow>
         (case data of
            Some d \<Rightarrow> if data_len > 0
                       then do { xs \<leftarrow> load d 0 data_len; store inner_input HMAC_BLOCK_SIZE xs }
                       else Some inner_input
          | None \<Rightarrow> Some inner_input);
       inner_hash \<leftarrow> call_esp_sha E (Some inner_input) (HMAC_BLOCK_SIZE + data_len) inner_hash;
       h \<leftarrow> load inner_hash 0 SHA256_SIZE;
       outer_input \<leftarrow> store outer_input HMAC_BLOCK_SIZE h;
       out \<leftarrow> call_esp_sha E (Some outer_input) (HMAC_BLOCK_SIZE + SHA256_SIZE) out;
       Some (True, out) } }"

text \<open>The two pointers are an array and an offset each.\<close>

definition constant_time_equal :: "bytes \<Rightarrow> nat \<Rightarrow> bytes \<Rightarrow> nat \<Rightarrow> nat \<Rightarrow> bool option" where
  "constant_time_equal left loff right roff len = do {
     diff \<leftarrow> for_each (\<lambda>i diff. do {
         l \<leftarrow> load8 left (loff + i);
         r \<leftarrow> load8 right (roff + i);
         Some (diff OR (l XOR r)) }) [0..<len] (0 :: u8);
     Some (diff = 0) }"

definition hmac_prefixed_nonce_pair ::
  "esp_idf \<Rightarrow> bytes \<Rightarrow> bytes \<Rightarrow> nat \<Rightarrow> bytes \<Rightarrow> bytes \<Rightarrow> bytes \<Rightarrow> (bool \<times> bytes) option" where
  "hmac_prefixed_nonce_pair E prefix key key_len client_nonce server_nonce out = do {
     let input = local_array (uninit E) (32 + 2 * AUTH_NONCE_SIZE);
     let prefix_len = length prefix;
     if prefix_len + 2 * AUTH_NONCE_SIZE > length input then Some (False, out)
     else do {
       input \<leftarrow> store input 0 prefix;
       xs \<leftarrow> load client_nonce 0 AUTH_NONCE_SIZE;
       input \<leftarrow> store input prefix_len xs;
       xs \<leftarrow> load server_nonce 0 AUTH_NONCE_SIZE;
       input \<leftarrow> store input (prefix_len + AUTH_NONCE_SIZE) xs;
       hmac_sha256 E (Some key) key_len (Some input) (prefix_len + 2 * AUTH_NONCE_SIZE) out } }"

section \<open>Specification\<close>

text \<open>FIPS 198-1: the key is hashed when longer than a block and padded with zeros to a block.\<close>

definition hmac_key_block :: "esp_idf \<Rightarrow> bytes \<Rightarrow> bytes" where
  "hmac_key_block E key =
     (let k = (if length key > 64 then sha256 E key else key) in k @ replicate (64 - length k) 0)"

definition hmac :: "esp_idf \<Rightarrow> bytes \<Rightarrow> bytes \<Rightarrow> bytes" where
  "hmac E key text_bytes =
     sha256 E (map (\<lambda>k. k XOR 0x5C) (hmac_key_block E key) @
       sha256 E (map (\<lambda>k. k XOR 0x36) (hmac_key_block E key) @ text_bytes))"

section \<open>Lemmas\<close>

lemma length_hmac_key_block [simp]: "length (hmac_key_block E key) = 64"
  by (simp add: hmac_key_block_def Let_def)

lemma length_hmac [simp]: "length (hmac E key xs) = 32"
  by (simp add: hmac_def)

lemma call_esp_sha_Some [mem_simps]:
  "len \<le> length p \<Longrightarrow> length out = 32 \<Longrightarrow> call_esp_sha E (Some p) len out = Some (sha256 E (take len p))"
  by (simp add: call_esp_sha_def load_Some store_Some blit_full)

lemma pad_loop:
  assumes "n \<le> length kb" "n \<le> length inner" "n \<le> length outer"
  shows "for_each (\<lambda>i (inner, outer). do {
      k \<leftarrow> load8 kb i;
      inner \<leftarrow> store inner i [k XOR 0x36];
      outer \<leftarrow> store outer i [k XOR 0x5C];
      Some (inner, outer) }) [0..<n] (inner, outer) =
    Some (blit inner 0 (map (\<lambda>k. k XOR 0x36) (take n kb)),
          blit outer 0 (map (\<lambda>k. k XOR (0x5C :: u8)) (take n kb)))"
  using assms
proof (induction n)
  case (Suc n)
  then show ?case
    by (simp add: for_each_append load8_Some store_Some take_nth_snoc blit_snoc)
qed simp

lemma key_block_eq:
  assumes "key_len \<le> length k"
  shows "(if key_len > 64 then call_esp_sha E (Some k) key_len (replicate 64 0)
     else if key_len > 0 then do { xs \<leftarrow> load k 0 key_len; store (replicate 64 0) 0 xs }
     else Some (replicate 64 0)) = Some (hmac_key_block E (take key_len k))"
  using assms
  by (auto simp: call_esp_sha_def hmac_key_block_def load_Some store_Some blit_0 Let_def)

lemma hmac_sha256_eq:
  assumes "key_len \<le> length k" "data_len \<le> length d" "length out = 32"
  shows "hmac_sha256 E (Some k) key_len (Some d) data_len out =
    Some (if data_len \<le> 1036 then (True, hmac E (take key_len k) (take data_len d)) else (False, out))"
proof -
  let ?kb = "hmac_key_block E (take key_len k)" and ?d = "take data_len d"
  let ?ip = "map (\<lambda>k. k XOR 0x36) ?kb" and ?op = "map (\<lambda>k. k XOR 0x5C) ?kb"
  let ?junk = "local_array (uninit E)"
  have in2: "(if data_len > 0 then do { xs \<leftarrow> load d 0 data_len; store (blit (?junk 1100) 0 ?ip) 64 xs }
      else Some (blit (?junk 1100) 0 ?ip)) = Some (blit (?junk 1100) 0 (?ip @ ?d))"
    if "data_len \<le> 1036"
    using that assms(2) by (simp add: load_Some store_Some blit_blit_at)
  have sh: "take (64 + data_len) (blit (?junk 1100) 0 (?ip @ ?d)) = ?ip @ ?d" if "data_len \<le> 1036"
    using that assms(2) by (simp add: blit_0)
  have out: "blit (?junk 96) 0 (?op @ h) = ?op @ h" if "length h = 32" for h
    using that by (simp add: blit_0)
  have st: "store (blit (?junk 96) 0 ?op) 64 h = Some (blit (?junk 96) 0 (?op @ h))" if "length h = 32" for h
    using that by (simp add: store_Some blit_blit_at)
  note pads = pad_loop [of 64 ?kb "?junk 1100" "?junk 96", simplified]
  show ?thesis
  proof (cases "data_len \<le> 1036")
    case False
    then show ?thesis
      unfolding hmac_sha256_def Let_def option.case key_block_eq [OF assms(1)] bind.bind_lunit by simp
  next
    case True
    then show ?thesis
      unfolding hmac_sha256_def Let_def option.case key_block_eq [OF assms(1)] bind.bind_lunit
      using assms by (simp add: pads in2 call_esp_sha_Some sh out st load_Some hmac_def)
  qed
qed

lemma or_eq_0_iff: "(a :: u8) OR b = 0 \<longleftrightarrow> a = 0 \<and> b = 0"
  by (auto simp: bit_eq_iff bit_simps)

lemma xor_eq_0_iff: "(a :: u8) XOR b = 0 \<longleftrightarrow> a = b"
  by (auto simp: bit_eq_iff bit_simps)

lemma diff_loop:
  assumes "loff + n \<le> length left" "roff + n \<le> length right"
  shows "\<exists>diff. for_each (\<lambda>i diff. do {
         l \<leftarrow> load8 left (loff + i);
         r \<leftarrow> load8 right (roff + i);
         Some (diff OR (l XOR r)) }) [0..<n] (0 :: u8) = Some diff \<and>
      (diff = 0 \<longleftrightarrow> take n (drop loff left) = take n (drop roff right))"
  using assms
proof (induction n)
  case (Suc n)
  then show ?case
    by (auto simp: for_each_append load8_Some take_nth_snoc or_eq_0_iff xor_eq_0_iff)
qed simp

lemma constant_time_equal_eq [mem_simps]:
  assumes "loff + n \<le> length left" "roff + n \<le> length right"
  shows "constant_time_equal left loff right roff n =
    Some (take n (drop loff left) = take n (drop roff right))"
  using diff_loop [OF assms] by (auto simp: constant_time_equal_def)

lemma hmac_prefixed_nonce_pair_eq:
  assumes "length prefix \<le> 32" "key_len \<le> length key" "length cn = 16" "length sn = 16" "length out = 32"
  shows "hmac_prefixed_nonce_pair E prefix key key_len cn sn out =
    Some (True, hmac E (take key_len key) (prefix @ cn @ sn))"
proof -
  let ?j = "local_array (uninit E) 64"
  have "blit (blit (blit ?j 0 prefix) (length prefix) cn) (length prefix + 16) sn =
      blit ?j 0 ((prefix @ cn) @ sn)"
    using assms by (subst blit_blit_at; simp)+
  then show ?thesis
    using assms
    by (simp add: hmac_prefixed_nonce_pair_def Let_def store_Some load_Some hmac_sha256_eq blit_0)
qed

lemma prefix_lengths [simp]:
  "length AUTH_PROOF_PREFIX = 10" "length AUTH_DEVICE_PROOF_PREFIX = 12"
  "length AUTH_SESSION_PREFIX = 7" "length AUTH_RESPONSE_PREFIX = 8"
  by (simp_all add: AUTH_PROOF_PREFIX_def AUTH_DEVICE_PROOF_PREFIX_def AUTH_SESSION_PREFIX_def
      AUTH_RESPONSE_PREFIX_def)

section \<open>Properties\<close>

text \<open>C9. \<open>hmac_sha256\<close> computes HMAC-SHA-256 of FIPS 198-1 for every key and every input of at most
  1036 bytes, without leaving its arrays and without depending on their initial content; a longer
  input is refused and the output is not written.\<close>

theorem hmac_sha256_is_hmac:
  assumes "key_len \<le> length key" "data_len \<le> length data" "length out = 32"
  shows "hmac_sha256 E (Some key) key_len (Some data) data_len out =
    Some (if data_len \<le> 1036 then (True, hmac E (take key_len key) (take data_len data)) else (False, out))"
  using assms by (rule hmac_sha256_eq)

theorem hmac_sha256_is_hmac_witness:
  "hmac_sha256 sample_idf (Some [1, 2, 3]) 2 (Some [4, 5]) 2 (replicate 32 0) =
    Some (if (2::nat) \<le> 1036 then (True, hmac sample_idf (take 2 [1, 2, 3]) (take 2 [4, 5]))
          else (False, replicate 32 0))"
  by (rule hmac_sha256_is_hmac) simp_all

text \<open>C10. \<open>constant_time_equal\<close> decides equality of the two byte ranges (its loop reads every byte
  of both, whatever their content).\<close>

theorem constant_time_equal_decides:
  assumes "loff + n \<le> length left" "roff + n \<le> length right"
  shows "constant_time_equal left loff right roff n =
    Some (take n (drop loff left) = take n (drop roff right))"
  using assms by (rule constant_time_equal_eq)

theorem constant_time_equal_decides_witness:
  "constant_time_equal [1, 2, 3] 1 [2, 3] 0 2 =
    Some (take 2 (drop 1 [1, 2, 3 :: u8]) = take 2 (drop 0 [2, 3]))"
  by (rule constant_time_equal_decides) simp_all

end
