(* ===== verification/Auth.thy ===== *)
theory Auth
  imports Hmac Ota_Manager
begin

text \<open>
  \<^verbatim>\<open>auth.h\<close> and \<^verbatim>\<open>auth.c\<close>: the session state, the challenge-response handshake, the tags of
  requests and responses, and the ring of recent responses that makes retries safe.

  Specifications: \<open>session_of\<close> with \<open>session_step\<close> is the handshake as a machine on the nonces
  only; \<open>request_tag\<close> and \<open>response_tag\<close> are the tags of \<^verbatim>\<open>protocol/protocol.md\<close>; the ring of
  responses is an instance of the locale \<open>response_window\<close>, whose laws speak of the contents from
  newest to oldest.
\<close>

section \<open>State\<close>

abbreviation AUTH_KEY_MAX_SIZE :: nat where "AUTH_KEY_MAX_SIZE \<equiv> 64"
abbreviation AUTH_REPLAY_CACHE_SIZE :: nat where "AUTH_REPLAY_CACHE_SIZE \<equiv> 8"

record auth_replay_entry_t =
  entry_valid :: bool
  request_command :: u8
  entry_sequence :: u16
  request_digest :: bytes
  response_command :: u8
  response_length :: u16
  response_payload :: bytes

record auth_state_t =
  auth_required :: bool
  auth_pending :: bool
  authenticated :: bool
  auth_key :: bytes
  auth_key_len :: nat
  client_nonce :: bytes
  server_nonce :: bytes
  session_key :: bytes
  replay_cache :: "auth_replay_entry_t list"
  next_replay_entry :: nat

record auth_dev = ota_dev +
  s_auth :: auth_state_t

definition zero_entry :: auth_replay_entry_t where
  "zero_entry = \<lparr>entry_valid = False, request_command = 0, entry_sequence = 0,
     request_digest = replicate SHA256_SIZE 0, response_command = 0, response_length = 0,
     response_payload = replicate PROTOCOL_MAX_PAYLOAD 0\<rparr>"

definition zero_auth :: auth_state_t where
  "zero_auth = \<lparr>auth_required = False, auth_pending = False, authenticated = False,
     auth_key = replicate AUTH_KEY_MAX_SIZE 0, auth_key_len = 0,
     client_nonce = replicate AUTH_NONCE_SIZE 0, server_nonce = replicate AUTH_NONCE_SIZE 0,
     session_key = replicate SHA256_SIZE 0,
     replay_cache = replicate AUTH_REPLAY_CACHE_SIZE zero_entry, next_replay_entry = 0\<rparr>"

section \<open>Digests and tags\<close>

definition compute_request_digest ::
  "esp_idf \<Rightarrow> protocol_packet_t \<Rightarrow> bytes \<Rightarrow> (bool \<times> bytes) option" where
  "compute_request_digest E packet out = do {
     let input = local_array (uninit E) (1 + 2 + PROTOCOL_MAX_PAYLOAD);
     input \<leftarrow> store input 0 [pkt_command packet];
     input \<leftarrow> store input 1 [ucast (pkt_sequence packet AND 0xFF)];
     input \<leftarrow> store input 2 [ucast (drop_bit 8 (pkt_sequence packet) AND 0xFF)];
     input \<leftarrow> (if pkt_length packet > 0
               then do { xs \<leftarrow> load (pkt_payload packet) 0 (unat (pkt_length packet)); store input 3 xs }
               else Some input);
     out \<leftarrow> call_esp_sha E (Some input) (3 + unat (pkt_length packet)) out;
     Some (True, out) }"

definition compute_packet_tag ::
  "esp_idf \<Rightarrow> u8 \<Rightarrow> u16 \<Rightarrow> bytes option \<Rightarrow> u16 \<Rightarrow> bytes \<Rightarrow> 'a auth_dev_scheme \<Rightarrow> (bool \<times> bytes) option" where
  "compute_packet_tag E command sequence payload len out s = do {
     let input = local_array (uninit E) (1 + 2 + PROTOCOL_MAX_PAYLOAD);
     input \<leftarrow> store input 0 [command];
     input \<leftarrow> store input 1 [ucast (sequence AND 0xFF)];
     input \<leftarrow> store input 2 [ucast (drop_bit 8 sequence AND 0xFF)];
     input \<leftarrow> (case payload of
                 Some p \<Rightarrow> if len > 0 then do { xs \<leftarrow> load p 0 (unat len); store input 3 xs }
                           else Some input
               | None \<Rightarrow> Some input);
     hmac_sha256 E (Some (session_key (s_auth s))) SHA256_SIZE (Some input) (3 + unat len) out }"

definition compute_response_tag ::
  "esp_idf \<Rightarrow> u8 \<Rightarrow> u8 \<Rightarrow> u16 \<Rightarrow> bytes option \<Rightarrow> u16 \<Rightarrow> bytes \<Rightarrow> 'a auth_dev_scheme \<Rightarrow>
   (bool \<times> bytes) option" where
  "compute_response_tag E request_cmd response_cmd sequence payload len out s = do {
     let input = local_array (uninit E) (8 + 1 + 1 + 2 + PROTOCOL_MAX_PAYLOAD);
     input \<leftarrow> store input 0 AUTH_RESPONSE_PREFIX;
     let offset = length AUTH_RESPONSE_PREFIX;
     input \<leftarrow> store input offset [request_cmd];
     let offset = offset + 1;
     input \<leftarrow> store input offset [response_cmd];
     let offset = offset + 1;
     input \<leftarrow> store input offset [ucast (sequence AND 0xFF)];
     let offset = offset + 1;
     input \<leftarrow> store input offset [ucast (drop_bit 8 sequence AND 0xFF)];
     let offset = offset + 1;
     (input, offset) \<leftarrow>
       (case payload of
          Some p \<Rightarrow> if len > 0
            then do { xs \<leftarrow> load p 0 (unat len); input \<leftarrow> store input offset xs;
                      Some (input, offset + unat len) }
            else Some (input, offset)
        | None \<Rightarrow> Some (input, offset));
     hmac_sha256 E (Some (session_key (s_auth s))) SHA256_SIZE (Some input) offset out }"

section \<open>Operations\<close>

definition clear_replay_cache :: "auth_state_t \<Rightarrow> auth_state_t" where
  "clear_replay_cache a = a\<lparr>replay_cache := replicate AUTH_REPLAY_CACHE_SIZE zero_entry,
     next_replay_entry := 0\<rparr>"

definition auth_configure ::
  "bytes option \<Rightarrow> nat \<Rightarrow> bool \<Rightarrow> 'a auth_dev_scheme \<Rightarrow> 'a auth_dev_scheme option" where
  "auth_configure key key_len require_authentication s =
    (let s = s\<lparr>s_auth := zero_auth\<rparr> in
     case key of
       None \<Rightarrow> Some s
     | Some k \<Rightarrow>
         if key_len = 0 \<or> key_len > AUTH_KEY_MAX_SIZE then Some s
         else do {
           xs \<leftarrow> load k 0 key_len;
           stored \<leftarrow> store (auth_key (s_auth s)) 0 xs;
           Some (s\<lparr>s_auth := (s_auth s)\<lparr>auth_key := stored, auth_key_len := key_len,
                   auth_required := require_authentication\<rparr>\<rparr>) })"

definition auth_is_enabled :: "'a auth_dev_scheme \<Rightarrow> bool" where
  "auth_is_enabled s = auth_required (s_auth s)"

definition auth_command_is_protected :: "u8 \<Rightarrow> bool" where
  "auth_command_is_protected command \<longleftrightarrow>
     command = cmd_code CMD_REBOOT \<or> command = cmd_code CMD_ROLLBACK \<or>
     command = cmd_code CMD_OTA_BEGIN \<or> command = cmd_code CMD_OTA_DATA \<or>
     command = cmd_code CMD_OTA_END \<or> command = cmd_code CMD_OTA_ABORT"

text \<open>The two branches of \<open>auth_handle_packet\<close>: a fresh challenge and a proof.\<close>

definition auth_challenge ::
  "esp_idf \<Rightarrow> protocol_packet_t \<Rightarrow> 'a auth_dev_scheme \<Rightarrow> (protocol_error_t \<times> 'a auth_dev_scheme) option"
  where
  "auth_challenge E packet s = do {
     xs \<leftarrow> load (pkt_payload packet) 0 AUTH_NONCE_SIZE;
     cn \<leftarrow> store (client_nonce (s_auth s)) 0 xs;
     let s = s\<lparr>s_auth := (s_auth s)\<lparr>client_nonce := cn\<rparr>\<rparr>;
     sn \<leftarrow> store (server_nonce (s_auth s)) 0 (map (esp_fill_random E (trace s)) [0..<AUTH_NONCE_SIZE]);
     let s = (emit (Esp_fill_random AUTH_NONCE_SIZE) s)\<lparr>s_auth := (s_auth s)\<lparr>server_nonce := sn\<rparr>\<rparr>;
     let a = s_auth s;
     (ok, sk) \<leftarrow> hmac_prefixed_nonce_pair E AUTH_SESSION_PREFIX (auth_key a) (auth_key_len a)
                   (client_nonce a) (server_nonce a) (session_key a);
     let s = s\<lparr>s_auth := (s_auth s)\<lparr>session_key := sk\<rparr>\<rparr>;
     if \<not> ok then Some (ERR_AUTH_REQUIRED, s)
     else do {
       let s = s\<lparr>s_auth := clear_replay_cache
                   ((s_auth s)\<lparr>auth_pending := True, authenticated := False\<rparr>)\<rparr>;
       let device_proof = local_array (uninit E) SHA256_SIZE;
       (ok, device_proof) \<leftarrow> hmac_prefixed_nonce_pair E AUTH_DEVICE_PROOF_PREFIX (auth_key a)
                   (auth_key_len a) (client_nonce a) (server_nonce a) device_proof;
       if \<not> ok then Some (ERR_AUTH_REQUIRED, s)
       else do {
         let response = local_array (uninit E) (1 + AUTH_NONCE_SIZE + AUTH_TAG_SIZE);
         response \<leftarrow> store response 0 [err_code ERR_OK];
         xs \<leftarrow> load (server_nonce (s_auth s)) 0 AUTH_NONCE_SIZE;
         response \<leftarrow> store response 1 xs;
         xs \<leftarrow> load device_proof 0 AUTH_TAG_SIZE;
         response \<leftarrow> store response (1 + AUTH_NONCE_SIZE) xs;
         s \<leftarrow> protocol_send_packet E (cmd_code CMD_ACK) (pkt_sequence packet) (Some response) 33 s;
         Some (ERR_OK, s) } } }"

definition auth_proof ::
  "esp_idf \<Rightarrow> protocol_packet_t \<Rightarrow> 'a auth_dev_scheme \<Rightarrow> (protocol_error_t \<times> 'a auth_dev_scheme) option"
  where
  "auth_proof E packet s = do {
     let a = s_auth s;
     let expected = local_array (uninit E) SHA256_SIZE;
     refused \<leftarrow>
       (if \<not> auth_pending a \<and> \<not> authenticated a then Some True
        else do {
          same \<leftarrow> constant_time_equal (pkt_payload packet) 0 (client_nonce a) 0 AUTH_NONCE_SIZE;
          if \<not> same then Some True
          else do {
            (ok, expected) \<leftarrow> hmac_prefixed_nonce_pair E AUTH_PROOF_PREFIX (auth_key a) (auth_key_len a)
                                (client_nonce a) (server_nonce a) expected;
            if \<not> ok then Some True
            else do {
              same \<leftarrow> constant_time_equal (pkt_payload packet) AUTH_NONCE_SIZE expected 0 AUTH_TAG_SIZE;
              Some (\<not> same) } } });
     if refused then Some (ERR_AUTH_REQUIRED, s)
     else do {
       s \<leftarrow> protocol_send_ack E (pkt_sequence packet)
              (s\<lparr>s_auth := a\<lparr>auth_pending := False, authenticated := True\<rparr>\<rparr>);
       Some (ERR_OK, s) } }"

definition auth_handle_packet ::
  "esp_idf \<Rightarrow> protocol_packet_t \<Rightarrow> 'a auth_dev_scheme \<Rightarrow> (protocol_error_t \<times> 'a auth_dev_scheme) option"
  where
  "auth_handle_packet E packet s =
    (if \<not> auth_required (s_auth s) then Some (ERR_UNKNOWN_COMMAND, s)
     else if unat (pkt_length packet) = AUTH_NONCE_SIZE then auth_challenge E packet s
     else if unat (pkt_length packet) = AUTH_NONCE_SIZE + AUTH_TAG_SIZE then auth_proof E packet s
     else Some (ERR_INVALID_LENGTH, s))"

text \<open>The scan of \<open>auth_check_replay\<close> over the slots, first slot first.  The result is the error,
  the flag \<open>replayed\<close> and the state.\<close>

fun check_replay_loop ::
  "esp_idf \<Rightarrow> protocol_packet_t \<Rightarrow> bytes \<Rightarrow> nat list \<Rightarrow> 'a auth_dev_scheme \<Rightarrow>
   ((protocol_error_t \<times> bool) \<times> 'a auth_dev_scheme) option" where
  "check_replay_loop E packet digest [] s = Some ((ERR_OK, False), s)"
| "check_replay_loop E packet digest (i # is) s = do {
     entry \<leftarrow> load8 (replay_cache (s_auth s)) i;
     if \<not> entry_valid entry \<or> request_command entry \<noteq> pkt_command packet \<or>
        entry_sequence entry \<noteq> pkt_sequence packet
     then check_replay_loop E packet digest is s
     else do {
       same \<leftarrow> constant_time_equal (request_digest entry) 0 digest 0 SHA256_SIZE;
       if \<not> same then Some ((ERR_AUTH_REQUIRED, False), s)
       else do {
         s \<leftarrow> protocol_send_packet E (response_command entry) (pkt_sequence packet)
                (Some (response_payload entry)) (response_length entry) s;
         Some ((ERR_OK, True), s) } } }"

definition auth_check_replay ::
  "esp_idf \<Rightarrow> protocol_packet_t \<Rightarrow> 'a auth_dev_scheme \<Rightarrow>
   ((protocol_error_t \<times> bool) \<times> 'a auth_dev_scheme) option" where
  "auth_check_replay E packet s =
    (if \<not> auth_required (s_auth s) \<or> \<not> auth_command_is_protected (pkt_command packet)
     then Some ((ERR_OK, False), s)
     else if \<not> authenticated (s_auth s) then Some ((ERR_AUTH_REQUIRED, False), s)
     else do {
       (_, digest) \<leftarrow> compute_request_digest E packet (local_array (uninit E) SHA256_SIZE);
       check_replay_loop E packet digest [0..<AUTH_REPLAY_CACHE_SIZE] s })"

text \<open>The result is the error, the array \<open>*payload\<close> points to and \<open>*length\<close>.\<close>

definition auth_unwrap_packet ::
  "esp_idf \<Rightarrow> protocol_packet_t \<Rightarrow> 'a auth_dev_scheme \<Rightarrow> (protocol_error_t \<times> bytes \<times> u16) option" where
  "auth_unwrap_packet E packet s = do {
     let payload = pkt_payload packet;
     let len = pkt_length packet;
     if \<not> auth_required (s_auth s) \<or> \<not> auth_command_is_protected (pkt_command packet)
     then Some (ERR_OK, payload, len)
     else if \<not> authenticated (s_auth s) \<or> unat (pkt_length packet) < AUTH_TAG_SIZE
     then Some (ERR_AUTH_REQUIRED, payload, len)
     else do {
       let unwrapped_length = pkt_length packet - 16;
       (ok, expected) \<leftarrow> compute_packet_tag E (pkt_command packet) (pkt_sequence packet)
         (Some (pkt_payload packet)) unwrapped_length (local_array (uninit E) SHA256_SIZE) s;
       accepted \<leftarrow> (if ok then constant_time_equal (pkt_payload packet) (unat unwrapped_length)
                              expected 0 AUTH_TAG_SIZE
                    else Some False);
       if \<not> accepted then Some (ERR_AUTH_REQUIRED, payload, len)
       else Some (ERR_OK, payload, unwrapped_length) } }"

text \<open>Writing the slot \<open>next_replay_entry\<close>: every field of the old entry is overwritten, the payload
  only up to the response length.\<close>

definition store_replay_entry ::
  "protocol_packet_t \<Rightarrow> bytes \<Rightarrow> u8 \<Rightarrow> bytes \<Rightarrow> u16 \<Rightarrow> auth_state_t \<Rightarrow> auth_state_t option" where
  "store_replay_entry request digest response_cmd payload len a = do {
     entry \<leftarrow> load8 (replay_cache a) (next_replay_entry a);
     xs \<leftarrow> load digest 0 SHA256_SIZE;
     dig \<leftarrow> store (request_digest entry) 0 xs;
     ys \<leftarrow> load payload 0 (unat len);
     pl \<leftarrow> store (response_payload entry) 0 ys;
     Some (a\<lparr>replay_cache := (replay_cache a)[next_replay_entry a :=
               entry\<lparr>entry_valid := True, request_command := pkt_command request,
                 entry_sequence := pkt_sequence request, request_digest := dig,
                 response_command := response_cmd, response_length := len,
                 response_payload := pl\<rparr>],
             next_replay_entry := (next_replay_entry a + 1) mod AUTH_REPLAY_CACHE_SIZE\<rparr>) }"

definition auth_send_response ::
  "esp_idf \<Rightarrow> protocol_packet_t \<Rightarrow> u8 \<Rightarrow> bytes option \<Rightarrow> u16 \<Rightarrow> 'a auth_dev_scheme \<Rightarrow>
   'a auth_dev_scheme option" where
  "auth_send_response E request response_cmd payload len s = do {
     let buf = local_array (uninit E) PROTOCOL_MAX_PAYLOAD;
     buf \<leftarrow> (case payload of
              Some p \<Rightarrow> if len > 0 then do { xs \<leftarrow> load p 0 (unat len); store buf 0 xs } else Some buf
            | None \<Rightarrow> Some buf);
     if auth_required (s_auth s) \<and> authenticated (s_auth s) \<and>
        auth_command_is_protected (pkt_command request)
     then
       if unat len + AUTH_TAG_SIZE > PROTOCOL_MAX_PAYLOAD
       then protocol_send_nack E (pkt_sequence request) ERR_INVALID_LENGTH s
       else do {
         (_, tag) \<leftarrow> compute_response_tag E (pkt_command request) response_cmd (pkt_sequence request)
                       payload len (local_array (uninit E) SHA256_SIZE) s;
         t \<leftarrow> load tag 0 AUTH_TAG_SIZE;
         buf \<leftarrow> store buf (unat len) t;
         let response_len = len + 16;
         (_, digest) \<leftarrow> compute_request_digest E request (local_array (uninit E) SHA256_SIZE);
         a \<leftarrow> store_replay_entry request digest response_cmd buf response_len (s_auth s);
         protocol_send_packet E response_cmd (pkt_sequence request) (Some buf) response_len
           (s\<lparr>s_auth := a\<rparr>) }
     else protocol_send_packet E response_cmd (pkt_sequence request) (Some buf) len s }"

definition auth_send_ack :: "esp_idf \<Rightarrow> protocol_packet_t \<Rightarrow> 'a auth_dev_scheme \<Rightarrow> 'a auth_dev_scheme option"
  where
  "auth_send_ack E request s =
     auth_send_response E request (cmd_code CMD_ACK) (Some [err_code ERR_OK]) 1 s"

definition auth_send_nack ::
  "esp_idf \<Rightarrow> protocol_packet_t \<Rightarrow> protocol_error_t \<Rightarrow> 'a auth_dev_scheme \<Rightarrow> 'a auth_dev_scheme option"
  where
  "auth_send_nack E request error s =
     auth_send_response E request (cmd_code CMD_NACK) (Some [err_code error]) 1 s"

section \<open>Specification\<close>

text \<open>The bytes that identify a request, its digest and its tag, and the tag of a response.\<close>

definition req_bytes :: "u8 \<Rightarrow> u16 \<Rightarrow> bytes \<Rightarrow> bytes" where
  "req_bytes c q p = c # le16 q @ p"

definition packet_digest :: "esp_idf \<Rightarrow> protocol_packet_t \<Rightarrow> bytes" where
  "packet_digest E packet = sha256 E (req_bytes (pkt_command packet) (pkt_sequence packet)
     (take (unat (pkt_length packet)) (pkt_payload packet)))"

definition request_tag :: "esp_idf \<Rightarrow> bytes \<Rightarrow> u8 \<Rightarrow> u16 \<Rightarrow> bytes \<Rightarrow> bytes" where
  "request_tag E sk c q p = take AUTH_TAG_SIZE (hmac E sk (req_bytes c q p))"

definition response_tag :: "esp_idf \<Rightarrow> bytes \<Rightarrow> u8 \<Rightarrow> u8 \<Rightarrow> u16 \<Rightarrow> bytes \<Rightarrow> bytes" where
  "response_tag E sk rc c q p =
     take AUTH_TAG_SIZE (hmac E sk (AUTH_RESPONSE_PREFIX @ [rc, c] @ le16 q @ p))"

definition current_key :: "auth_state_t \<Rightarrow> bytes" where
  "current_key a = take (auth_key_len a) (auth_key a)"

definition session_key_for :: "esp_idf \<Rightarrow> bytes \<Rightarrow> bytes \<Rightarrow> bytes \<Rightarrow> bytes" where
  "session_key_for E key cn sn = hmac E key (AUTH_SESSION_PREFIX @ cn @ sn)"

definition client_proof :: "esp_idf \<Rightarrow> bytes \<Rightarrow> bytes \<Rightarrow> bytes \<Rightarrow> bytes" where
  "client_proof E key cn sn = take AUTH_TAG_SIZE (hmac E key (AUTH_PROOF_PREFIX @ cn @ sn))"

definition device_proof_for :: "esp_idf \<Rightarrow> bytes \<Rightarrow> bytes \<Rightarrow> bytes \<Rightarrow> bytes" where
  "device_proof_for E key cn sn =
     take AUTH_TAG_SIZE (hmac E key (AUTH_DEVICE_PROOF_PREFIX @ cn @ sn))"

text \<open>The handshake as a machine on the nonces.\<close>

datatype session = Closed | Challenged bytes bytes | Open bytes bytes

definition session_of :: "auth_state_t \<Rightarrow> session" where
  "session_of a = (if authenticated a then Open (client_nonce a) (server_nonce a)
     else if auth_pending a then Challenged (client_nonce a) (server_nonce a) else Closed)"

definition accept_proof :: "esp_idf \<Rightarrow> bytes \<Rightarrow> bytes \<Rightarrow> bytes \<Rightarrow> bytes \<Rightarrow> bool" where
  "accept_proof E key p cn sn \<longleftrightarrow> p = cn @ client_proof E key cn sn"

fun session_step :: "esp_idf \<Rightarrow> bytes \<Rightarrow> bytes \<Rightarrow> bytes \<Rightarrow> session \<Rightarrow> protocol_error_t \<times> session" where
  "session_step E key fresh p sess =
    (if length p = AUTH_NONCE_SIZE then (ERR_OK, Challenged p fresh)
     else if length p = AUTH_NONCE_SIZE + AUTH_TAG_SIZE then
       (case sess of
          Closed \<Rightarrow> (ERR_AUTH_REQUIRED, Closed)
        | Challenged cn sn \<Rightarrow>
            if accept_proof E key p cn sn then (ERR_OK, Open cn sn) else (ERR_AUTH_REQUIRED, sess)
        | Open cn sn \<Rightarrow>
            if accept_proof E key p cn sn then (ERR_OK, sess) else (ERR_AUTH_REQUIRED, sess))
     else (ERR_INVALID_LENGTH, sess))"

text \<open>A frame sent in answer to a request.\<close>

definition reply :: "u8 \<Rightarrow> u16 \<Rightarrow> bytes \<Rightarrow> 'a protocol_dev_scheme \<Rightarrow> 'a protocol_dev_scheme" where
  "reply c q p s = send_frame (wire (Msg PROTOCOL_VERSION c q p)) s"

section \<open>Invariant\<close>

definition entry_inv :: "auth_replay_entry_t \<Rightarrow> bool" where
  "entry_inv e \<longleftrightarrow> length (request_digest e) = SHA256_SIZE \<and>
     length (response_payload e) = PROTOCOL_MAX_PAYLOAD \<and>
     unat (response_length e) \<le> PROTOCOL_MAX_PAYLOAD"

definition cache_inv :: "auth_state_t \<Rightarrow> bool" where
  "cache_inv a \<longleftrightarrow> length (replay_cache a) = AUTH_REPLAY_CACHE_SIZE \<and>
     next_replay_entry a < AUTH_REPLAY_CACHE_SIZE \<and> list_all entry_inv (replay_cache a)"

text \<open>Array sizes; a session exists only where authentication is required, is either pending or
  open, and its key is the one derived from its nonces.\<close>

definition auth_inv :: "esp_idf \<Rightarrow> auth_state_t \<Rightarrow> bool" where
  "auth_inv E a \<longleftrightarrow> length (auth_key a) = AUTH_KEY_MAX_SIZE \<and> auth_key_len a \<le> AUTH_KEY_MAX_SIZE \<and>
     length (client_nonce a) = AUTH_NONCE_SIZE \<and> length (server_nonce a) = AUTH_NONCE_SIZE \<and>
     length (session_key a) = SHA256_SIZE \<and> cache_inv a \<and>
     \<not> (auth_pending a \<and> authenticated a) \<and>
     (auth_pending a \<or> authenticated a \<longrightarrow> auth_required a \<and> 0 < auth_key_len a \<and>
        session_key a = session_key_for E (current_key a) (client_nonce a) (server_nonce a)) \<and>
     (auth_required a \<longrightarrow> 0 < auth_key_len a)"

definition dev_inv :: "esp_idf \<Rightarrow> 'a auth_dev_scheme \<Rightarrow> bool" where
  "dev_inv E s \<longleftrightarrow> protocol_inv s \<and> ota_inv s \<and> auth_inv E (s_auth s)"

text \<open>Concrete states for evaluation: authentication required and no session; an open session.  The
  requests are a nonce, the proof for it, and an \<open>OTA_ABORT\<close> with its tag.\<close>

definition sample_locked :: auth_dev where
  "sample_locked = ota_dev.extend sample_idle (auth_dev.fields
     (zero_auth\<lparr>auth_required := True, auth_key_len := 3\<rparr>))"

definition sample_open_auth :: auth_state_t where
  "sample_open_auth = (s_auth sample_locked)\<lparr>authenticated := True, session_key :=
     session_key_for sample_idf (current_key (s_auth sample_locked)) (replicate 16 0) (replicate 16 0)\<rparr>"

definition sample_open :: auth_dev where
  "sample_open = sample_locked\<lparr>s_auth := sample_open_auth\<rparr>"

definition sample_packet :: "u8 \<Rightarrow> u16 \<Rightarrow> bytes \<Rightarrow> protocol_packet_t" where
  "sample_packet c q p = \<lparr>pkt_version = PROTOCOL_VERSION, pkt_command = c, pkt_sequence = q,
     pkt_length = of_nat (length p), pkt_payload = p @ replicate (1024 - length p) 0\<rparr>"

definition sample_abort :: "u16 \<Rightarrow> protocol_packet_t" where
  "sample_abort q = sample_packet 0x13 q
     (request_tag sample_idf (session_key (s_auth sample_open)) 0x13 q [])"

section \<open>Digests and tags compute their specification\<close>

lemma length_req_bytes [simp]: "length (req_bytes c q p) = 3 + length p"
  by (simp add: req_bytes_def)

lemma length_tags [simp]:
  "length (packet_digest E k) = 32" "length (request_tag E sk c q p) = 16"
  "length (response_tag E sk rc c q p) = 16" "length (session_key_for E key cn sn) = 32"
  "length (client_proof E key cn sn) = 16" "length (device_proof_for E key cn sn) = 16"
  by (simp_all add: packet_digest_def request_tag_def response_tag_def session_key_for_def
      client_proof_def device_proof_for_def)

lemma req_header_store:
  assumes "3 \<le> length b"
  shows "do { b \<leftarrow> store b 0 [c]; b \<leftarrow> store b 1 [ucast (q AND 0xFF)];
      b \<leftarrow> store b 2 [ucast (drop_bit 8 q AND 0xFF)]; k b } = k (blit b 0 (req_bytes c q []))"
  using assms by (simp add: store_Some blit_blit_at ucast_mask_u8 req_bytes_def le16_def)

lemma req_payload_store:
  assumes "unat n \<le> length p" "unat n \<le> 1024" "length b = 1027"
  shows "(if n > 0 then do { xs \<leftarrow> load p 0 (unat n); store (blit b 0 (req_bytes c q [])) 3 xs }
      else Some (blit b 0 (req_bytes c q []))) = Some (blit b 0 (req_bytes c q (take (unat n) p)))"
proof -
  have "blit (blit b 0 (req_bytes c q [])) 3 (take (unat n) p) = blit b 0 (req_bytes c q (take (unat n) p))"
    using assms by (subst blit_blit_at) (auto simp: req_bytes_def)
  then show ?thesis
    using assms by (auto simp: load_Some store_Some word_gt_0 unat_eq_zero)
qed

lemma take_blit_0: "length xs = n \<Longrightarrow> n \<le> length b \<Longrightarrow> take n (blit b 0 xs) = xs"
  by (simp add: blit_0)

lemma compute_request_digest_eq [mem_simps]:
  assumes "packet_inv k" "length out = 32"
  shows "compute_request_digest E k out = Some (True, packet_digest E k)"
  using assms unfolding compute_request_digest_def Let_def packet_inv_def
  by (subst req_header_store)
     (simp_all add: req_payload_store call_esp_sha_Some take_blit_0 packet_digest_def)

lemma compute_packet_tag_eq:
  assumes "unat n \<le> length p" "unat n \<le> 1024" "length (session_key (s_auth s)) = 32" "length out = 32"
  shows "compute_packet_tag E c q (Some p) n out s =
    Some (True, hmac E (session_key (s_auth s)) (req_bytes c q (take (unat n) p)))"
  using assms unfolding compute_packet_tag_def Let_def
  by (subst req_header_store) (simp_all add: req_payload_store hmac_sha256_eq take_blit_0)

lemma compute_response_tag_eq:
  assumes "unat n \<le> length p" "unat n \<le> 1024" "length (session_key (s_auth s)) = 32" "length out = 32"
  shows "compute_response_tag E rc c q (Some p) n out s =
    Some (True, hmac E (session_key (s_auth s)) (AUTH_RESPONSE_PREFIX @ [rc, c] @ le16 q @ take (unat n) p))"
proof -
  let ?b = "local_array (uninit E) 1036" and ?h = "AUTH_RESPONSE_PREFIX @ [rc, c] @ le16 q"
  have h: "blit (blit (blit (blit (blit ?b 0 AUTH_RESPONSE_PREFIX) 8 [rc]) 9 [c]) 10
      [ucast (q AND 0xFF)]) 11 [ucast (drop_bit 8 q AND 0xFF)] = blit ?b 0 ?h"
    by (simp add: blit_blit_at ucast_mask_u8 le16_def)
  have "blit (blit ?b 0 ?h) 12 (take (unat n) p) = blit ?b 0 (?h @ take (unat n) p)"
    using assms by (subst blit_blit_at) auto
  then show ?thesis
    using assms unfolding compute_response_tag_def Let_def
    by (auto simp: h load_Some store_Some word_gt_0 unat_eq_zero hmac_sha256_eq take_blit_0)
qed

section \<open>Replies keep the state\<close>

lemma protocol_send_packet_reply [mem_simps]:
  "protocol_inv s \<Longrightarrow> unat n \<le> 1024 \<Longrightarrow> unat n \<le> length p \<Longrightarrow>
   protocol_send_packet E c q (Some p) n s = Some (reply c q (take (unat n) p) s)"
  by (simp add: protocol_send_packet_eq reply_def)

lemma protocol_send_short_reply [mem_simps]:
  assumes "protocol_inv s"
  shows "protocol_send_ack E q s = Some (reply (cmd_code CMD_ACK) q [0] s)"
    and "protocol_send_nack E q e s = Some (reply (cmd_code CMD_NACK) q [err_code e] s)"
  using assms by (simp_all add: protocol_send_ack_def protocol_send_nack_def protocol_send_packet_reply)

lemma reply_fields [simp]:
  "s_ota (reply c q p s) = s_ota s" "s_actual_sha256 (reply c q p s) = s_actual_sha256 s"
  "s_auth (reply c q p t) = s_auth t"
  by (simp_all add: reply_def send_frame_def protocol_set_uart_port_def protocol_set_writer_def Let_def)

lemma trace_reply [simp]:
  "trace (reply c q p s) = tx_call s (wire (Msg PROTOCOL_VERSION c q p)) # trace s"
  by (simp add: reply_def)

lemma tx_call_update [simp]:
  "tx_call (s\<lparr>s_auth := a\<rparr>) f = tx_call s f" "tx_call (t\<lparr>trace := cs\<rparr>) f = tx_call t f"
  by (simp_all add: tx_call_def split: option.split writer_t.split)

lemma tx_call_not_ota [simp]:
  "open_handle (tx_call s f # cs) = open_handle cs" "handles_ok (tx_call s f # cs) = handles_ok cs"
  "staged (tx_call s f # cs) = staged cs"
  by (simp_all add: tx_call_def split: option.split writer_t.split)

lemma ota_inv_reply [simp]:
  "ota_inv (reply c q p s) = ota_inv s" "ota_image_inv (reply c q p s) = ota_image_inv s"
  by (simp_all add: ota_inv_def ota_image_inv_def del: open_handle.simps handles_ok.simps staged.simps)

lemma protocol_inv_reply [simp]: "protocol_inv s \<Longrightarrow> length p \<le> 1024 \<Longrightarrow> protocol_inv (reply c q p s)"
  by (simp add: reply_def protocol_inv_send_frame wire_simps)

lemma dev_inv_reply [simp]: "dev_inv E s \<Longrightarrow> length p \<le> 1024 \<Longrightarrow> dev_inv E (reply c q p s)"
  by (simp add: dev_inv_def)

lemma protocol_inv_s_auth [simp]:
  "protocol_inv (s\<lparr>s_auth := a\<rparr>) = protocol_inv s" "ota_inv (s\<lparr>s_auth := a\<rparr>) = ota_inv s"
  "ota_image_inv (s\<lparr>s_auth := a\<rparr>) = ota_image_inv s"
  by (simp_all add: protocol_inv_def ota_inv_def ota_image_inv_def)

lemma inv_fill_random [simp]:
  "protocol_inv (s\<lparr>trace := Esp_fill_random n # trace s\<rparr>) = protocol_inv s"
  "ota_inv (s\<lparr>trace := Esp_fill_random n # trace s\<rparr>) = ota_inv s"
  "ota_image_inv (s\<lparr>trace := Esp_fill_random n # trace s\<rparr>) = ota_image_inv s"
  by (simp_all add: protocol_inv_def ota_inv_def ota_image_inv_def)

section \<open>The handshake\<close>

definition new_nonce :: "esp_idf \<Rightarrow> call list \<Rightarrow> bytes" where
  "new_nonce E cs = map (esp_fill_random E cs) [0..<AUTH_NONCE_SIZE]"

definition challenged :: "esp_idf \<Rightarrow> bytes \<Rightarrow> bytes \<Rightarrow> auth_state_t \<Rightarrow> auth_state_t" where
  "challenged E cn sn a = a\<lparr>client_nonce := cn, server_nonce := sn,
     session_key := session_key_for E (current_key a) cn sn, auth_pending := True,
     authenticated := False, replay_cache := replicate 8 zero_entry, next_replay_entry := 0\<rparr>"

lemma length_new_nonce [simp]: "length (new_nonce E cs) = 16"
  by (simp add: new_nonce_def)

lemma auth_challenge_eq:
  assumes "protocol_inv s" "auth_inv E (s_auth s)" "packet_inv k"
  shows "auth_challenge E k s =
    (let cn = take 16 (pkt_payload k); sn = new_nonce E (trace s) in
     Some (ERR_OK, reply (cmd_code CMD_ACK) (pkt_sequence k)
       (0 # sn @ device_proof_for E (current_key (s_auth s)) cn sn)
       (s\<lparr>trace := Esp_fill_random 16 # trace s, s_auth := challenged E cn sn (s_auth s)\<rparr>)))"
proof -
  define a where "a = s_auth s"
  define cn where "cn = take 16 (pkt_payload k)"
  define sn where "sn = new_nonce E (trace s)"
  define dp where "dp = hmac E (current_key a) (AUTH_DEVICE_PROOF_PREFIX @ cn @ sn)"
  have l: "length cn = 16" "length sn = 16" "length (client_nonce a) = 16" "length (server_nonce a) = 16"
    "length (session_key a) = 32" "auth_key_len a \<le> length (auth_key a)"
    "16 \<le> length (pkt_payload k)"
    using assms by (auto simp: auth_inv_def a_def cn_def sn_def packet_inv_def)
  have r: "blit (blit (blit (local_array (uninit E) 33) 0 [0]) 1 sn) 17 (take 16 dp) = 0 # sn @ take 16 dp"
    using l by (simp add: blit_blit_at blit_full dp_def)
  show ?thesis
    unfolding auth_challenge_def Let_def new_nonce_def [symmetric] a_def [symmetric] cn_def [symmetric]
      sn_def [symmetric]
    using assms(1) l r
    by (simp add: load_Some store_Some blit_full hmac_prefixed_nonce_pair_eq emit_def
        protocol_send_packet_reply challenged_def clear_replay_cache_def session_key_for_def
        device_proof_for_def current_key_def dp_def a_def [symmetric] sn_def [symmetric] new_nonce_def [symmetric]
        cn_def [symmetric])
qed

lemma take_eq_append_iff:
  "n \<le> length xs \<Longrightarrow> take (n + m) xs = ys @ zs \<and> length ys = n \<longleftrightarrow>
   take n xs = ys \<and> take m (drop n xs) = zs"
  by (auto simp: take_add)

lemma auth_proof_eq:
  assumes "protocol_inv s" "auth_inv E (s_auth s)" "packet_inv k"
  shows "auth_proof E k s =
    (let a = s_auth s in
     if (auth_pending a \<or> authenticated a) \<and>
        accept_proof E (current_key a) (take 32 (pkt_payload k)) (client_nonce a) (server_nonce a)
     then Some (ERR_OK, reply (cmd_code CMD_ACK) (pkt_sequence k) [0]
                 (s\<lparr>s_auth := a\<lparr>auth_pending := False, authenticated := True\<rparr>\<rparr>))
     else Some (ERR_AUTH_REQUIRED, s))"
proof -
  define a where "a = s_auth s"
  have l: "length (client_nonce a) = 16" "length (server_nonce a) = 16"
    "auth_key_len a \<le> length (auth_key a)" "length (pkt_payload k) = 1024"
    using assms by (auto simp: auth_inv_def a_def packet_inv_def)
  have p: "accept_proof E (current_key a) (take 32 (pkt_payload k)) (client_nonce a) (server_nonce a) \<longleftrightarrow>
      take 16 (pkt_payload k) = client_nonce a \<and>
      take 16 (drop 16 (pkt_payload k)) = client_proof E (current_key a) (client_nonce a) (server_nonce a)"
    unfolding accept_proof_def
    using take_eq_append_iff [of 16 "pkt_payload k" 16 "client_nonce a"] l by simp
  show ?thesis
    using assms(1) l unfolding auth_proof_def Let_def a_def [symmetric] p
    by (auto simp: constant_time_equal_eq hmac_prefixed_nonce_pair_eq protocol_send_short_reply
        client_proof_def current_key_def)
qed

lemma current_key_update [simp]:
  "current_key (a\<lparr>auth_pending := x, authenticated := y\<rparr>) = current_key a"
  "current_key (challenged E cn sn a) = current_key a"
  by (simp_all add: current_key_def challenged_def)

lemma cache_inv_zero [simp]:
  "cache_inv (a\<lparr>replay_cache := replicate 8 zero_entry, next_replay_entry := 0\<rparr>)"
  by (simp add: cache_inv_def entry_inv_def zero_entry_def list_all_length)

lemma cache_inv_cong:
  "replay_cache a = replay_cache b \<Longrightarrow> next_replay_entry a = next_replay_entry b \<Longrightarrow>
   cache_inv a = cache_inv b"
  by (simp add: cache_inv_def)

lemma auth_inv_challenged:
  assumes "auth_inv E a" "auth_required a" "length cn = 16" "length sn = 16"
  shows "auth_inv E (challenged E cn sn a)"
proof -
  have "cache_inv (challenged E cn sn a)"
    using cache_inv_zero [of a] by (simp add: challenged_def cache_inv_def)
  with assms show ?thesis
    by (simp add: auth_inv_def challenged_def current_key_def)
qed

lemma auth_inv_opened:
  assumes "auth_inv E a" "auth_pending a \<or> authenticated a"
  shows "auth_inv E (a\<lparr>auth_pending := False, authenticated := True\<rparr>)"
  using assms by (auto simp: auth_inv_def cache_inv_def current_key_def)

lemma dev_inv_challenged:
  assumes "dev_inv E s" "auth_required (s_auth s)" "packet_inv k"
  shows "dev_inv E (s\<lparr>trace := Esp_fill_random 16 # trace s,
    s_auth := challenged E (take 16 (pkt_payload k)) (new_nonce E (trace s)) (s_auth s)\<rparr>)"
  using assms by (simp add: dev_inv_def auth_inv_challenged packet_inv_def protocol_inv_def ota_inv_def)

lemma length_pkt_bytes: "packet_inv k \<Longrightarrow>
   length (take (unat (pkt_length k)) (pkt_payload k)) = unat (pkt_length k)"
  by (simp add: packet_inv_def)

text \<open>The handshake refines \<open>session_step\<close> and keeps the invariant.\<close>

lemma auth_handle_packet_refines:
  assumes "dev_inv E s" "packet_inv k" "auth_required (s_auth s)"
  shows "ensures (auth_handle_packet E k s)
    (\<lambda>r s'. (r, session_of (s_auth s')) = session_step E (current_key (s_auth s))
         (new_nonce E (trace s)) (take (unat (pkt_length k)) (pkt_payload k)) (session_of (s_auth s)) \<and>
       dev_inv E s' \<and> current_key (s_auth s') = current_key (s_auth s) \<and>
       auth_required (s_auth s'))"
proof -
  note i = assms(1) [unfolded dev_inv_def, THEN conjunct1]
    assms(1) [unfolded dev_inv_def, THEN conjunct2, THEN conjunct2] assms(2)
  consider "unat (pkt_length k) = 16" | "unat (pkt_length k) = 32"
    | "unat (pkt_length k) \<noteq> 16" "unat (pkt_length k) \<noteq> 32" by blast
  then show ?thesis
  proof cases
    case 1
    then show ?thesis
      using assms dev_inv_challenged [OF assms(1,3,2)] length_pkt_bytes [OF assms(2)]
      by (simp add: auth_handle_packet_def auth_challenge_eq [OF i] Let_def)
         (simp add: session_of_def challenged_def)
  next
    case 2
    have "dev_inv E (s\<lparr>s_auth := (s_auth s)\<lparr>auth_pending := False, authenticated := True\<rparr>\<rparr>)"
      if "auth_pending (s_auth s) \<or> authenticated (s_auth s)"
      using that assms(1) by (auto simp: dev_inv_def auth_inv_opened)
    with 2 show ?thesis
      using assms length_pkt_bytes [OF assms(2)]
      by (auto simp: auth_handle_packet_def auth_proof_eq [OF i] Let_def session_of_def)
  next
    case 3
    then show ?thesis
      using assms length_pkt_bytes [OF assms(2)] by (simp add: auth_handle_packet_def)
  qed
qed

section \<open>Requests\<close>

lemma auth_unwrap_packet_eq:
  assumes "auth_inv E (s_auth s)" "packet_inv k"
  shows "auth_unwrap_packet E k s =
    (let a = s_auth s; n = unat (pkt_length k); p = pkt_payload k in
     if \<not> auth_required a \<or> \<not> auth_command_is_protected (pkt_command k) then Some (ERR_OK, p, pkt_length k)
     else if authenticated a \<and> 16 \<le> n \<and> take 16 (drop (n - 16) p) =
         request_tag E (session_key a) (pkt_command k) (pkt_sequence k) (take (n - 16) p)
     then Some (ERR_OK, p, pkt_length k - 16)
     else Some (ERR_AUTH_REQUIRED, p, pkt_length k))"
proof -
  have l: "length (session_key (s_auth s)) = 32" "length (pkt_payload k) = 1024" "unat (pkt_length k) \<le> 1024"
    using assms by (auto simp: auth_inv_def packet_inv_def)
  have u: "unat (pkt_length k - 16) = unat (pkt_length k) - 16" if "16 \<le> unat (pkt_length k)"
    using that by (simp add: unat_sub word_le_nat_alt)
  show ?thesis
    using l u unfolding auth_unwrap_packet_def Let_def
    by (auto simp: compute_packet_tag_eq constant_time_equal_eq request_tag_def not_less)
qed

section \<open>The window of recent responses\<close>

text \<open>What a client of a bounded cache of responses may rely on: inserting puts an entry in front
  and drops the oldest one; a lookup finds an entry with the key if there is one.\<close>

locale response_window =
  fixes insert :: "'e \<Rightarrow> 'c \<Rightarrow> 'c"
    and lookup :: "'k \<Rightarrow> 'c \<Rightarrow> 'e option"
    and contents :: "'c \<Rightarrow> 'e option list"
    and key :: "'e \<Rightarrow> 'k"
    and inv :: "'c \<Rightarrow> bool"
    and ok :: "'e \<Rightarrow> bool"
    and size :: nat
  assumes insert_inv: "inv c \<Longrightarrow> ok e \<Longrightarrow> inv (insert e c)"
    and insert_contents: "inv c \<Longrightarrow> ok e \<Longrightarrow> contents (insert e c) = take size (Some e # contents c)"
    and lookup_sound: "inv c \<Longrightarrow> lookup k c = Some e \<Longrightarrow> Some e \<in> set (contents c) \<and> key e = k"
    and lookup_complete: "inv c \<Longrightarrow> lookup k c = None \<Longrightarrow> Some e \<in> set (contents c) \<Longrightarrow> key e \<noteq> k"
    and length_contents: "inv c \<Longrightarrow> length (contents c) = size"
begin

lemma inserts_inv: "inv c \<Longrightarrow> (\<And>e. e \<in> set es \<Longrightarrow> ok e) \<Longrightarrow> inv (fold insert es c)"
  by (induction es arbitrary: c) (simp_all add: insert_inv)

lemma inserts_contents:
  "inv c \<Longrightarrow> (\<And>e. e \<in> set es \<Longrightarrow> ok e) \<Longrightarrow>
   contents (fold insert es c) = take size (rev (map Some es) @ contents c)"
proof (induction es arbitrary: c)
  case (Cons e es)
  then show ?case
    by (simp add: insert_inv insert_contents take_append min_def)
qed (simp add: length_contents)

lemma lookup_None: "inv c \<Longrightarrow> (\<And>e. Some e \<in> set (contents c) \<Longrightarrow> key e \<noteq> k) \<Longrightarrow> lookup k c = None"
  using lookup_sound by (metis not_Some_eq)

lemma lookup_insert_other:
  assumes "inv c" "ok e" "lookup k c = None" "key e \<noteq> k"
  shows "lookup k (insert e c) = None"
proof (rule lookup_None)
  fix e' assume "Some e' \<in> set (contents (insert e c))"
  then have "Some e' \<in> set (Some e # contents c)"
    unfolding insert_contents [OF assms(1,2)] by (rule in_set_takeD)
  then show "key e' \<noteq> k"
    using assms(4) lookup_complete [OF assms(1,3)] by auto
qed (simp add: assms insert_inv)

text \<open>\<open>size\<close> insertions push out everything that was there.\<close>

lemma evicted:
  assumes "inv c" "\<And>e. e \<in> set es \<Longrightarrow> ok e \<and> key e \<noteq> k" "size \<le> length es"
  shows "lookup k (fold insert es c) = None"
proof (rule lookup_None)
  fix e assume "Some e \<in> set (contents (fold insert es c))"
  then have "e \<in> set es"
    using assms inserts_contents [of c es] by (auto dest!: in_set_takeD)
  then show "key e \<noteq> k" using assms(2) by blast
qed (use assms inserts_inv in auto)

text \<open>An entry survives fewer than \<open>size\<close> insertions with other keys.\<close>

lemma retained:
  assumes "inv c" "ok e" "lookup (key e) c = None" "length es < size"
    and es: "\<And>e'. e' \<in> set es \<Longrightarrow> ok e' \<and> key e' \<noteq> key e"
  shows "lookup (key e) (fold insert es (insert e c)) = Some e"
proof -
  let ?c = "fold insert es (insert e c)"
  have inv: "inv ?c" using assms by (simp add: inserts_inv insert_inv)
  have ct: "contents ?c = take size (rev (map Some es) @ Some e # contents c)"
    using inserts_contents [of c "e # es"] assms by auto
  have "Some e \<in> set (contents ?c)"
    using assms(4) unfolding ct by (auto simp: take_append take_Cons' Suc_diff_Suc)
  moreover have "e' = e" if "Some e' \<in> set (contents ?c)" "key e' = key e" for e'
  proof -
    have "Some e' \<in> set (rev (map Some es) @ Some e # contents c)"
      using that(1) unfolding ct by (rule in_set_takeD)
    then show ?thesis
      using that(2) es lookup_complete [OF assms(1,3)] by auto
  qed
  ultimately show ?thesis
    using lookup_sound [OF inv] lookup_complete [OF inv] by (metis not_Some_eq)
qed

end

text \<open>The ring of \<open>auth_state_t\<close>.  \<open>Cached\<close> is an entry without the bytes after its response.\<close>

datatype cached = Cached (cached_key: "u8 \<times> u16") (cached_digest: bytes) (cached_response: "u8 \<times> bytes")

definition entry_of :: "auth_replay_entry_t \<Rightarrow> cached option" where
  "entry_of e = (if entry_valid e
     then Some (Cached (request_command e, entry_sequence e) (request_digest e)
            (response_command e, take (unat (response_length e)) (response_payload e)))
     else None)"

definition cache_contents :: "auth_state_t \<Rightarrow> cached option list" where
  "cache_contents a = map entry_of (rev (rotate (next_replay_entry a) (replay_cache a)))"

definition cache_lookup :: "u8 \<times> u16 \<Rightarrow> auth_state_t \<Rightarrow> cached option" where
  "cache_lookup key a = List.find (\<lambda>e. cached_key e = key) (List.map_filter entry_of (replay_cache a))"

definition cached_ok :: "cached \<Rightarrow> bool" where
  "cached_ok e \<longleftrightarrow> length (cached_digest e) = SHA256_SIZE \<and>
     length (snd (cached_response e)) \<le> PROTOCOL_MAX_PAYLOAD"

definition cache_insert :: "cached \<Rightarrow> auth_state_t \<Rightarrow> auth_state_t" where
  "cache_insert e a = (let i = next_replay_entry a; old = replay_cache a ! i in
     a\<lparr>replay_cache := (replay_cache a)[i := old\<lparr>entry_valid := True,
         request_command := fst (cached_key e), entry_sequence := snd (cached_key e),
         request_digest := cached_digest e, response_command := fst (cached_response e),
         response_length := of_nat (length (snd (cached_response e))),
         response_payload := blit (response_payload old) 0 (snd (cached_response e))\<rparr>],
       next_replay_entry := (i + 1) mod 8\<rparr>)"

lemma cache_slot_inv: "cache_inv a \<Longrightarrow> i < 8 \<Longrightarrow> entry_inv (replay_cache a ! i)"
  by (simp add: cache_inv_def list_all_length)

lemma cached_length_unat [simp]:
  "cached_ok e \<Longrightarrow> unat (of_nat (length (snd (cached_response e))) :: u16) = length (snd (cached_response e))"
  by (auto simp: cached_ok_def unat_of_nat intro!: mod_less)

lemma cache_insert_inv: "cache_inv a \<Longrightarrow> cached_ok e \<Longrightarrow> cache_inv (cache_insert e a)"
proof -
  assume a: "cache_inv a" and e: "cached_ok e"
  then have "entry_inv (replay_cache a ! next_replay_entry a)"
    by (intro cache_slot_inv) (simp_all add: cache_inv_def)
  with a e show ?thesis
    using cached_length_unat [OF e]
    by (auto simp: cache_inv_def cache_insert_def entry_inv_def cached_ok_def list_all_length nth_list_update Let_def)
qed

lemma rotate_insert:
  "length xs = N \<Longrightarrow> i < N \<Longrightarrow> rotate (Suc i mod N) (xs[i := x]) = tl (rotate i xs) @ [x]"
proof (cases "Suc i = N")
  case True
  moreover assume "length xs = N" "i < N"
  moreover from this have "drop i xs = [xs ! i]"
    using True Cons_nth_drop_Suc [of i xs] by simp
  ultimately show ?thesis
    by (auto simp: rotate_drop_take upd_conv_take_nth_drop)
next
  case False
  moreover assume "length xs = N" "i < N"
  moreover from this have "drop i xs = xs ! i # drop (Suc i) xs"
    by (simp add: Cons_nth_drop_Suc)
  ultimately show ?thesis
    by (simp add: rotate_drop_take take_Suc_conv_app_nth)
qed

lemma cache_insert_contents:
  assumes "cache_inv a" "cached_ok e"
  shows "cache_contents (cache_insert e a) = take 8 (Some e # cache_contents a)"
proof -
  let ?xs = "replay_cache a" and ?i = "next_replay_entry a"
  have l: "length ?xs = 8" "?i < 8" using assms(1) by (auto simp: cache_inv_def)
  have "entry_inv (?xs ! ?i)" using assms(1) l by (simp add: cache_slot_inv)
  then have pl: "length (snd (cached_response e)) \<le> length (response_payload (?xs ! ?i))"
    using assms(2) by (simp add: entry_inv_def cached_ok_def)
  show ?thesis
    using rotate_insert [OF l] l pl cached_length_unat [OF assms(2)]
    by (simp add: cache_contents_def cache_insert_def Let_def entry_of_def take_blit_0 rev_map take_map
        butlast_rev [symmetric] butlast_conv_take take_Cons')
qed

lemma cache_lookup_sound:
  assumes "cache_lookup key a = Some e"
  shows "Some e \<in> set (cache_contents a) \<and> cached_key e = key"
proof -
  have "e \<in> set (List.map_filter entry_of (replay_cache a)) \<and> cached_key e = key"
    using assms by (auto simp: cache_lookup_def find_Some_iff)
  then show ?thesis
    by (force simp: cache_contents_def List.map_filter_def)
qed

lemma cache_lookup_complete:
  assumes "cache_lookup key a = None" "Some e \<in> set (cache_contents a)"
  shows "cached_key e \<noteq> key"
proof -
  obtain x where "x \<in> set (replay_cache a)" "entry_of x = Some e"
    using assms(2) by (auto simp: cache_contents_def image_iff)
  then have "e \<in> set (List.map_filter entry_of (replay_cache a))"
    by (force simp: List.map_filter_def image_iff)
  then show ?thesis
    using assms(1) by (auto simp: cache_lookup_def find_None_iff)
qed

interpretation ring: response_window cache_insert cache_lookup cache_contents cached_key cache_inv
  cached_ok 8
  by unfold_locales
     (auto simp: cache_insert_inv cache_insert_contents cache_lookup_complete dest: cache_lookup_sound,
      simp add: cache_contents_def cache_inv_def)

section \<open>Replay check and responses\<close>

lemma entry_of_key:
  "entry_of e = Some c \<Longrightarrow> entry_inv e \<Longrightarrow>
   entry_valid e \<and> cached_key c = (request_command e, entry_sequence e) \<and>
   cached_digest c = request_digest e \<and> fst (cached_response c) = response_command e \<and>
   snd (cached_response c) = take (unat (response_length e)) (response_payload e)"
  by (auto simp: entry_of_def split: if_splits)

lemma check_replay_loop_eq:
  assumes "protocol_inv s" "cache_inv (s_auth s)" "length d = 32" "\<And>i. i \<in> set is \<Longrightarrow> i < 8"
  shows "check_replay_loop E k d is s =
    (case List.find (\<lambda>e. cached_key e = (pkt_command k, pkt_sequence k))
            (List.map_filter entry_of (map ((!) (replay_cache (s_auth s))) is)) of
       None \<Rightarrow> Some ((ERR_OK, False), s)
     | Some e \<Rightarrow> if cached_digest e = d
         then Some ((ERR_OK, True), reply (fst (cached_response e)) (pkt_sequence k) (snd (cached_response e)) s)
         else Some ((ERR_AUTH_REQUIRED, False), s))"
  using assms(4)
proof (induction "is")
  case (Cons i "is")
  let ?e = "replay_cache (s_auth s) ! i"
  have i: "i < 8" using Cons.prems by simp
  have e: "entry_inv ?e" using assms(2) i by (rule cache_slot_inv)
  have ld: "load8 (replay_cache (s_auth s)) i = Some ?e"
    using assms(2) i by (simp add: cache_inv_def load8_Some)
  from e assms(1,3) Cons show ?case
    by (auto simp: ld List.map_filter_simps entry_of_def entry_inv_def constant_time_equal_eq
        protocol_send_packet_reply)
qed (simp add: List.map_filter_simps)

definition protected_session :: "'a auth_dev_scheme \<Rightarrow> u8 \<Rightarrow> bool" where
  "protected_session s c \<longleftrightarrow>
     auth_required (s_auth s) \<and> authenticated (s_auth s) \<and> auth_command_is_protected c"

lemma auth_check_replay_eq:
  assumes "protocol_inv s" "auth_inv E (s_auth s)" "packet_inv k"
  shows "auth_check_replay E k s =
    (if \<not> auth_required (s_auth s) \<or> \<not> auth_command_is_protected (pkt_command k) then Some ((ERR_OK, False), s)
     else if \<not> authenticated (s_auth s) then Some ((ERR_AUTH_REQUIRED, False), s)
     else case cache_lookup (pkt_command k, pkt_sequence k) (s_auth s) of
       None \<Rightarrow> Some ((ERR_OK, False), s)
     | Some e \<Rightarrow> if cached_digest e = packet_digest E k
         then Some ((ERR_OK, True), reply (fst (cached_response e)) (pkt_sequence k) (snd (cached_response e)) s)
         else Some ((ERR_AUTH_REQUIRED, False), s))"
proof -
  have c: "cache_inv (s_auth s)" using assms(2) by (simp add: auth_inv_def)
  then have "map ((!) (replay_cache (s_auth s))) [0..<8] = replay_cache (s_auth s)"
    by (metis cache_inv_def map_nth)
  then show ?thesis
    unfolding auth_check_replay_def cache_lookup_def
    using check_replay_loop_eq [OF assms(1) c, of "packet_digest E k" "[0..<8]" E k] assms(3)
    by (simp add: compute_request_digest_eq del: upt_rec_numeral)
qed

text \<open>The state after the answer to a request.\<close>

definition answer ::
  "esp_idf \<Rightarrow> protocol_packet_t \<Rightarrow> u8 \<Rightarrow> bytes \<Rightarrow> 'a auth_dev_scheme \<Rightarrow> 'a auth_dev_scheme" where
  "answer E k c p s =
    (if protected_session s (pkt_command k) then
       let r = p @ response_tag E (session_key (s_auth s)) (pkt_command k) c (pkt_sequence k) p in
       reply c (pkt_sequence k) r
         (s\<lparr>s_auth := cache_insert
             (Cached (pkt_command k, pkt_sequence k) (packet_digest E k) (c, r)) (s_auth s)\<rparr>)
     else reply c (pkt_sequence k) p s)"

definition answer_payload ::
  "esp_idf \<Rightarrow> protocol_packet_t \<Rightarrow> u8 \<Rightarrow> bytes \<Rightarrow> 'a auth_dev_scheme \<Rightarrow> bytes" where
  "answer_payload E k c p s =
    (if protected_session s (pkt_command k)
     then p @ response_tag E (session_key (s_auth s)) (pkt_command k) c (pkt_sequence k) p else p)"

lemma store_replay_entry_eq:
  assumes "cache_inv a" "length d = 32" "unat n \<le> 1024" "unat n \<le> length buf"
  shows "store_replay_entry k d c buf n a =
    Some (cache_insert (Cached (pkt_command k, pkt_sequence k) d (c, take (unat n) buf)) a)"
proof -
  have i: "next_replay_entry a < length (replay_cache a)" using assms(1) by (simp add: cache_inv_def)
  have "entry_inv (replay_cache a ! next_replay_entry a)"
    using assms(1) by (intro cache_slot_inv) (simp_all add: cache_inv_def)
  with i assms show ?thesis
    by (simp add: store_replay_entry_def cache_insert_def load8_Some load_Some store_Some blit_full
        entry_inv_def Let_def)
qed

lemma auth_send_response_eq:
  assumes "protocol_inv s" "auth_inv E (s_auth s)" "packet_inv k"
    and n: "unat n \<le> 1008" "length p = unat n"
  shows "auth_send_response E k c (Some p) n s = Some (answer E k c p s)"
proof -
  let ?j = "local_array (uninit E) 1024"
  have buf: "(if n > 0 then do { xs \<leftarrow> load p 0 (unat n); store ?j 0 xs } else Some ?j) = Some (blit ?j 0 p)"
    using n by (auto simp: load_Some store_Some word_gt_0 unat_eq_zero)
  have u: "unat (n + 16) = unat n + 16" using unat_u16_add_nat [of n 16] n by simp
  have bb: "blit (blit ?j 0 p) (unat n) t = blit ?j 0 (p @ t)" if "length t = 16" for t
    using n that by (simp add: blit_blit_at)
  have tk: "take (unat n + 16) (blit ?j 0 (p @ t)) = p @ t" if "length t = 16" for t
    using n that by (simp add: take_blit_0)
  have tk0: "take (unat n) (blit ?j 0 p) = p"
    using n by (simp add: take_blit_0)
  have a: "cache_inv (s_auth s)" "length (session_key (s_auth s)) = 32"
    using assms(2) by (simp_all add: auth_inv_def)
  have ln: "length (blit ?j 0 p) = 1024" "length t = 16 \<Longrightarrow> length (blit ?j 0 (p @ t)) = 1024" for t
    using n by simp_all
  show ?thesis
    unfolding auth_send_response_def Let_def option.case buf bind.bind_lunit
    using assms(1,3) n a u bb tk tk0 ln
    by (simp add: compute_response_tag_eq load_Some store_Some compute_request_digest_eq
        store_replay_entry_eq protocol_send_packet_reply answer_def protected_session_def response_tag_def
        Let_def)
qed

lemma auth_send_response_long:
  assumes "protocol_inv s" "1008 < unat n" "unat n \<le> 1024" "length p = unat n"
  shows "auth_send_response E k c (Some p) n s =
    Some (if protected_session s (pkt_command k)
          then reply (cmd_code CMD_NACK) (pkt_sequence k) [err_code ERR_INVALID_LENGTH] s
          else reply c (pkt_sequence k) p s)"
proof -
  let ?j = "local_array (uninit E) 1024"
  have buf: "(if n > 0 then do { xs \<leftarrow> load p 0 (unat n); store ?j 0 xs } else Some ?j) = Some (blit ?j 0 p)"
    using assms by (auto simp: load_Some store_Some word_gt_0 unat_eq_zero)
  show ?thesis
    unfolding auth_send_response_def Let_def option.case buf bind.bind_lunit
    using assms by (simp add: protocol_send_short_reply protocol_send_packet_reply protected_session_def
        take_blit_0)
qed

lemma auth_send_response_overrun:
  assumes "1024 < unat n"
  shows "auth_send_response E k c (Some p) n s = None"
proof -
  have "(if n > 0 then do { xs \<leftarrow> load p 0 (unat n); store (local_array (uninit E) 1024) 0 xs }
      else Some (local_array (uninit E) 1024)) = None"
    using assms by (auto simp: load_def store_def word_gt_0)
  then show ?thesis unfolding auth_send_response_def Let_def option.case by simp
qed

lemma auth_send_short_eq [mem_simps]:
  assumes "dev_inv E s" "packet_inv k"
  shows "auth_send_ack E k s = Some (answer E k (cmd_code CMD_ACK) [0] s)"
    and "auth_send_nack E k e s = Some (answer E k (cmd_code CMD_NACK) [err_code e] s)"
  using assms by (simp_all add: auth_send_ack_def auth_send_nack_def auth_send_response_eq dev_inv_def)

lemma cache_insert_fields [simp]:
  "auth_required (cache_insert e a) = auth_required a" "auth_pending (cache_insert e a) = auth_pending a"
  "authenticated (cache_insert e a) = authenticated a" "session_key (cache_insert e a) = session_key a"
  "auth_key (cache_insert e a) = auth_key a" "auth_key_len (cache_insert e a) = auth_key_len a"
  "client_nonce (cache_insert e a) = client_nonce a" "server_nonce (cache_insert e a) = server_nonce a"
  "current_key (cache_insert e a) = current_key a"
  by (simp_all add: cache_insert_def Let_def current_key_def)

lemma auth_inv_cache_insert: "auth_inv E a \<Longrightarrow> cached_ok e \<Longrightarrow> auth_inv E (cache_insert e a)"
  by (auto simp: auth_inv_def cache_insert_inv)

lemma dev_inv_answer:
  assumes "dev_inv E s" "length p \<le> 1008"
  shows "dev_inv E (answer E k c p s)"
  using assms
  by (simp add: answer_def Let_def dev_inv_def auth_inv_cache_insert cached_ok_def)

lemma answer_fields [simp]:
  "s_ota (answer E k c p s) = s_ota s" "s_actual_sha256 (answer E k c p s) = s_actual_sha256 s"
  "auth_required (s_auth (answer E k c p s)) = auth_required (s_auth s)"
  "authenticated (s_auth (answer E k c p s)) = authenticated (s_auth s)"
  "session_key (s_auth (answer E k c p s)) = session_key (s_auth s)"
  "protected_session (answer E k c p s) = protected_session s"
  by (simp_all add: answer_def Let_def protected_session_def fun_eq_iff)

lemma ota_image_inv_answer [simp]:
  "ota_inv (answer E k c p s) = ota_inv s" "ota_image_inv (answer E k c p s) = ota_image_inv s"
  by (simp_all add: answer_def Let_def)

lemma trace_answer [simp]:
  "trace (answer E k c p s) =
    tx_call s (wire (Msg PROTOCOL_VERSION c (pkt_sequence k) (answer_payload E k c p s))) # trace s"
  by (simp add: answer_def Let_def answer_payload_def)

lemma auth_configure_inv:
  assumes "protocol_inv s" "ota_inv s" "case key of None \<Rightarrow> True | Some k \<Rightarrow> n \<le> 64 \<longrightarrow> n \<le> length k"
  shows "\<exists>s'. auth_configure key n req s = Some s' \<and> dev_inv E s' \<and>
    session_of (s_auth s') = Closed \<and> s' = s\<lparr>s_auth := s_auth s'\<rparr> \<and>
    (auth_required (s_auth s') \<longleftrightarrow> req \<and> key \<noteq> None \<and> 0 < n \<and> n \<le> 64)"
proof -
  have z: "auth_inv E (zero_auth\<lparr>auth_key := kk, auth_key_len := n, auth_required := req\<rparr>)"
    if "length kk = 64" "0 < n" "n \<le> 64" for kk
    using that cache_inv_zero [of zero_auth] by (simp add: auth_inv_def cache_inv_def zero_auth_def)
  have z0: "auth_inv E zero_auth"
    using cache_inv_zero [of zero_auth] by (simp add: auth_inv_def cache_inv_def zero_auth_def)
  have c: "session_of zero_auth = Closed" "\<not> auth_required zero_auth" "length (auth_key zero_auth) = 64"
    "session_of (zero_auth\<lparr>auth_key := kk, auth_key_len := n, auth_required := req\<rparr>) = Closed" for kk
    by (simp_all add: session_of_def zero_auth_def)
  show ?thesis
  proof (cases "key \<noteq> None \<and> 0 < n \<and> n \<le> 64")
    case True
    then obtain k where k: "key = Some k" "n \<le> length k" using assms(3) by auto
    then show ?thesis
      using True assms z c by (simp add: auth_configure_def Let_def dev_inv_def load_Some store_Some)
  next
    case False
    then show ?thesis
      using assms z0 c by (auto simp: auth_configure_def Let_def dev_inv_def split: option.splits)
  qed
qed

text \<open>A response to a request other than \<open>key\<close>: request, command, payload, length.\<close>

fun response_ok :: "u8 \<times> u16 \<Rightarrow> protocol_packet_t \<times> u8 \<times> bytes \<times> u16 \<Rightarrow> bool" where
  "response_ok key (k, c, p, n) \<longleftrightarrow> packet_inv k \<and> unat n \<le> 1008 \<and> length p = unat n \<and>
     (pkt_command k, pkt_sequence k) \<noteq> key"

text \<open>After any list of responses the cache is the old one with some of them inserted.\<close>

lemma responses_insert:
  assumes "dev_inv E s"
    and "\<forall>r\<in>set rs. response_ok key r"
  shows "\<exists>s' es. for_each (\<lambda>(k, c, p, n). auth_send_response E k c (Some p) n) rs s = Some s' \<and>
    dev_inv E s' \<and> length es \<le> length rs \<and> s_auth s' = fold cache_insert es (s_auth s) \<and>
    (\<forall>e\<in>set es. cached_ok e \<and> cached_key e \<noteq> key) \<and> protected_session s' = protected_session s"
  using assms
proof (induction rs arbitrary: s)
  case Nil
  then show ?case by (auto intro: exI [of _ "[]"])
next
  case (Cons r rs)
  obtain k c p n where r: "r = (k, c, p, n)" by (cases r)
  have k: "packet_inv k" "unat n \<le> 1008" "length p = unat n" "(pkt_command k, pkt_sequence k) \<noteq> key"
    using Cons.prems(2) r by auto
  let ?s = "answer E k c p s"
  have s: "auth_send_response E k c (Some p) n s = Some ?s" "dev_inv E ?s"
    using Cons.prems(1) k by (simp_all add: dev_inv_answer) (simp add: auth_send_response_eq dev_inv_def)
  obtain s' es where IH: "for_each (\<lambda>(k, c, p, n). auth_send_response E k c (Some p) n) rs ?s = Some s'"
    "dev_inv E s'" "length es \<le> length rs" "s_auth s' = fold cache_insert es (s_auth ?s)"
    "\<forall>e\<in>set es. cached_ok e \<and> cached_key e \<noteq> key" "protected_session s' = protected_session s"
    using Cons.IH [OF s(2)] Cons.prems(2) by auto
  show ?case
  proof (cases "protected_session s (pkt_command k)")
    case True
    then obtain e where "s_auth ?s = cache_insert e (s_auth s)" "cached_ok e" "cached_key e \<noteq> key"
      using k by (auto simp: answer_def Let_def cached_ok_def)
    then show ?thesis
      using IH s(1) r by (auto intro!: exI [of _ "e # es"])
  next
    case False
    then have "s_auth ?s = s_auth s" by (simp add: answer_def)
    then show ?thesis
      using IH s(1) r by (auto intro!: exI [of _ es])
  qed
qed

section \<open>Runs of the handshake\<close>

definition pkt_bytes :: "protocol_packet_t \<Rightarrow> bytes" where
  "pkt_bytes k = take (unat (pkt_length k)) (pkt_payload k)"

lemma auth_handle_packet_log:
  assumes "dev_inv E s" "packet_inv k" "auth_handle_packet E k s = Some (r, s')"
  shows "extends (trace s') (trace s)"
    and "auth_required (s_auth s) \<Longrightarrow> length (pkt_bytes k) = 16 \<Longrightarrow>
      extends (trace s') (Esp_fill_random 16 # trace s)"
proof -
  note i = assms(1) [unfolded dev_inv_def, THEN conjunct1]
    assms(1) [unfolded dev_inv_def, THEN conjunct2, THEN conjunct2] assms(2)
  show "extends (trace s') (trace s)"
    using assms(3) by (auto simp: auth_handle_packet_def auth_challenge_eq [OF i] auth_proof_eq [OF i] Let_def
        split: if_splits)
  assume "auth_required (s_auth s)" "length (pkt_bytes k) = 16"
  then show "extends (trace s') (Esp_fill_random 16 # trace s)"
    using assms(3) length_pkt_bytes [OF assms(2)]
    by (auto simp: auth_handle_packet_def auth_challenge_eq [OF i] Let_def pkt_bytes_def)
qed

interpretation handshake: logging_machine "auth_handle_packet E"
  "\<lambda>s. dev_inv E s \<and> auth_required (s_auth s)" packet_inv trace
  for E :: esp_idf
proof (unfold_locales, goal_cases)
  case (1 s k)
  then show ?case
    using auth_handle_packet_refines [of E s k] by (auto intro: ensures_mono)
next
  case (2 s k r s')
  then show ?case using auth_handle_packet_log(1) by blast
qed

lemma session_step_opens:
  assumes "session_step E key fresh p sess = (r, Open cn sn)"
  shows "sess = Open cn sn \<or> sess = Challenged cn sn \<and> p = cn @ client_proof E key cn sn"
  using assms by (cases sess) (auto simp: accept_proof_def split: if_splits)

lemma session_step_challenges:
  assumes "session_step E key fresh p sess = (r, Challenged cn sn)"
  shows "sess = Challenged cn sn \<or> p = cn \<and> sn = fresh \<and> length p = 16"
  using assms by (cases sess) (auto split: if_splits)

text \<open>Where an open session comes from.\<close>

lemma handshake_origin:
  assumes "dev_inv E s" "auth_required (s_auth s)" "\<And>k. k \<in> set ks \<Longrightarrow> packet_inv k"
    "run_ops (auth_handle_packet E) s ks = Some (rs, s')" "session_of (s_auth s') = Open cn sn"
    "current_key (s_auth s) = key"
  shows "session_of (s_auth s) = Open cn sn \<or>
    (session_of (s_auth s) = Challenged cn sn \<and>
       (\<exists>k\<in>set ks. pkt_bytes k = cn @ client_proof E key cn sn)) \<or>
    (\<exists>as k1 bs k2 cs t. ks = as @ k1 # bs @ k2 # cs \<and> pkt_bytes k1 = cn \<and>
       pkt_bytes k2 = cn @ client_proof E key cn sn \<and> sn = new_nonce E t \<and>
       extends (trace s') (Esp_fill_random 16 # t))"
  using assms
proof (induction ks arbitrary: s rs)
  case (Cons k ks)
  obtain r s1 rs1 where st: "auth_handle_packet E k s = Some (r, s1)"
    and run: "run_ops (auth_handle_packet E) s1 ks = Some (rs1, s')"
    using Cons.prems(4) by (auto simp: bind_eq_Some)
  have k: "packet_inv k" using Cons.prems(3) by simp
  have sess: "session_step E key (new_nonce E (trace s)) (pkt_bytes k) (session_of (s_auth s)) =
      (r, session_of (s_auth s1))"
    and inv1: "dev_inv E s1" "auth_required (s_auth s1)" "current_key (s_auth s1) = key"
    using auth_handle_packet_refines [OF Cons.prems(1) k Cons.prems(2)] Cons.prems(6)
    by (simp_all add: st pkt_bytes_def)
  have log: "extends (trace s') (trace s1)"
    using handshake.run_log [OF conjI [OF inv1(1,2)] Cons.prems(3) run] by simp
  have ks: "\<And>k. k \<in> set ks \<Longrightarrow> packet_inv k" using Cons.prems(3) by simp
  from Cons.IH [OF inv1(1,2) ks run Cons.prems(5) inv1(3)]
  consider "session_of (s_auth s1) = Open cn sn"
    | k2 where "session_of (s_auth s1) = Challenged cn sn" "k2 \<in> set ks"
        "pkt_bytes k2 = cn @ client_proof E key cn sn"
    | as k1 bs k2 cs t where "ks = as @ k1 # bs @ k2 # cs" "pkt_bytes k1 = cn"
        "pkt_bytes k2 = cn @ client_proof E key cn sn" "sn = new_nonce E t"
        "extends (trace s') (Esp_fill_random 16 # t)"
    by blast
  then show ?case
  proof cases
    case 1
    then show ?thesis using session_step_opens [of E key] sess by (metis list.set_intros(1))
  next
    case 2
    then obtain bs cs where ks: "ks = bs @ k2 # cs" by (auto dest: split_list)
    consider "session_of (s_auth s) = Challenged cn sn"
      | "pkt_bytes k = cn" "sn = new_nonce E (trace s)" "length (pkt_bytes k) = 16"
      using session_step_challenges [of E key] sess 2(1) by metis
    then show ?thesis
    proof cases
      case 1
      then show ?thesis using 2 by auto
    next
      case 2
      then have "extends (trace s') (Esp_fill_random 16 # trace s)"
        using auth_handle_packet_log(2) [OF Cons.prems(1) k st Cons.prems(2)] log extends_trans by blast
      with 2 \<open>pkt_bytes k2 = _\<close> ks have "k # ks = [] @ k # bs @ k2 # cs \<and> pkt_bytes k = cn \<and>
          pkt_bytes k2 = cn @ client_proof E key cn sn \<and> sn = new_nonce E (trace s) \<and>
          extends (trace s') (Esp_fill_random 16 # trace s)" by simp
      then show ?thesis by blast
    qed
  next
    case 3
    then have "k # ks = (k # as) @ k1 # bs @ k2 # cs" by simp
    with 3 show ?thesis by blast
  qed
qed simp

section \<open>Concrete states\<close>

lemma zero_auth_inv:
  "auth_inv E (zero_auth\<lparr>auth_required := b, auth_key_len := 3\<rparr>)"
  using cache_inv_zero [of zero_auth] by (simp add: auth_inv_def cache_inv_def zero_auth_def)

lemma sample_locked_inv [simp]:
  "dev_inv E sample_locked" "auth_required (s_auth sample_locked)"
  "session_of (s_auth sample_locked) = Closed"
proof -
  have s: "s_auth sample_locked = zero_auth\<lparr>auth_required := True, auth_key_len := 3\<rparr>"
    by (simp add: sample_locked_def ota_dev.defs auth_dev.defs)
  show "auth_required (s_auth sample_locked)" "session_of (s_auth sample_locked) = Closed"
    by (simp_all add: s session_of_def zero_auth_def)
  have "protocol_inv sample_locked" "ota_inv sample_locked"
    by (simp_all add: sample_locked_def sample_idle_def ota_dev.defs protocol_inv_def ota_inv_def)
  then show "dev_inv E sample_locked"
    by (simp add: dev_inv_def s zero_auth_inv)
qed

lemma sample_open_inv [simp]:
  "dev_inv sample_idf sample_open" "protected_session sample_open 0x13"
  "cache_lookup key (s_auth sample_open) = None"
proof -
  have s: "s_auth sample_locked = zero_auth\<lparr>auth_required := True, auth_key_len := 3\<rparr>"
    by (simp add: sample_locked_def ota_dev.defs auth_dev.defs)
  have "auth_inv sample_idf (s_auth sample_locked)" "protocol_inv sample_locked" "ota_inv sample_locked"
    using sample_locked_inv(1) [of sample_idf] by (simp_all add: dev_inv_def)
  then show "dev_inv sample_idf sample_open"
    by (simp add: sample_open_def dev_inv_def sample_open_auth_def auth_inv_def cache_inv_def)
       (simp add: s current_key_def zero_auth_def)
  show "protected_session sample_open 0x13"
    by (simp add: protected_session_def sample_open_def sample_open_auth_def auth_command_is_protected_def)
  have "List.map_filter entry_of (replicate n zero_entry) = []" for n
    by (induction n) (simp_all add: List.map_filter_simps entry_of_def zero_entry_def)
  then show "cache_lookup key (s_auth sample_open) = None"
    by (simp add: cache_lookup_def sample_open_def sample_open_auth_def s zero_auth_def)
qed

lemma sample_packet_inv [simp]:
  assumes "length p \<le> 1024"
  shows "packet_inv (sample_packet c q p)" "pkt_bytes (sample_packet c q p) = p"
    "pkt_command (sample_packet c q p) = c" "pkt_sequence (sample_packet c q p) = q"
    "pkt_version (sample_packet c q p) = PROTOCOL_VERSION"
    "unat (pkt_length (sample_packet c q p)) = length p"
proof -
  have "unat (of_nat (length p) :: u16) = length p"
    using assms by (simp add: unat_of_nat)
  with assms show "packet_inv (sample_packet c q p)" "pkt_bytes (sample_packet c q p) = p"
    "pkt_command (sample_packet c q p) = c" "pkt_sequence (sample_packet c q p) = q"
    "pkt_version (sample_packet c q p) = PROTOCOL_VERSION"
    "unat (pkt_length (sample_packet c q p)) = length p"
    by (simp_all add: sample_packet_def packet_inv_def pkt_bytes_def)
qed

section \<open>Properties\<close>

text \<open>C11. Refinement of the handshake: while authentication is required, \<open>auth_handle_packet\<close> stays
  inside its arrays, keeps the invariant and the configured key, and does on the session exactly
  what \<open>session_step\<close> does: a 16-byte payload starts a fresh challenge, the right 32-byte proof
  opens the session (again), anything else is rejected and changes nothing.\<close>

theorem handshake_refines_session:
  assumes "dev_inv E s" "packet_inv k" "auth_required (s_auth s)"
  shows "ensures (auth_handle_packet E k s)
    (\<lambda>r s'. (r, session_of (s_auth s')) = session_step E (current_key (s_auth s))
         (new_nonce E (trace s)) (pkt_bytes k) (session_of (s_auth s)) \<and>
       dev_inv E s' \<and> current_key (s_auth s') = current_key (s_auth s))"
  using auth_handle_packet_refines [OF assms] unfolding pkt_bytes_def
  by (rule ensures_mono) simp

theorem handshake_refines_session_witness:
  "ensures (auth_handle_packet sample_idf (sample_packet 5 1 (replicate 16 9)) sample_locked)
    (\<lambda>r s'. (r, session_of (s_auth s')) = session_step sample_idf (current_key (s_auth sample_locked))
         (new_nonce sample_idf (trace sample_locked)) (pkt_bytes (sample_packet 5 1 (replicate 16 9)))
         (session_of (s_auth sample_locked)) \<and>
       dev_inv sample_idf s' \<and> current_key (s_auth s') = current_key (s_auth sample_locked))"
  by (rule handshake_refines_session) simp_all

text \<open>C12. Completeness of the handshake: a host that sends a nonce and then the proof computed from
  the device's nonce with the shared key gets an answer that carries the device's own proof, then
  an acknowledgement, and both sides share the session key derived from the two nonces.\<close>

theorem handshake_completes:
  assumes "dev_inv E s" "auth_required (s_auth s)" "packet_inv k1" "packet_inv k2"
    and "key = current_key (s_auth s)" "cn = pkt_bytes k1" "length cn = 16"
    and "sn = new_nonce E (trace s)" "pkt_bytes k2 = cn @ client_proof E key cn sn"
  shows "ensures (run_ops (auth_handle_packet E) s [k1, k2]) (\<lambda>rs s'.
    rs = [ERR_OK, ERR_OK] \<and> session_of (s_auth s') = Open cn sn \<and>
    session_key (s_auth s') = session_key_for E key cn sn \<and>
    sent (trace s') = wire (Msg PROTOCOL_VERSION (cmd_code CMD_ACK) (pkt_sequence k2) [0]) #
      wire (Msg PROTOCOL_VERSION (cmd_code CMD_ACK) (pkt_sequence k1)
        (0 # sn @ device_proof_for E key cn sn)) # sent (trace s))"
proof -
  have l: "unat (pkt_length k1) = 16" "unat (pkt_length k2) = 32"
    using assms(3,4,6,7,9) length_pkt_bytes [of k1] length_pkt_bytes [of k2] by (auto simp: pkt_bytes_def)
  have b: "take 16 (pkt_payload k1) = cn" "take 32 (pkt_payload k2) = cn @ client_proof E key cn sn"
    using assms(6,9) l by (simp_all add: pkt_bytes_def)
  let ?s = "reply (cmd_code CMD_ACK) (pkt_sequence k1) (0 # sn @ device_proof_for E key cn sn)
       (s\<lparr>trace := Esp_fill_random 16 # trace s, s_auth := challenged E cn sn (s_auth s)\<rparr>)"
  have i: "protocol_inv s" "auth_inv E (s_auth s)" using assms(1) by (simp_all add: dev_inv_def)
  have 1: "auth_handle_packet E k1 s = Some (ERR_OK, ?s)"
    using assms l b by (simp add: auth_handle_packet_def auth_challenge_eq [OF i assms(3)] Let_def)
  have "dev_inv E ?s"
    using dev_inv_challenged [OF assms(1,2,3)] b assms(8) by simp
  then have i': "protocol_inv ?s" "auth_inv E (s_auth ?s)" by (simp_all add: dev_inv_def)
  have 2: "auth_handle_packet E k2 ?s = Some (ERR_OK, reply (cmd_code CMD_ACK) (pkt_sequence k2) [0]
      (?s\<lparr>s_auth := (s_auth ?s)\<lparr>auth_pending := False, authenticated := True\<rparr>\<rparr>))"
    using assms l b unfolding auth_handle_packet_def auth_proof_eq [OF i' assms(4)]
    by (simp add: Let_def challenged_def accept_proof_def current_key_def)
  show ?thesis
    unfolding run_ops.simps 1 2 bind.bind_lunit prod.case ensures_simps
    using assms(5) by (simp add: session_of_def challenged_def)
qed

theorem handshake_completes_witness:
  "\<exists>k1 k2. ensures (run_ops (auth_handle_packet sample_idf) sample_locked [k1, k2]) (\<lambda>rs s'.
    rs = [ERR_OK, ERR_OK] \<and> session_of (s_auth s') = Open (pkt_bytes k1) (new_nonce sample_idf (trace sample_locked)) \<and>
    session_key (s_auth s') = session_key_for sample_idf (current_key (s_auth sample_locked)) (pkt_bytes k1)
      (new_nonce sample_idf (trace sample_locked)) \<and>
    sent (trace s') = wire (Msg PROTOCOL_VERSION (cmd_code CMD_ACK) (pkt_sequence k2) [0]) #
      wire (Msg PROTOCOL_VERSION (cmd_code CMD_ACK) (pkt_sequence k1)
        (0 # new_nonce sample_idf (trace sample_locked) @ device_proof_for sample_idf
          (current_key (s_auth sample_locked)) (pkt_bytes k1) (new_nonce sample_idf (trace sample_locked)))) #
      sent (trace sample_locked))"
  by (rule exI [of _ "sample_packet 5 1 (replicate 16 9)"],
      rule exI [of _ "sample_packet 5 2 (replicate 16 9 @ client_proof sample_idf
        (current_key (s_auth sample_locked)) (replicate 16 9) (new_nonce sample_idf (trace sample_locked)))"],
      rule handshake_completes) simp_all

text \<open>C13. Soundness of the handshake: starting without a session, after any sequence of \<open>AUTH\<close>
  packets a session is open only if the sequence contains a challenge with the session's client
  nonce and, later, the proof for the two nonces under the configured key, the device nonce being
  bytes drawn from the random source during the run.\<close>

theorem open_session_needs_proof:
  assumes "dev_inv E s" "auth_required (s_auth s)" "session_of (s_auth s) = Closed"
    and "\<And>k. k \<in> set ks \<Longrightarrow> packet_inv k"
  shows "ensures (run_ops (auth_handle_packet E) s ks) (\<lambda>rs s'.
    \<forall>cn sn. session_of (s_auth s') = Open cn sn \<longrightarrow>
      (\<exists>as k1 bs k2 cs t. ks = as @ k1 # bs @ k2 # cs \<and> pkt_bytes k1 = cn \<and>
         pkt_bytes k2 = cn @ client_proof E (current_key (s_auth s)) cn sn \<and>
         sn = new_nonce E t \<and> extends (trace s') (Esp_fill_random 16 # t)))"
proof (rule ensures_mono [OF handshake.run_safe [of E s ks]])
  fix rs s' assume "run_ops (auth_handle_packet E) s ks = Some (rs, s')"
  from handshake_origin [OF assms(1,2,4) this _ refl]
  show "\<forall>cn sn. session_of (s_auth s') = Open cn sn \<longrightarrow>
      (\<exists>as k1 bs k2 cs t. ks = as @ k1 # bs @ k2 # cs \<and> pkt_bytes k1 = cn \<and>
         pkt_bytes k2 = cn @ client_proof E (current_key (s_auth s)) cn sn \<and>
         sn = new_nonce E t \<and> extends (trace s') (Esp_fill_random 16 # t))"
    using assms(3) by auto
qed (use assms in auto)

theorem open_session_needs_proof_witness:
  "ensures (run_ops (auth_handle_packet sample_idf) sample_locked [sample_packet 5 1 (replicate 16 9)])
    (\<lambda>rs s'. \<forall>cn sn. session_of (s_auth s') = Open cn sn \<longrightarrow>
      (\<exists>as k1 bs k2 cs t. [sample_packet 5 1 (replicate 16 9)] = as @ k1 # bs @ k2 # cs \<and> pkt_bytes k1 = cn \<and>
         pkt_bytes k2 = cn @ client_proof sample_idf (current_key (s_auth sample_locked)) cn sn \<and>
         sn = new_nonce sample_idf t \<and> extends (trace s') (Esp_fill_random 16 # t)))"
  by (rule open_session_needs_proof) auto

lemma tagged_split:
  assumes l: "length p = 1024" "m \<le> 1024" and t: "\<And>q. length (tag q) = 16"
  shows "take m p = take j p @ tag (take j p) \<and> j \<le> 1024 \<longleftrightarrow>
    16 \<le> m \<and> j = m - 16 \<and> take 16 (drop (m - 16) p) = tag (take (m - 16) p)"
proof
  assume a: "take m p = take j p @ tag (take j p) \<and> j \<le> 1024"
  then have "length (take m p) = length (take j p @ tag (take j p))" by (simp only:)
  then have m: "m = j + 16" using l t conjunct2 [OF a] by simp
  with a show "16 \<le> m \<and> j = m - 16 \<and> take 16 (drop (m - 16) p) = tag (take (m - 16) p)"
    by (simp add: take_add)
next
  assume a: "16 \<le> m \<and> j = m - 16 \<and> take 16 (drop (m - 16) p) = tag (take (m - 16) p)"
  then obtain i where "m = i + 16" "j = i" by (metis le_add_diff_inverse2)
  with a l show "take m p = take j p @ tag (take j p) \<and> j \<le> 1024"
    by (simp add: take_add)
qed

text \<open>C14. A request of a protected command is accepted by \<open>auth_unwrap_packet\<close>, while authentication
  is required, exactly when a session is open and its payload is a body followed by the tag of
  command, sequence and body under the session key; the body is what the command gets.  It never
  reads outside the packet.\<close>

theorem unwrap_accepts_iff_tagged:
  assumes "dev_inv E s" "packet_inv k" "auth_is_enabled s" "auth_command_is_protected (pkt_command k)"
  shows "auth_unwrap_packet E k s \<noteq> None \<and>
    (auth_unwrap_packet E k s = Some (ERR_OK, p, n) \<longleftrightarrow>
      authenticated (s_auth s) \<and> p = pkt_payload k \<and> unat n \<le> 1024 \<and>
      pkt_bytes k = take (unat n) p @
        request_tag E (session_key (s_auth s)) (pkt_command k) (pkt_sequence k) (take (unat n) p))"
proof -
  define m where "m = unat (pkt_length k)"
  define tag where "tag q = request_tag E (session_key (s_auth s)) (pkt_command k) (pkt_sequence k) q" for q
  have a: "auth_inv E (s_auth s)" using assms(1) by (simp add: dev_inv_def)
  have l: "length (pkt_payload k) = 1024" "m \<le> 1024" using assms(2) by (simp_all add: packet_inv_def m_def)
  have u: "pkt_length k - 16 = n \<longleftrightarrow> unat n = m - 16" if "16 \<le> m"
    using that by (auto simp: unat_sub word_le_nat_alt m_def word_unat_eq_iff)
  have t: "length (tag q) = 16" for q by (simp add: tag_def)
  have "auth_unwrap_packet E k s = (if authenticated (s_auth s) \<and> 16 \<le> m \<and>
        take 16 (drop (m - 16) (pkt_payload k)) = tag (take (m - 16) (pkt_payload k))
      then Some (ERR_OK, pkt_payload k, pkt_length k - 16) else Some (ERR_AUTH_REQUIRED, pkt_payload k, pkt_length k))"
    using assms(3,4) unfolding auth_unwrap_packet_eq [OF a assms(2)] Let_def auth_is_enabled_def m_def tag_def by simp
  then show ?thesis
    unfolding pkt_bytes_def m_def [symmetric] tag_def [symmetric]
    using u tagged_split [where j = "unat n" and tag = tag, OF l t] by auto
qed

theorem unwrap_accepts_iff_tagged_witness:
  "auth_unwrap_packet sample_idf (sample_abort 1) sample_open =
     Some (ERR_OK, pkt_payload (sample_abort 1), 0)"
  using unwrap_accepts_iff_tagged [of sample_idf sample_open "sample_abort 1" "pkt_payload (sample_abort 1)" 0]
    sample_open_inv(2)
  by (simp add: auth_is_enabled_def protected_session_def sample_abort_def)

text \<open>C15. A recent response is available for retries.  Take a request of a protected command in an open
  session whose command and sequence number are not in the cache, answered with up to 1008 bytes.
  After fewer than eight further responses of up to 1008 bytes, all of them to requests with another
  command or another sequence number, \<open>auth_check_replay\<close> answers the same packet with the very same frame.
  (A response to a packet with the same command and sequence number but other bytes would be a
  second entry of the cache, and could be found first.)\<close>

theorem recent_response_resent:
  assumes "dev_inv E s" "packet_inv k" "protected_session s (pkt_command k)"
    and "cache_lookup (pkt_command k, pkt_sequence k) (s_auth s) = None"
    and "unat n \<le> 1008" "length p = unat n" "length rs < 8"
    and "\<forall>r\<in>set rs. response_ok (pkt_command k, pkt_sequence k) r"
  shows "\<exists>fr s1 s2 s3. fr = wire (Msg PROTOCOL_VERSION c (pkt_sequence k)
        (p @ response_tag E (session_key (s_auth s)) (pkt_command k) c (pkt_sequence k) p)) \<and>
    auth_send_response E k c (Some p) n s = Some s1 \<and> sent (trace s1) = fr # sent (trace s) \<and>
    for_each (\<lambda>(k, c, p, n). auth_send_response E k c (Some p) n) rs s1 = Some s2 \<and>
    auth_check_replay E k s2 = Some ((ERR_OK, True), s3) \<and>
    trace s3 = tx_call s2 fr # trace s2 \<and> s_auth s3 = s_auth s2 \<and> s_ota s3 = s_ota s2"
proof -
  let ?key = "(pkt_command k, pkt_sequence k)" and ?s1 = "answer E k c p s"
  let ?r = "p @ response_tag E (session_key (s_auth s)) (pkt_command k) c (pkt_sequence k) p"
  let ?e = "Cached ?key (packet_digest E k) (c, ?r)"
  have i: "protocol_inv s" "auth_inv E (s_auth s)" "cache_inv (s_auth s)"
    using assms(1) by (simp_all add: dev_inv_def auth_inv_def)
  have 1: "auth_send_response E k c (Some p) n s = Some ?s1" "dev_inv E ?s1"
    using i assms by (simp_all add: auth_send_response_eq dev_inv_answer)
  have a1: "s_auth ?s1 = cache_insert ?e (s_auth s)"
    using assms(3) by (simp add: answer_def Let_def)
  obtain s2 es where 2: "for_each (\<lambda>(k, c, p, n). auth_send_response E k c (Some p) n) rs ?s1 = Some s2"
    "dev_inv E s2" "length es \<le> length rs" "s_auth s2 = fold cache_insert es (s_auth ?s1)"
    "\<forall>e\<in>set es. cached_ok e \<and> cached_key e \<noteq> ?key" "protected_session s2 = protected_session s"
    using responses_insert [OF 1(2) assms(8)] by auto
  have "cache_lookup ?key (s_auth s2) = Some ?e"
    using ring.retained [OF i(3), of ?e es] assms(4-7) 2(3-5) a1 by (auto simp: cached_ok_def)
  moreover have "auth_required (s_auth s2)" "authenticated (s_auth s2)" "auth_command_is_protected (pkt_command k)"
    using assms(3) 2(6) by (metis protected_session_def)+
  ultimately have "auth_check_replay E k s2 = Some ((ERR_OK, True), reply c (pkt_sequence k) ?r s2)"
    using 2(2) assms(2) by (simp add: auth_check_replay_eq dev_inv_def)
  moreover have "sent (trace ?s1) = wire (Msg PROTOCOL_VERSION c (pkt_sequence k) ?r) # sent (trace s)"
    using assms(3) by (simp add: answer_def Let_def)
  ultimately show ?thesis using 1(1) 2(1) by auto
qed

theorem recent_response_resent_witness:
  "\<exists>fr s1 s2 s3. fr = wire (Msg PROTOCOL_VERSION 0xF0 (pkt_sequence (sample_packet 0x13 1 []))
        ([0] @ response_tag sample_idf (session_key (s_auth sample_open))
          (pkt_command (sample_packet 0x13 1 [])) 0xF0 (pkt_sequence (sample_packet 0x13 1 [])) [0])) \<and>
    auth_send_response sample_idf (sample_packet 0x13 1 []) 0xF0 (Some [0]) 1 sample_open = Some s1 \<and>
    sent (trace s1) = fr # sent (trace sample_open) \<and>
    for_each (\<lambda>(k, c, p, n). auth_send_response sample_idf k c (Some p) n)
      [(sample_packet 0x13 2 [], 0xF1, [4], 1)] s1 = Some s2 \<and>
    auth_check_replay sample_idf (sample_packet 0x13 1 []) s2 = Some ((ERR_OK, True), s3) \<and>
    trace s3 = tx_call s2 fr # trace s2 \<and> s_auth s3 = s_auth s2 \<and> s_ota s3 = s_ota s2"
  by (rule recent_response_resent) simp_all

text \<open>C16. \<open>auth_send_response\<close> copies the payload into an array of 1024 bytes without a check: it stays
  inside its arrays exactly for payloads of up to 1024 bytes.  For those it keeps the invariant,
  leaves the OTA state alone and sends exactly one frame that echoes the sequence number.  Without
  an open session, or for a command that is not protected, the frame is the payload itself and
  nothing is stored.  For a protected command in an open session a payload of up to 1008 bytes is
  sent with its tag and the response is stored in the replay cache, and from 1009 bytes on, where
  the tag does not fit, the frame is a NACK \<open>ERR_INVALID_LENGTH\<close>, unsigned and not stored.\<close>

theorem send_response_one_frame:
  assumes "dev_inv E s" "packet_inv k" "length p = unat n"
  shows "(auth_send_response E k c (Some p) n s \<noteq> None \<longleftrightarrow> unat n \<le> 1024) \<and>
    (unat n \<le> 1024 \<longrightarrow> (\<exists>s'. auth_send_response E k c (Some p) n s = Some s' \<and> dev_inv E s' \<and>
      s_ota s' = s_ota s \<and>
      (let tagged = p @ response_tag E (session_key (s_auth s)) (pkt_command k) c (pkt_sequence k) p in
        if \<not> protected_session s (pkt_command k)
        then s_auth s' = s_auth s \<and>
          sent (trace s') = wire (Msg PROTOCOL_VERSION c (pkt_sequence k) p) # sent (trace s)
        else if unat n \<le> 1008
        then s_auth s' = cache_insert (Cached (pkt_command k, pkt_sequence k) (packet_digest E k) (c, tagged)) (s_auth s) \<and>
          sent (trace s') = wire (Msg PROTOCOL_VERSION c (pkt_sequence k) tagged) # sent (trace s)
        else s_auth s' = s_auth s \<and>
          sent (trace s') = wire (Msg PROTOCOL_VERSION (cmd_code CMD_NACK) (pkt_sequence k)
            [err_code ERR_INVALID_LENGTH]) # sent (trace s))))"
proof -
  have i: "protocol_inv s" "auth_inv E (s_auth s)" using assms(1) by (simp_all add: dev_inv_def)
  consider (short) "unat n \<le> 1008" | (long) "1008 < unat n" "unat n \<le> 1024" | (over) "1024 < unat n" by linarith
  then show ?thesis
  proof cases
    case short
    then show ?thesis
      using auth_send_response_eq [OF i assms(2) short assms(3), of c] dev_inv_answer [OF assms(1), of p k c] assms(3)
      by (auto simp: answer_payload_def answer_def Let_def)
  next
    case long
    then show ?thesis
      using auth_send_response_long [OF i(1) long assms(3), of E k c] assms by simp
  qed (simp add: auth_send_response_overrun)
qed

theorem send_response_one_frame_witness:
  "\<exists>s' tagged. tagged = [0] @ response_tag sample_idf (session_key (s_auth sample_open)) 0x13 0xF0 1 [0] \<and>
    auth_send_response sample_idf (sample_packet 0x13 1 []) 0xF0 (Some [0]) 1 sample_open = Some s' \<and>
    dev_inv sample_idf s' \<and> s_ota s' = s_ota sample_open \<and>
    s_auth s' = cache_insert (Cached (0x13, 1) (packet_digest sample_idf (sample_packet 0x13 1 [])) (0xF0, tagged))
      (s_auth sample_open) \<and>
    sent (trace s') = wire (Msg PROTOCOL_VERSION 0xF0 1 tagged) # sent (trace sample_open)"
  using send_response_one_frame [where E = sample_idf and s = sample_open and
      k = "sample_packet 0x13 1 []" and p = "[0]" and n = 1 and c = "0xF0"]
  by (simp add: Let_def)

end
