(* ===== verification/Device_Info.thy ===== *)
theory Device_Info
  imports Auth
begin

text \<open>
  \<^verbatim>\<open>device_info.c\<close>: the boot counter kept in NVS and the payload of an \<open>INFO\<close> packet.

  A \<open>const char *\<close> is the list of the bytes from the pointer up to the terminating NUL, so
  advancing it takes the tail and reading it at the end gives the NUL.  The specification
  \<open>info_layout\<close> is the payload as one list; the lemmas show that the C code writes it through
  bounds-checked appends and reports 0 exactly when it does not fit.
\<close>

section \<open>Names\<close>

fun ota_state_name :: "esp_ota_img_states_t \<Rightarrow> bytes" where
  "ota_state_name ESP_OTA_IMG_NEW = c_string ''NEW''"
| "ota_state_name ESP_OTA_IMG_PENDING_VERIFY = c_string ''PENDING_VERIFY''"
| "ota_state_name ESP_OTA_IMG_VALID = c_string ''VALID''"
| "ota_state_name ESP_OTA_IMG_INVALID = c_string ''INVALID''"
| "ota_state_name ESP_OTA_IMG_ABORTED = c_string ''ABORTED''"
| "ota_state_name ESP_OTA_IMG_UNDEFINED = c_string ''UNDEFINED''"
| "ota_state_name (ESP_OTA_IMG_OTHER _) = c_string ''UNKNOWN''"

fun chip_model_name :: "esp_chip_model_t \<Rightarrow> bytes" where
  "chip_model_name CHIP_ESP32 = c_string ''ESP32''"
| "chip_model_name CHIP_ESP32S2 = c_string ''ESP32-S2''"
| "chip_model_name CHIP_ESP32S3 = c_string ''ESP32-S3''"
| "chip_model_name CHIP_ESP32C2 = c_string ''ESP32-C2''"
| "chip_model_name CHIP_ESP32C3 = c_string ''ESP32-C3''"
| "chip_model_name CHIP_ESP32C5 = c_string ''ESP32-C5''"
| "chip_model_name CHIP_ESP32C6 = c_string ''ESP32-C6''"
| "chip_model_name CHIP_ESP32C61 = c_string ''ESP32-C61''"
| "chip_model_name CHIP_ESP32H2 = c_string ''ESP32-H2''"
| "chip_model_name CHIP_ESP32H21 = c_string ''ESP32-H21''"
| "chip_model_name CHIP_ESP32H4 = c_string ''ESP32-H4''"
| "chip_model_name CHIP_ESP32P4 = c_string ''ESP32-P4''"
| "chip_model_name CHIP_ESP32S31 = c_string ''ESP32-S31''"
| "chip_model_name CHIP_POSIX_LINUX = c_string ''POSIX-Linux''"
| "chip_model_name (CHIP_OTHER _) = c_string ''unknown''"

section \<open>State and helpers\<close>

record info_dev = auth_dev +
  s_boot_count :: u32

definition put_u32_le :: "bytes \<Rightarrow> nat \<Rightarrow> u32 \<Rightarrow> (bytes \<times> nat) option" where
  "put_u32_le buffer offset value = do {
     b \<leftarrow> store buffer offset [ucast (value AND 0xFF)];
     b \<leftarrow> store b (offset + 1) [ucast (drop_bit 8 value AND 0xFF)];
     b \<leftarrow> store b (offset + 2) [ucast (drop_bit 16 value AND 0xFF)];
     b \<leftarrow> store b (offset + 3) [ucast (drop_bit 24 value AND 0xFF)];
     Some (b, offset + 4) }"

definition put_str8 :: "bytes \<Rightarrow> nat \<Rightarrow> nat \<Rightarrow> bytes \<Rightarrow> (bool \<times> bytes \<times> nat) option" where
  "put_str8 buffer capacity offset value =
    (let len = length value in
     if len > 255 \<or> offset + 1 + len > capacity then Some (False, buffer, offset)
     else do {
       b \<leftarrow> store buffer offset [of_nat len];
       b \<leftarrow> store b (offset + 1) value;
       Some (True, b, offset + 1 + len) })"

text \<open>A chain \<open>!put_str8(...) || !put_str8(...) || ...\<close>: stops at the first string that does not fit.\<close>

fun put_strs :: "bytes \<Rightarrow> nat \<Rightarrow> nat \<Rightarrow> bytes list \<Rightarrow> (bool \<times> bytes \<times> nat) option" where
  "put_strs buffer capacity offset [] = Some (True, buffer, offset)"
| "put_strs buffer capacity offset (v # vs) = do {
     (ok, b, offset) \<leftarrow> put_str8 buffer capacity offset v;
     if ok then put_strs b capacity offset vs else Some (False, b, offset) }"

definition partition_is_ota_slot :: "esp_idf \<Rightarrow> esp_partition_t option \<Rightarrow> bool" where
  "partition_is_ota_slot E part = (case part of
     None \<Rightarrow> False
   | Some p \<Rightarrow> part_type p = ESP_PARTITION_TYPE_APP E \<and>
       part_subtype p \<ge> ESP_PARTITION_SUBTYPE_APP_OTA_0 E \<and>
       part_subtype p \<le> ESP_PARTITION_SUBTYPE_APP_OTA_15 E)"

section \<open>Parsing the version\<close>

definition deref :: "bytes \<Rightarrow> u8" where
  "deref p = (case p of [] \<Rightarrow> 0 | c # _ \<Rightarrow> c)"

definition is_digit :: "u8 \<Rightarrow> bool" where
  "is_digit c \<longleftrightarrow> 0x30 \<le> c \<and> c \<le> 0x39"

text \<open>The \<open>while\<close> loop: \<^term>\<open>None\<close> is the early \<open>return false\<close>.\<close>

fun version_digits :: "bytes \<Rightarrow> u32 \<Rightarrow> (bytes \<times> u32) option" where
  "version_digits [] parsed = Some ([], parsed)"
| "version_digits (c # cs) parsed =
    (if is_digit c then
       let parsed = parsed * 10 + (ucast c - 0x30) in
       if parsed > 255 then None else version_digits cs parsed
     else Some (c # cs, parsed))"

definition parse_version_component :: "bytes \<Rightarrow> (bytes \<times> u8) option" where
  "parse_version_component cursor =
    (if \<not> is_digit (deref cursor) then None
     else do {
       (value, parsed) \<leftarrow> version_digits cursor 0;
       Some (value, ucast parsed) })"

definition expect_dot :: "bytes \<Rightarrow> bytes option" where
  "expect_dot cursor = (if deref cursor = 0x2E then Some (tl cursor) else None)"

definition parse_app_version :: "bytes option \<Rightarrow> u8 \<times> u8 \<times> u8" where
  "parse_app_version version = (case version of
     None \<Rightarrow> (0, 0, 0)
   | Some v \<Rightarrow>
       let v = (if deref v = 0x76 \<or> deref v = 0x56 then tl v else v);
           parsed = do {
             (cursor, major) \<leftarrow> parse_version_component v;
             cursor \<leftarrow> expect_dot cursor;
             (cursor, minor) \<leftarrow> parse_version_component cursor;
             cursor \<leftarrow> expect_dot cursor;
             (cursor, patch) \<leftarrow> parse_version_component cursor;
             Some (major, minor, patch) }
       in case parsed of None \<Rightarrow> (0, 0, 0) | Some r \<Rightarrow> r)"

section \<open>Boot counter\<close>

definition device_info_init :: "esp_idf \<Rightarrow> 'a info_dev_scheme \<Rightarrow> 'a info_dev_scheme" where
  "device_info_init E s =
    (let err = nvs_flash_init E (trace s);
         s = emit Nvs_flash_init s in
     if err = ESP_ERR_NVS_NO_FREE_PAGES \<or> err = ESP_ERR_NVS_NEW_VERSION_FOUND then s
     else if err \<noteq> ESP_OK then s
     else
       let (err, nvs) = nvs_open E (trace s) ''esp32_ota'';
           s = emit (Nvs_open ''esp32_ota'') s in
       if err \<noteq> ESP_OK then s
       else
         let boot_count = (case snd (nvs_get_u32 E (trace s) nvs ''boot_count'') of None \<Rightarrow> 0 | Some v \<Rightarrow> v);
             s = s\<lparr>s_boot_count := boot_count + 1\<rparr>;
             err = nvs_set_u32 E (trace s) nvs ''boot_count'' (s_boot_count s);
             s = emit (Nvs_set_u32 nvs ''boot_count'' (s_boot_count s)) s;
             s = (if err = ESP_OK then emit (Nvs_commit nvs) s else s)
         in emit (Nvs_close nvs) s)"

section \<open>The information payload\<close>

definition image_state :: "esp_idf \<Rightarrow> call list \<Rightarrow> esp_partition_t option \<Rightarrow> esp_ota_img_states_t" where
  "image_state E cs part =
     (case snd (esp_ota_get_state_partition E cs part) of
        None \<Rightarrow> ESP_OTA_IMG_UNDEFINED | Some st \<Rightarrow> st)"

text \<open>The loop over the application partitions; the flag is false where the C function returns 0.\<close>

fun put_slots :: "esp_idf \<Rightarrow> call list \<Rightarrow> bytes \<Rightarrow> nat \<Rightarrow> nat \<Rightarrow> u8 \<Rightarrow> esp_partition_t list \<Rightarrow>
  (bool \<times> bytes \<times> nat \<times> u8) option" where
  "put_slots E cs buffer capacity offset slot_count [] = Some (True, buffer, offset, slot_count)"
| "put_slots E cs buffer capacity offset slot_count (slot # slots) =
    (if \<not> partition_is_ota_slot E (Some slot)
     then put_slots E cs buffer capacity offset slot_count slots
     else if slot_count = 255 then Some (False, buffer, offset, slot_count)
     else do {
       let slot_state = image_state E cs (Some slot);
       (ok, b, offset) \<leftarrow> put_strs buffer capacity offset [part_label slot, ota_state_name slot_state];
       if ok then put_slots E cs b capacity offset (slot_count + 1) slots
       else Some (False, b, offset, slot_count) })"

text \<open>The strings of the payload, in order.\<close>

definition info_strings :: "esp_idf \<Rightarrow> call list \<Rightarrow> bytes list" where
  "info_strings E cs =
    (let running = esp_ota_get_running_partition E cs;
         boot = esp_ota_get_boot_partition E cs;
         desc = esp_app_get_description E;
         ota_state = (case running of None \<Rightarrow> ESP_OTA_IMG_UNDEFINED | Some p \<Rightarrow> image_state E cs running)
     in [chip_model_name (esp_chip_model E),
         (case running of Some p \<Rightarrow> part_label p | None \<Rightarrow> c_string ''unknown''),
         (case boot of Some p \<Rightarrow> part_label p | None \<Rightarrow> c_string ''unknown''),
         ota_state_name ota_state,
         (case desc of Some d \<Rightarrow> desc_idf_ver d | None \<Rightarrow> c_string ''unknown''),
         (case desc of Some d \<Rightarrow> desc_project_name d | None \<Rightarrow> c_string ''esp32_ota_link''),
         (case desc of Some d \<Rightarrow> desc_date d | None \<Rightarrow> c_string ''unknown'')])"

text \<open>The result is the returned length and the buffer.\<close>

definition device_info_build_payload ::
  "esp_idf \<Rightarrow> bytes \<Rightarrow> nat \<Rightarrow> 'a info_dev_scheme \<Rightarrow> (nat \<times> bytes) option" where
  "device_info_build_payload E buffer capacity s = do {
     let cs = trace s;
     let (fw_major, fw_minor, fw_patch) =
       parse_app_version (map_option desc_version (esp_app_get_description E));
     if capacity < 17 then Some (0, buffer)
     else do {
       b \<leftarrow> store buffer 0 [PROTOCOL_VERSION];
       b \<leftarrow> store b 1 [fw_major];
       b \<leftarrow> store b 2 [fw_minor];
       b \<leftarrow> store b 3 [fw_patch];
       (b, offset) \<leftarrow> put_u32_le b 4 (ucast (esp_timer_get_time E cs div 1000000));
       (b, offset) \<leftarrow> put_u32_le b offset (heap_caps_get_free_size E cs);
       (b, offset) \<leftarrow> put_u32_le b offset (s_boot_count s);
       b \<leftarrow> store b offset [if esp_ota_check_rollback_is_possible E cs then 1 else 0];
       let offset = offset + 1;
       (ok, b, offset) \<leftarrow> put_strs b capacity offset (info_strings E cs);
       if \<not> ok then Some (0, b)
       else if offset + 1 > capacity then Some (0, b)
       else do {
         let slot_count_offset = offset;
         let offset = offset + 1;
         (ok, b, offset, slot_count) \<leftarrow> put_slots E cs b capacity offset 0 (esp_app_partitions E cs);
         if \<not> ok then Some (0, b)
         else do {
           b \<leftarrow> store b slot_count_offset [slot_count];
           Some (offset, b) } } } }"

section \<open>Specification\<close>

definition str8 :: "bytes \<Rightarrow> bytes" where
  "str8 v = of_nat (length v) # v"

definition strs8 :: "bytes list \<Rightarrow> bytes" where
  "strs8 vs = concat (map str8 vs)"

definition ota_slots :: "esp_idf \<Rightarrow> call list \<Rightarrow> esp_partition_t list" where
  "ota_slots E cs = filter (\<lambda>p. partition_is_ota_slot E (Some p)) (esp_app_partitions E cs)"

definition slot_strings :: "esp_idf \<Rightarrow> call list \<Rightarrow> esp_partition_t list \<Rightarrow> bytes list" where
  "slot_strings E cs ps = concat (map (\<lambda>p. [part_label p, ota_state_name (image_state E cs (Some p))]) ps)"

definition info_fixed :: "esp_idf \<Rightarrow> 'a info_dev_scheme \<Rightarrow> bytes" where
  "info_fixed E s =
    (let (a, b, c) = parse_app_version (map_option desc_version (esp_app_get_description E)) in
     [PROTOCOL_VERSION, a, b, c] @ le32 (ucast (esp_timer_get_time E (trace s) div 1000000)) @
     le32 (heap_caps_get_free_size E (trace s)) @ le32 (s_boot_count s) @
     [if esp_ota_check_rollback_is_possible E (trace s) then 1 else 0])"

definition info_layout :: "esp_idf \<Rightarrow> 'a info_dev_scheme \<Rightarrow> bytes" where
  "info_layout E s = info_fixed E s @ strs8 (info_strings E (trace s)) @
     [of_nat (length (ota_slots E (trace s)))] @
     strs8 (slot_strings E (trace s) (ota_slots E (trace s)))"

text \<open>Every string has a length byte, there are at most 255 slots, and all of it fits.\<close>

definition info_fits :: "esp_idf \<Rightarrow> 'a info_dev_scheme \<Rightarrow> nat \<Rightarrow> bool" where
  "info_fits E s capacity \<longleftrightarrow> length (info_layout E s) \<le> capacity \<and>
     length (ota_slots E (trace s)) \<le> 255 \<and>
     (\<forall>v\<in>set (info_strings E (trace s) @ slot_strings E (trace s) (ota_slots E (trace s))). length v \<le> 255)"

text \<open>Decimal digits of a version component.\<close>

fun decimal :: "nat \<Rightarrow> bytes" where
  "decimal n = (if n < 10 then [of_nat (0x30 + n)] else decimal (n div 10) @ [of_nat (0x30 + n mod 10)])"

text \<open>The state of an open session with a boot count, for evaluation.\<close>

definition sample_info :: info_dev where
  "sample_info = auth_dev.extend sample_open (info_dev.fields 41)"

section \<open>Appending to the buffer\<close>

text \<open>What has been written is the prefix \<open>xs\<close> of the buffer \<open>b\<close>.\<close>

lemma put_str8_append:
  assumes "cap \<le> length b"
  shows "put_str8 (blit b 0 xs) cap (length xs) v =
    Some (if length v \<le> 255 \<and> length (xs @ str8 v) \<le> cap
          then (True, blit b 0 (xs @ str8 v), length (xs @ str8 v))
          else (False, blit b 0 xs, length xs))"
proof (cases "length v \<le> 255 \<and> length (xs @ str8 v) \<le> cap")
  case True
  then have l: "length xs + 1 + length v \<le> length b" using assms by (simp add: str8_def)
  then have "store (blit b 0 xs) (length xs) [of_nat (length v)] = Some (blit b 0 (xs @ [of_nat (length v)]))"
    "store (blit b 0 (xs @ [of_nat (length v)])) (Suc (length xs)) v = Some (blit b 0 (xs @ str8 v))"
    by (simp_all add: store_Some blit_blit_at str8_def)
  with True show ?thesis by (simp add: put_str8_def Let_def str8_def)
next
  case False
  then show ?thesis by (auto simp: put_str8_def Let_def str8_def)
qed

lemma strs8_simps [simp]:
  "strs8 [] = []" "strs8 (v # vs) = str8 v @ strs8 vs" "strs8 (vs @ ws) = strs8 vs @ strs8 ws"
  by (simp_all add: strs8_def)

definition str_ok :: "bytes \<Rightarrow> bool" where
  "str_ok v \<longleftrightarrow> length v \<le> 255"

lemma put_strs_append:
  assumes "cap \<le> length b" "length xs \<le> cap"
  shows "if list_all str_ok vs \<and> length (xs @ strs8 vs) \<le> cap
    then put_strs (blit b 0 xs) cap (length xs) vs =
      Some (True, blit b 0 (xs @ strs8 vs), length (xs @ strs8 vs))
    else \<exists>ys. length ys \<le> cap \<and> put_strs (blit b 0 xs) cap (length xs) vs = Some (False, blit b 0 ys, length ys)"
  using assms(2)
proof (induction vs arbitrary: xs)
  case (Cons v vs)
  note p = put_str8_append [OF assms(1), of xs v]
  show ?case
  proof (cases "length v \<le> 255 \<and> length (xs @ str8 v) \<le> cap")
    case True
    then show ?thesis
      using Cons.IH [of "xs @ str8 v"] p by (auto simp: str_ok_def ac_simps split: if_splits)
  next
    case False
    then have "\<not> (list_all str_ok (v # vs) \<and> length (xs @ strs8 (v # vs)) \<le> cap)"
      by (auto simp: str_ok_def)
    with False show ?thesis
      using p Cons.prems by auto
  qed
qed simp

lemma slot_strings_simps [simp]:
  "slot_strings E cs [] = []"
  "slot_strings E cs (p # ps) =
     [part_label p, ota_state_name (image_state E cs (Some p))] @ slot_strings E cs ps"
  by (simp_all add: slot_strings_def)

lemma of_nat_u8_eq_255: "n \<le> 255 \<Longrightarrow> (of_nat n :: u8) = 255 \<longleftrightarrow> n = 255"
  by (auto simp: word_unat_eq_iff unat_of_nat)

lemma put_slots_append:
  fixes E cs
  defines "slot p \<equiv> partition_is_ota_slot E (Some p)"
  assumes "cap \<le> length b" "length xs \<le> cap" "n \<le> 255"
  shows "let os = filter slot ps; vs = slot_strings E cs os in
    if n + length os \<le> 255 \<and> list_all str_ok vs \<and> length (xs @ strs8 vs) \<le> cap
    then put_slots E cs (blit b 0 xs) cap (length xs) (of_nat n) ps =
      Some (True, blit b 0 (xs @ strs8 vs), length (xs @ strs8 vs), of_nat (n + length os))
    else \<exists>ys c. length ys \<le> cap \<and>
      put_slots E cs (blit b 0 xs) cap (length xs) (of_nat n) ps = Some (False, blit b 0 ys, length ys, c)"
  using assms(3,4)
proof (induction ps arbitrary: xs n)
  case (Cons p ps)
  consider "\<not> slot p" | "slot p" "n = 255" | "slot p" "n < 255" using Cons.prems by linarith
  then show ?case
  proof cases
    case 1
    then show ?thesis using Cons.IH [OF Cons.prems] by (auto simp: slot_def Let_def split: if_splits)
  next
    case 2
    then show ?thesis using Cons.prems by (auto simp: slot_def)
  next
    case 3
    define w where "w = [part_label p, ota_state_name (image_state E cs (Some p))]"
    define os where "os = filter slot ps"
    have n: "(of_nat n :: u8) \<noteq> 255" "of_nat n + 1 = (of_nat (Suc n) :: u8)"
      using 3 of_nat_u8_eq_255 [of n] by simp_all
    have os: "filter slot (p # ps) = p # os" "slot_strings E cs (p # os) = w @ slot_strings E cs os"
      using 3 by (simp_all add: os_def w_def)
    have step: "put_slots E cs (blit b 0 xs) cap (length xs) (of_nat n) (p # ps) = do {
        (ok, b, offset) \<leftarrow> put_strs (blit b 0 xs) cap (length xs) w;
        if ok then put_slots E cs b cap offset (of_nat (Suc n)) ps else Some (False, b, offset, of_nat n) }"
      using 3 n by (simp add: slot_def w_def del: put_strs.simps of_nat_Suc cong: if_cong)
    note ps = put_strs_append [OF assms(2) Cons.prems(1), of w]
    show ?thesis
    proof (cases "list_all str_ok w \<and> length (xs @ strs8 w) \<le> cap")
      case True
      with ps have "put_slots E cs (blit b 0 xs) cap (length xs) (of_nat n) (p # ps) =
          put_slots E cs (blit b 0 (xs @ strs8 w)) cap (length (xs @ strs8 w)) (of_nat (Suc n)) ps"
        unfolding step by simp
      with True 3 Cons.IH [of "xs @ strs8 w" "Suc n"] show ?thesis
        unfolding Let_def os os_def [symmetric] by (auto split: if_splits)
    next
      case False
      with ps obtain ys where "length ys \<le> cap"
        "put_strs (blit b 0 xs) cap (length xs) w = Some (False, blit b 0 ys, length ys)"
        by (simp only: if_False) blast
      with False show ?thesis
        unfolding Let_def os step by (auto split: if_splits)
    qed
  qed
qed simp

section \<open>The payload\<close>

lemma put_u32_le_store: "put_u32_le b off v = do { b \<leftarrow> store b off (le32 v); Some (b, off + 4) }"
  by (simp add: put_u32_le_def store_store_cont ucast_mask_u8 le32_def)

lemma put_u32_le_append:
  "length xs + 4 \<le> length b \<Longrightarrow> off = length xs \<Longrightarrow>
   put_u32_le (blit b 0 xs) off v = Some (blit b 0 (xs @ le32 v), length xs + 4)"
  by (simp add: put_u32_le_store store_Some blit_blit_at)

lemma store_append:
  "length xs + length ys \<le> length b \<Longrightarrow> off = length xs \<Longrightarrow>
   store (blit b 0 xs) off ys = Some (blit b 0 (xs @ ys))"
  by (simp add: store_Some blit_blit_at)

lemma blit_skip: "length xs < length b \<Longrightarrow> blit b 0 xs = blit b 0 (xs @ [b ! length xs])"
  by (simp add: blit_0 Cons_nth_drop_Suc)

lemma store_inside:
  "length xs + 1 + length ys \<le> length b \<Longrightarrow>
   store (blit b 0 (xs @ j # ys)) (length xs) [c] = Some (blit b 0 (xs @ c # ys))"
  by (simp add: store_Some blit_def)

lemma length_info_fixed [simp]: "length (info_fixed E s) = 17"
  by (simp add: info_fixed_def Let_def split: prod.split)

lemma info_fixed_build:
  assumes "17 \<le> length buf" "parse_app_version (map_option desc_version (esp_app_get_description E)) = (x, y, z)"
  shows "do {
       b \<leftarrow> store buf 0 [PROTOCOL_VERSION];
       b \<leftarrow> store b 1 [x];
       b \<leftarrow> store b 2 [y];
       b \<leftarrow> store b 3 [z];
       (b, offset) \<leftarrow> put_u32_le b 4 (ucast (esp_timer_get_time E (trace s) div 1000000));
       (b, offset) \<leftarrow> put_u32_le b offset (heap_caps_get_free_size E (trace s));
       (b, offset) \<leftarrow> put_u32_le b offset (s_boot_count s);
       b \<leftarrow> store b offset [if esp_ota_check_rollback_is_possible E (trace s) then 1 else 0];
       k b (offset + 1) } = k (blit buf 0 (info_fixed E s)) 17"
proof -
  have "store buf 0 [PROTOCOL_VERSION] = Some (blit buf 0 [PROTOCOL_VERSION])"
    using assms(1) by (simp add: store_Some)
  then show ?thesis
    using assms by (simp add: store_append put_u32_le_append info_fixed_def)
qed

lemma device_info_build_payload_spec:
  assumes "capacity \<le> length buffer"
  shows "ensures (device_info_build_payload E buffer capacity s) (\<lambda>n b.
    length b = length buffer \<and> drop capacity b = drop capacity buffer \<and>
    (if info_fits E s capacity then n = length (info_layout E s) \<and> take n b = info_layout E s else n = 0))"
    (is "ensures _ ?P")
proof (cases "capacity < 17")
  case True
  then have "\<not> info_fits E s capacity" by (simp add: info_fits_def info_layout_def)
  with True show ?thesis by (simp add: device_info_build_payload_def Let_def split: prod.split)
next
  case False
  obtain x y z where v: "parse_app_version (map_option desc_version (esp_app_get_description E)) = (x, y, z)"
    by (metis prod_cases3)
  define cs where "cs = trace s"
  define f where "f = info_fixed E s"
  define vs where "vs = info_strings E cs"
  define os where "os = ota_slots E cs"
  define ws where "ws = slot_strings E cs os"
  define xs where "xs = f @ strs8 vs"
  have layout: "info_layout E s = xs @ of_nat (length os) # strs8 ws"
    by (simp add: info_layout_def xs_def f_def vs_def os_def ws_def cs_def)
  have fits: "info_fits E s capacity \<longleftrightarrow> length xs + 1 + length (strs8 ws) \<le> capacity \<and> length os \<le> 255 \<and>
      list_all str_ok vs \<and> list_all str_ok ws"
    by (auto simp: info_fits_def layout str_ok_def list_all_iff cs_def vs_def os_def ws_def)
  have f17: "length f = 17" by (simp add: f_def)
  have bl: "length (blit buffer 0 ys) = length buffer" "drop capacity (blit buffer 0 ys) = drop capacity buffer"
    if "length ys \<le> capacity" for ys
    using that assms by (simp_all add: blit_0)
  let ?k = "\<lambda>b offset. do {
       (ok, b, offset) \<leftarrow> put_strs b capacity offset vs;
       if \<not> ok then Some (0, b)
       else if offset + 1 > capacity then Some (0, b)
       else do {
         (ok, b, offset', slot_count) \<leftarrow> put_slots E cs b capacity (offset + 1) 0 (esp_app_partitions E cs);
         if \<not> ok then Some (0, b)
         else do {
           b \<leftarrow> store b offset [slot_count];
           Some (offset', b) } } }"
  have eq: "device_info_build_payload E buffer capacity s = ?k (blit buffer 0 f) (length f)"
    unfolding device_info_build_payload_def Let_def v prod.case if_not_P [OF False] f17
    unfolding vs_def cs_def f_def
    by (rule info_fixed_build [OF _ v, of buffer s ?k, unfolded vs_def cs_def]) (use False assms in simp)
  note ps = put_strs_append [OF assms, of f vs, folded xs_def]
  show ?thesis
  proof (cases "list_all str_ok vs \<and> length xs \<le> capacity")
    case no: False
    then obtain ys where "length ys \<le> capacity"
      "put_strs (blit buffer 0 f) capacity (length f) vs = Some (False, blit buffer 0 ys, length ys)"
      using ps f17 False by auto
    with no show ?thesis unfolding eq fits using bl by auto
  next
    case strs: True
    then have put: "put_strs (blit buffer 0 f) capacity (length f) vs = Some (True, blit buffer 0 xs, length xs)"
      using ps f17 False by simp
    show ?thesis
    proof (cases "length xs < capacity")
      case no: False
      then show ?thesis unfolding eq fits put using bl [of xs] strs by simp
    next
      case lt: True
      define j where "j = buffer ! length xs"
      have skip: "blit buffer 0 xs = blit buffer 0 (xs @ [j])"
        using lt assms unfolding j_def by (intro blit_skip) simp
      note sl = put_slots_append [OF assms, where n = 0 and ps = "esp_app_partitions E cs" and cs = cs
          and E = E and xs = "xs @ [j]", folded ota_slots_def, folded os_def, unfolded Let_def, folded ws_def]
      show ?thesis
      proof (cases "length os \<le> 255 \<and> list_all str_ok ws \<and> length xs + 1 + length (strs8 ws) \<le> capacity")
        case True
        then have "put_slots E cs (blit buffer 0 xs) capacity (length xs + 1) 0 (esp_app_partitions E cs) =
            Some (True, blit buffer 0 (xs @ j # strs8 ws), length xs + 1 + length (strs8 ws), of_nat (length os))"
          using sl lt unfolding skip by simp
        with True lt strs show ?thesis
          unfolding eq fits put layout using bl [of "xs @ of_nat (length os) # strs8 ws"] assms
          by (simp add: store_inside take_blit_0)
      next
        case no: False
        then obtain ys c where "length ys \<le> capacity"
          "put_slots E cs (blit buffer 0 xs) capacity (length xs + 1) 0 (esp_app_partitions E cs) =
            Some (False, blit buffer 0 ys, length ys, c)"
          using sl lt unfolding skip by auto
        with no lt show ?thesis
          unfolding eq fits put using bl by auto
      qed
    qed
  qed
qed

section \<open>The boot counter\<close>

text \<open>What NVS holds under the key of the counter after a list of calls: the value of the last
  \<open>nvs_set_u32\<close> before the last \<open>nvs_commit\<close>.\<close>

fun last_set :: "call list \<Rightarrow> u32 option" where
  "last_set [] = None"
| "last_set (c # cs) = (case c of Nvs_set_u32 _ _ v \<Rightarrow> Some v | _ \<Rightarrow> last_set cs)"

fun nvs_stored :: "call list \<Rightarrow> u32 option" where
  "nvs_stored [] = None"
| "nvs_stored (c # cs) = (case c of Nvs_commit _ \<Rightarrow> last_set cs | _ \<Rightarrow> nvs_stored cs)"

fun nvs_call :: "call \<Rightarrow> bool" where
  "nvs_call (Nvs_set_u32 _ _ _) \<longleftrightarrow> True"
| "nvs_call (Nvs_commit _) \<longleftrightarrow> True"
| "nvs_call _ \<longleftrightarrow> False"

text \<open>The value of the counter after the calls \<open>cs\<close> of a boot that found \<open>v0\<close> in flash (None: no value).\<close>

definition nvs_value :: "u32 option \<Rightarrow> call list \<Rightarrow> u32 option" where
  "nvs_value v0 cs = (case nvs_stored cs of None \<Rightarrow> v0 | Some v \<Rightarrow> Some v)"

definition count_of :: "u32 option \<Rightarrow> u32" where
  "count_of v = (case v of None \<Rightarrow> 0 | Some n \<Rightarrow> n)"

text \<open>NVS as documented: every operation succeeds and a read gives the committed value.\<close>

definition nvs_works :: "esp_idf \<Rightarrow> u32 option \<Rightarrow> bool" where
  "nvs_works E v0 \<longleftrightarrow> (\<forall>cs. nvs_flash_init E cs = ESP_OK \<and> fst (nvs_open E cs ''esp32_ota'') = ESP_OK \<and>
     (\<forall>h. nvs_get_u32 E cs h ''boot_count'' = (case nvs_value v0 cs of
            None \<Rightarrow> (ESP_ERR_NVS_NOT_FOUND, None) | Some v \<Rightarrow> (ESP_OK, Some v)) \<and>
          (\<forall>v. nvs_set_u32 E cs h ''boot_count'' v = ESP_OK) \<and> nvs_commit E cs h = ESP_OK))"

definition nvs_idf :: esp_idf where
  "nvs_idf = sample_idf\<lparr>nvs_get_u32 := (\<lambda>cs _ _. case nvs_value (Some 41) cs of
     None \<Rightarrow> (ESP_ERR_NVS_NOT_FOUND, None) | Some v \<Rightarrow> (ESP_OK, Some v))\<rparr>"

lemma nvs_idf_works: "nvs_works nvs_idf (Some 41)"
  by (auto simp: nvs_works_def nvs_idf_def sample_idf_def split: option.split)

lemma nvs_stored_quiet: "\<forall>c\<in>set cs. \<not> nvs_call c \<Longrightarrow> nvs_stored (cs @ ds) = nvs_stored ds"
  by (induction cs) (auto split: call.split)

lemma device_info_init_eq:
  "device_info_init E s =
    (let cs = Nvs_flash_init # trace s; op = nvs_open E cs ''esp32_ota''; h = snd op in
     if nvs_flash_init E (trace s) \<noteq> ESP_OK then s\<lparr>trace := cs\<rparr>
     else let cs = Nvs_open ''esp32_ota'' # cs in
       if fst op \<noteq> ESP_OK then s\<lparr>trace := cs\<rparr>
       else
         let stored = (case snd (nvs_get_u32 E cs h ''boot_count'') of None \<Rightarrow> 0 | Some v \<Rightarrow> v);
             cs' = Nvs_set_u32 h ''boot_count'' (stored + 1) # cs
         in s\<lparr>s_boot_count := stored + 1, trace := Nvs_close h #
              (if nvs_set_u32 E cs h ''boot_count'' (stored + 1) = ESP_OK then Nvs_commit h # cs' else cs')\<rparr>)"
  by (auto simp: device_info_init_def Let_def emit_def split: prod.splits)

lemma device_info_init_counts:
  assumes "nvs_works E v0"
  shows "s_boot_count (device_info_init E s) = count_of (nvs_value v0 (trace s)) + 1"
    and "nvs_stored (trace (device_info_init E s)) = Some (count_of (nvs_value v0 (trace s)) + 1)"
proof -
  have works: "nvs_flash_init E cs = ESP_OK" "fst (nvs_open E cs ''esp32_ota'') = ESP_OK"
    "nvs_set_u32 E cs h ''boot_count'' v = ESP_OK"
    "snd (nvs_get_u32 E cs h ''boot_count'') = nvs_value v0 cs" for cs h v
    using assms by (auto simp: nvs_works_def split: option.split)
  show "s_boot_count (device_info_init E s) = count_of (nvs_value v0 (trace s)) + 1"
    "nvs_stored (trace (device_info_init E s)) = Some (count_of (nvs_value v0 (trace s)) + 1)"
    by (simp_all add: device_info_init_eq Let_def works count_of_def nvs_value_def)
qed

text \<open>Whatever NVS answers, the rest of the device is untouched and nothing is sent.\<close>

lemma device_info_init_frame [simp]:
  "s_ota (device_info_init E s) = s_ota s" "s_auth (device_info_init E s) = s_auth s"
  "sent (trace (device_info_init E s)) = sent (trace s)"
  "staged (trace (device_info_init E s)) = staged (trace s)"
  "open_handle (trace (device_info_init E s)) = open_handle (trace s)"
  "handles_ok (trace (device_info_init E s)) = handles_ok (trace s)"
  "protocol_inv (device_info_init E s) = protocol_inv s" "ota_inv (device_info_init E s) = ota_inv s"
  by (simp_all add: device_info_init_eq Let_def protocol_inv_def ota_inv_def)

lemma dev_inv_info_init [simp]: "dev_inv E' (device_info_init E s) = dev_inv E' s"
  by (simp add: dev_inv_def)

section \<open>Versions\<close>

declare decimal.simps [simp del]

lemma digit_value:
  assumes "d < 10"
  shows "is_digit (of_nat (0x30 + d))" "(ucast (of_nat (0x30 + d) :: u8) :: u32) - 0x30 = of_nat d"
proof -
  have u: "unat (of_nat (0x30 + d) :: u8) = 0x30 + d" by (simp only: unat_of_nat) (use assms in simp)
  then show "is_digit (of_nat (0x30 + d))"
    using assms by (simp add: is_digit_def word_le_nat_alt)
  have "(ucast (of_nat (0x30 + d) :: u8) :: u32) = of_nat (0x30 + d)"
    using assms by (simp only: unsigned_of_nat) (simp add: take_bit_nat_eq_self)
  then show "(ucast (of_nat (0x30 + d) :: u8) :: u32) - 0x30 = of_nat d" by simp
qed

lemma small_u32: "n < 2 ^ 32 \<Longrightarrow> (of_nat n :: u32) > 255 \<longleftrightarrow> n > 255"
  by (simp add: word_less_nat_alt unat_of_nat)

lemma version_digits_Cons:
  assumes "n \<le> 255" "d < 10"
  shows "version_digits (of_nat (0x30 + d) # rest) (of_nat n) =
    (if n * 10 + d > 255 then None else version_digits rest (of_nat (n * 10 + d)))"
proof -
  have "(of_nat n :: u32) * 10 + of_nat d = of_nat (n * 10 + d)" by simp
  then show ?thesis
    using assms digit_value [OF assms(2)] small_u32 [of "n * 10 + d"]
    by (simp add: Let_def del: of_nat_add of_nat_mult)
qed

lemma version_digits_decimal:
  "version_digits (decimal n @ rest) 0 = (if n > 255 then None else version_digits rest (of_nat n))"
proof (induction n arbitrary: rest rule: decimal.induct)
  case (1 n)
  show ?case
  proof (cases "n < 10")
    case True
    then show ?thesis
      using version_digits_Cons [of 0 n rest] by (subst decimal.simps) simp
  next
    case False
    have n: "n div 10 * 10 + n mod 10 = n" by simp
    show ?thesis
    proof (cases "n div 10 \<le> 255")
      case True
      then have "version_digits (decimal n @ rest) 0 =
          version_digits (of_nat (0x30 + n mod 10) # rest) (of_nat (n div 10))"
        using False 1 [OF False, of "of_nat (0x30 + n mod 10) # rest"] by (subst decimal.simps) simp
      also have "\<dots> = (if n > 255 then None else version_digits rest (of_nat n))"
        using version_digits_Cons [OF True, of "n mod 10" rest] n by simp
      finally show ?thesis .
    next
      case gt: False
      then have "n > 255" by linarith
      then show ?thesis
        using False gt 1 [OF False, of "of_nat (0x30 + n mod 10) # rest"] by (subst decimal.simps) simp
    qed
  qed
qed

lemma decimal_Cons: "\<exists>d ds. decimal n = d # ds \<and> is_digit d"
proof (induction n rule: decimal.induct)
  case (1 n)
  then show ?case
    using digit_value(1) [of n] by (cases "n < 10"; subst decimal.simps) auto
qed

lemma parse_component_decimal:
  assumes "\<not> is_digit (deref rest)"
  shows "parse_version_component (decimal n @ rest) = (if n > 255 then None else Some (rest, of_nat n))"
proof -
  obtain d ds where "decimal n = d # ds" "is_digit d" using decimal_Cons by blast
  then have d: "is_digit (deref (decimal n @ rest))" by (simp add: deref_def)
  have "version_digits rest (of_nat n) = Some (rest, of_nat n)"
    using assms by (cases rest) (simp_all add: deref_def)
  moreover have "(ucast (of_nat n :: u32) :: u8) = of_nat n" if "n \<le> 255"
    using that by (simp add: unsigned_of_nat take_bit_nat_eq_self)
  ultimately show ?thesis
    using d by (simp add: parse_version_component_def version_digits_decimal)
qed

text \<open>The printed form of a version.\<close>

definition version_text :: "nat \<Rightarrow> nat \<Rightarrow> nat \<Rightarrow> bytes" where
  "version_text a b c = decimal a @ [0x2E] @ decimal b @ [0x2E] @ decimal c"

lemma parse_version_text:
  assumes "\<not> is_digit (deref rest)"
  shows "(do { (cursor, major) \<leftarrow> parse_version_component (version_text a b c @ rest);
      cursor \<leftarrow> expect_dot cursor;
      (cursor, minor) \<leftarrow> parse_version_component cursor;
      cursor \<leftarrow> expect_dot cursor;
      (cursor, patch) \<leftarrow> parse_version_component cursor;
      Some (major, minor, patch) }) =
    (if a > 255 \<or> b > 255 \<or> c > 255 then None else Some (of_nat a, of_nat b, of_nat c))"
proof -
  have dot: "\<not> is_digit (deref (0x2E # r))" "expect_dot (0x2E # r) = Some r" for r
    by (simp_all add: deref_def is_digit_def expect_dot_def)
  show ?thesis
    using assms by (simp add: version_text_def parse_component_decimal dot)
qed

section \<open>Properties\<close>

text \<open>C17. \<open>device_info_build_payload\<close> never writes outside the buffer or beyond the capacity; it
  returns 0 exactly when the information does not fit (a string longer than 255 bytes, more than
  255 slots, or more bytes than the capacity), and otherwise the length of the payload, whose bytes
  are exactly the documented layout.\<close>

theorem info_payload_exact:
  assumes "capacity \<le> length buffer"
  shows "ensures (device_info_build_payload E buffer capacity s) (\<lambda>n b.
    length b = length buffer \<and> drop capacity b = drop capacity buffer \<and>
    (if info_fits E s capacity then n = length (info_layout E s) \<and> take n b = info_layout E s else n = 0))"
  using assms by (rule device_info_build_payload_spec)

theorem info_payload_exact_witness:
  "ensures (device_info_build_payload sample_idf (replicate 1024 0) 1024 sample_info) (\<lambda>n b.
    length b = length (replicate 1024 (0 :: u8)) \<and> drop 1024 b = drop 1024 (replicate 1024 0) \<and>
    (if info_fits sample_idf sample_info 1024
     then n = length (info_layout sample_idf sample_info) \<and> take n b = info_layout sample_idf sample_info
     else n = 0))"
  by (rule info_payload_exact) simp

text \<open>C18. Printing and parsing a version: the text \<open>a.b.c\<close>, with an optional leading \<open>v\<close> or \<open>V\<close> and
  followed by anything that is not a digit, is parsed to the three numbers if each is at most 255;
  otherwise the version is 0.0.0 (no component is ever truncated).\<close>

theorem version_roundtrip:
  assumes "pre = [] \<or> pre = [0x76] \<or> pre = [0x56]" "\<not> is_digit (deref rest)"
  shows "parse_app_version (Some (pre @ version_text a b c @ rest)) =
    (if a > 255 \<or> b > 255 \<or> c > 255 then (0, 0, 0) else (of_nat a, of_nat b, of_nat c))"
proof -
  obtain d ds where "decimal a = d # ds" "is_digit d" using decimal_Cons by blast
  then have "deref (version_text a b c @ rest) \<noteq> 0x76 \<and> deref (version_text a b c @ rest) \<noteq> 0x56"
    by (auto simp: version_text_def deref_def is_digit_def)
  moreover have "deref (x # r) = x" for x r by (simp add: deref_def)
  ultimately have v: "(let v = pre @ version_text a b c @ rest in if deref v = 0x76 \<or> deref v = 0x56 then tl v else v) =
      version_text a b c @ rest"
    using assms(1) by (auto simp: Let_def)
  show ?thesis
    using v unfolding parse_app_version_def option.case Let_def
    by (simp only: parse_version_text [OF assms(2)]) simp
qed

theorem version_roundtrip_witness:
  "parse_app_version (Some ([0x76] @ version_text 1 20 255 @ [0x2D, 0x31])) =
    (if (1::nat) > 255 \<or> (20::nat) > 255 \<or> (255::nat) > 255 then (0, 0, 0)
     else (of_nat 1, of_nat 20, of_nat 255))"
  by (rule version_roundtrip) (simp_all add: is_digit_def deref_def)

end
