(* ===== verification/Commands.thy ===== *)
theory Commands
  imports Device_Info
begin

text \<open>
  \<^verbatim>\<open>commands.c\<close>: the dispatcher.  Every case of the switch is a definition; protected commands
  share the order replay check, tag check, execution, response.

  \<open>request_status\<close> is the specification of the first two: a request is fresh with a body of some
  length, a repetition of an answered request, or refused.  The theorems say what a request of
  each kind may do to the device.
\<close>

section \<open>State and control flow\<close>

record cmd_dev = info_dev +
  s_info_payload :: bytes

text \<open>A handler returns to its caller, or a service it called restarted the chip.\<close>

datatype flow = Continues | Reboots

definition ota_link_mark_app_invalid_and_reboot ::
  "esp_idf \<Rightarrow> 'a base_dev_scheme \<Rightarrow> esp_err_t option \<times> 'a base_dev_scheme" where
  "ota_link_mark_app_invalid_and_reboot E s =
     (esp_ota_mark_app_invalid_rollback_and_reboot E (trace s), emit Esp_ota_mark_app_invalid_and_reboot s)"

section \<open>Operations\<close>

definition handle_authenticated_replay ::
  "esp_idf \<Rightarrow> protocol_packet_t \<Rightarrow> 'a auth_dev_scheme \<Rightarrow> (bool \<times> 'a auth_dev_scheme) option" where
  "handle_authenticated_replay E packet s = do {
     ((error, replayed), s) \<leftarrow> auth_check_replay E packet s;
     if error \<noteq> ERR_OK then do {
       s \<leftarrow> auth_send_nack E packet error s;
       Some (True, s) }
     else Some (replayed, s) }"

definition cmd_get_info ::
  "esp_idf \<Rightarrow> protocol_packet_t \<Rightarrow> 'a cmd_dev_scheme \<Rightarrow> (flow \<times> 'a cmd_dev_scheme) option" where
  "cmd_get_info E packet s = do {
     (len, buf) \<leftarrow> device_info_build_payload E (s_info_payload s) (length (s_info_payload s)) s;
     let s = s\<lparr>s_info_payload := buf\<rparr>;
     s \<leftarrow> (if len = 0 then protocol_send_nack E (pkt_sequence packet) ERR_INVALID_LENGTH s
           else protocol_send_packet E (cmd_code CMD_INFO) (pkt_sequence packet)
                  (Some (s_info_payload s)) (of_nat len) s);
     Some (Continues, s) }"

definition cmd_auth ::
  "esp_idf \<Rightarrow> protocol_packet_t \<Rightarrow> 'a auth_dev_scheme \<Rightarrow> (flow \<times> 'a auth_dev_scheme) option" where
  "cmd_auth E packet s = do {
     (error, s) \<leftarrow> auth_handle_packet E packet s;
     s \<leftarrow> (if error \<noteq> ERR_OK then protocol_send_nack E (pkt_sequence packet) error s else Some s);
     Some (Continues, s) }"

definition cmd_reboot ::
  "esp_idf \<Rightarrow> protocol_packet_t \<Rightarrow> 'a auth_dev_scheme \<Rightarrow> (flow \<times> 'a auth_dev_scheme) option" where
  "cmd_reboot E packet s = do {
     (handled, s) \<leftarrow> handle_authenticated_replay E packet s;
     if handled then Some (Continues, s)
     else do {
       (error, payload, len) \<leftarrow> auth_unwrap_packet E packet s;
       if error \<noteq> ERR_OK \<or> len \<noteq> 0 then do {
         s \<leftarrow> auth_send_nack E packet (if error \<noteq> ERR_OK then error else ERR_INVALID_LENGTH) s;
         Some (Continues, s) }
       else if ota_manager_is_active s then do {
         s \<leftarrow> auth_send_nack E packet ERR_BUSY s;
         Some (Continues, s) }
       else do {
         s \<leftarrow> auth_send_ack E packet s;
         Some (Reboots, emit Esp_restart (emit (VTaskDelay (pdMS_TO_TICKS E 100)) s)) } } }"

definition cmd_rollback ::
  "esp_idf \<Rightarrow> protocol_packet_t \<Rightarrow> 'a auth_dev_scheme \<Rightarrow> (flow \<times> 'a auth_dev_scheme) option" where
  "cmd_rollback E packet s = do {
     (handled, s) \<leftarrow> handle_authenticated_replay E packet s;
     if handled then Some (Continues, s)
     else do {
       (error, payload, len) \<leftarrow> auth_unwrap_packet E packet s;
       if error \<noteq> ERR_OK \<or> len \<noteq> 0 then do {
         s \<leftarrow> auth_send_nack E packet (if error \<noteq> ERR_OK then error else ERR_INVALID_LENGTH) s;
         Some (Continues, s) }
       else if ota_manager_is_active s then do {
         s \<leftarrow> auth_send_nack E packet ERR_BUSY s;
         Some (Continues, s) }
       else if \<not> esp_ota_check_rollback_is_possible E (trace s) then do {
         s \<leftarrow> auth_send_nack E packet ERR_ROLLBACK_NOT_AVAILABLE s;
         Some (Continues, s) }
       else do {
         s \<leftarrow> auth_send_ack E packet s;
         let (err, s) = ota_link_mark_app_invalid_and_reboot E (emit (VTaskDelay (pdMS_TO_TICKS E 100)) s);
         Some (case err of None \<Rightarrow> Reboots | Some _ \<Rightarrow> Continues, s) } } }"

definition cmd_ota_begin ::
  "esp_idf \<Rightarrow> protocol_packet_t \<Rightarrow> 'a auth_dev_scheme \<Rightarrow> (flow \<times> 'a auth_dev_scheme) option" where
  "cmd_ota_begin E packet s = do {
     (handled, s) \<leftarrow> handle_authenticated_replay E packet s;
     if handled then Some (Continues, s)
     else do {
       (error, payload, len) \<leftarrow> auth_unwrap_packet E packet s;
       (error, s) \<leftarrow> (if error = ERR_OK then ota_manager_begin E payload len s else Some (error, s));
       s \<leftarrow> (if error = ERR_OK then auth_send_ack E packet s else auth_send_nack E packet error s);
       Some (Continues, s) } }"

definition cmd_ota_abort ::
  "esp_idf \<Rightarrow> protocol_packet_t \<Rightarrow> 'a auth_dev_scheme \<Rightarrow> (flow \<times> 'a auth_dev_scheme) option" where
  "cmd_ota_abort E packet s = do {
     (handled, s) \<leftarrow> handle_authenticated_replay E packet s;
     if handled then Some (Continues, s)
     else do {
       (error, payload, len) \<leftarrow> auth_unwrap_packet E packet s;
       let error = (if error = ERR_OK \<and> len \<noteq> 0 then ERR_INVALID_LENGTH else error);
       (error, s) \<leftarrow> (if error = ERR_OK then ota_manager_abort E s else Some (error, s));
       s \<leftarrow> (if error = ERR_OK then auth_send_ack E packet s else auth_send_nack E packet error s);
       Some (Continues, s) } }"

definition cmd_ota_data ::
  "esp_idf \<Rightarrow> protocol_packet_t \<Rightarrow> 'a auth_dev_scheme \<Rightarrow> (flow \<times> 'a auth_dev_scheme) option" where
  "cmd_ota_data E packet s = do {
     (handled, s) \<leftarrow> handle_authenticated_replay E packet s;
     if handled then Some (Continues, s)
     else do {
       (error, payload, len) \<leftarrow> auth_unwrap_packet E packet s;
       (error, s) \<leftarrow> (if error = ERR_OK then ota_manager_write_data E payload len s else Some (error, s));
       s \<leftarrow> (if error = ERR_OK then auth_send_ack E packet s else auth_send_nack E packet error s);
       Some (Continues, s) } }"

definition cmd_ota_end ::
  "esp_idf \<Rightarrow> protocol_packet_t \<Rightarrow> 'a auth_dev_scheme \<Rightarrow> (flow \<times> 'a auth_dev_scheme) option" where
  "cmd_ota_end E packet s = do {
     (handled, s) \<leftarrow> handle_authenticated_replay E packet s;
     if handled then Some (Continues, s)
     else do {
       (error, payload, len) \<leftarrow> auth_unwrap_packet E packet s;
       let error = (if error = ERR_OK \<and> len \<noteq> 0 then ERR_INVALID_LENGTH else error);
       (error, s) \<leftarrow> (if error = ERR_OK then ota_manager_end E s else Some (error, s));
       s \<leftarrow> (if error = ERR_OK then auth_send_ack E packet s else auth_send_nack E packet error s);
       Some (Continues, s) } }"

definition commands_handle_packet ::
  "esp_idf \<Rightarrow> protocol_packet_t \<Rightarrow> 'a cmd_dev_scheme \<Rightarrow> (flow \<times> 'a cmd_dev_scheme) option" where
  "commands_handle_packet E packet s =
    (let c = pkt_command packet in
     if pkt_version packet \<noteq> PROTOCOL_VERSION then do {
       s \<leftarrow> protocol_send_nack E (pkt_sequence packet) ERR_INVALID_PACKET s;
       Some (Continues, s) }
     else if c = cmd_code CMD_PING then do {
       s \<leftarrow> protocol_send_ack E (pkt_sequence packet) s;
       Some (Continues, s) }
     else if c = cmd_code CMD_GET_INFO then cmd_get_info E packet s
     else if c = cmd_code CMD_AUTH then cmd_auth E packet s
     else if c = cmd_code CMD_REBOOT then cmd_reboot E packet s
     else if c = cmd_code CMD_ROLLBACK then cmd_rollback E packet s
     else if c = cmd_code CMD_OTA_BEGIN then cmd_ota_begin E packet s
     else if c = cmd_code CMD_OTA_ABORT then cmd_ota_abort E packet s
     else if c = cmd_code CMD_OTA_DATA then cmd_ota_data E packet s
     else if c = cmd_code CMD_OTA_END then cmd_ota_end E packet s
     else do {
       s \<leftarrow> protocol_send_nack E (pkt_sequence packet) ERR_UNKNOWN_COMMAND s;
       Some (Continues, s) })"

section \<open>Specification\<close>

datatype request = Fresh u16 | Repeated cached | Refused

definition request_status :: "esp_idf \<Rightarrow> protocol_packet_t \<Rightarrow> 'a auth_dev_scheme \<Rightarrow> request" where
  "request_status E k s =
    (let a = s_auth s; n = unat (pkt_length k); p = pkt_payload k in
     if \<not> auth_required a then Fresh (pkt_length k)
     else if \<not> authenticated a then Refused
     else case cache_lookup (pkt_command k, pkt_sequence k) a of
       Some e \<Rightarrow> if cached_digest e = packet_digest E k then Repeated e else Refused
     | None \<Rightarrow>
         if 16 \<le> n \<and> take 16 (drop (n - 16) p) =
              request_tag E (session_key a) (pkt_command k) (pkt_sequence k) (take (n - 16) p)
         then Fresh (pkt_length k - 16) else Refused)"

text \<open>The answer to a request that ended with an error code.\<close>

definition verdict ::
  "esp_idf \<Rightarrow> protocol_packet_t \<Rightarrow> protocol_error_t \<Rightarrow> 'a auth_dev_scheme \<Rightarrow> 'a auth_dev_scheme" where
  "verdict E k err s = answer E k (cmd_code (if err = ERR_OK then CMD_ACK else CMD_NACK)) [err_code err] s"

definition cmd_inv :: "esp_idf \<Rightarrow> 'a cmd_dev_scheme \<Rightarrow> bool" where
  "cmd_inv E s \<longleftrightarrow> dev_inv E s \<and> length (s_info_payload s) = PROTOCOL_MAX_PAYLOAD"

text \<open>A concrete device with an open session, for evaluation.\<close>

definition sample_cmd :: cmd_dev where
  "sample_cmd = info_dev.extend sample_info (cmd_dev.fields (replicate PROTOCOL_MAX_PAYLOAD 0))"

section \<open>Requests of protected commands\<close>

lemma auth_send_verdict:
  assumes "dev_inv E s" "packet_inv k"
  shows "(if err = ERR_OK then auth_send_ack E k s else auth_send_nack E k err s) = Some (verdict E k err s)"
  using assms by (simp add: auth_send_short_eq verdict_def)

lemma handle_authenticated_replay_eq:
  assumes "dev_inv E s" "packet_inv k" "auth_command_is_protected (pkt_command k)"
  shows "handle_authenticated_replay E k s =
    (if \<not> auth_required (s_auth s) then Some (False, s)
     else if \<not> authenticated (s_auth s) then Some (True, verdict E k ERR_AUTH_REQUIRED s)
     else case cache_lookup (pkt_command k, pkt_sequence k) (s_auth s) of
       None \<Rightarrow> Some (False, s)
     | Some e \<Rightarrow> if cached_digest e = packet_digest E k
         then Some (True, reply (fst (cached_response e)) (pkt_sequence k) (snd (cached_response e)) s)
         else Some (True, verdict E k ERR_AUTH_REQUIRED s))"
proof -
  have i: "protocol_inv s" "auth_inv E (s_auth s)" using assms(1) by (simp_all add: dev_inv_def)
  have n: "auth_send_nack E k ERR_AUTH_REQUIRED s = Some (verdict E k ERR_AUTH_REQUIRED s)"
    using auth_send_verdict [OF assms(1,2), of ERR_AUTH_REQUIRED] by simp
  show ?thesis
    unfolding handle_authenticated_replay_def auth_check_replay_eq [OF i assms(2)]
    using assms(3) n by (auto split: option.split)
qed

text \<open>The common shape of the protected commands: the rest of a handler is only run on a fresh
  request.\<close>

lemma protected_request:
  fixes rest :: "protocol_error_t \<Rightarrow> bytes \<Rightarrow> u16 \<Rightarrow> 'a auth_dev_scheme \<Rightarrow> (flow \<times> 'a auth_dev_scheme) option"
  assumes "dev_inv E s" "packet_inv k" "auth_command_is_protected (pkt_command k)"
    and refuse: "\<And>p n. rest ERR_AUTH_REQUIRED p n s = Some (Continues, verdict E k ERR_AUTH_REQUIRED s)"
  shows "do { (handled, s) \<leftarrow> handle_authenticated_replay E k s;
      if handled then Some (Continues, s)
      else do { (error, payload, len) \<leftarrow> auth_unwrap_packet E k s; rest error payload len s } } =
    (case request_status E k s of
       Fresh n \<Rightarrow> rest ERR_OK (pkt_payload k) n s
     | Repeated e \<Rightarrow> Some (Continues, reply (fst (cached_response e)) (pkt_sequence k) (snd (cached_response e)) s)
     | Refused \<Rightarrow> Some (Continues, verdict E k ERR_AUTH_REQUIRED s))"
proof -
  have a: "auth_inv E (s_auth s)" using assms(1) by (simp add: dev_inv_def)
  show ?thesis
    unfolding handle_authenticated_replay_eq [OF assms(1-3)] request_status_def Let_def
    using assms(3) refuse
    by (auto simp: auth_unwrap_packet_eq [OF a assms(2)] Let_def split: option.split)
qed

text \<open>The handlers as functions of the status of the request.\<close>

definition protected_codes :: "u8 set" where
  "protected_codes = {0x03, 0x04, 0x10, 0x11, 0x12, 0x13}"

lemma protected_iff: "auth_command_is_protected c \<longleftrightarrow> c \<in> protected_codes"
  by (auto simp: auth_command_is_protected_def protected_codes_def)

definition ota_request :: "esp_idf \<Rightarrow> u8 \<Rightarrow> bytes \<Rightarrow> u16 \<Rightarrow> 'a auth_dev_scheme \<Rightarrow>
    (protocol_error_t \<times> 'a auth_dev_scheme) option" where
  "ota_request E c p n s =
    (if c = cmd_code CMD_OTA_BEGIN then ota_manager_begin E p n s
     else if c = cmd_code CMD_OTA_DATA then ota_manager_write_data E p n s
     else if n \<noteq> 0 then Some (ERR_INVALID_LENGTH, s)
     else if c = cmd_code CMD_OTA_END then ota_manager_end E s
     else ota_manager_abort E s)"

definition system_request :: "esp_idf \<Rightarrow> protocol_packet_t \<Rightarrow> u16 \<Rightarrow> 'a auth_dev_scheme \<Rightarrow>
    flow \<times> 'a auth_dev_scheme" where
  "system_request E k n s =
    (if n \<noteq> 0 then (Continues, verdict E k ERR_INVALID_LENGTH s)
     else if ota_manager_is_active s then (Continues, verdict E k ERR_BUSY s)
     else if pkt_command k = cmd_code CMD_REBOOT
       then (Reboots, emit Esp_restart (emit (VTaskDelay (pdMS_TO_TICKS E 100)) (verdict E k ERR_OK s)))
     else if \<not> esp_ota_check_rollback_is_possible E (trace s)
       then (Continues, verdict E k ERR_ROLLBACK_NOT_AVAILABLE s)
     else let s = emit (VTaskDelay (pdMS_TO_TICKS E 100)) (verdict E k ERR_OK s) in
       (case esp_ota_mark_app_invalid_rollback_and_reboot E (trace s) of None \<Rightarrow> Reboots | Some _ \<Rightarrow> Continues,
        emit Esp_ota_mark_app_invalid_and_reboot s))"

definition fresh_request :: "esp_idf \<Rightarrow> protocol_packet_t \<Rightarrow> u16 \<Rightarrow> 'a auth_dev_scheme \<Rightarrow>
    (flow \<times> 'a auth_dev_scheme) option" where
  "fresh_request E k n s =
    (if pkt_command k \<in> {cmd_code CMD_REBOOT, cmd_code CMD_ROLLBACK} then Some (system_request E k n s)
     else do { (err, s) \<leftarrow> ota_request E (pkt_command k) (pkt_payload k) n s;
               Some (Continues, verdict E k err s) })"

definition protected_command :: "esp_idf \<Rightarrow> protocol_packet_t \<Rightarrow> 'a auth_dev_scheme \<Rightarrow>
    (flow \<times> 'a auth_dev_scheme) option" where
  "protected_command E k s =
    (case request_status E k s of
       Fresh n \<Rightarrow> fresh_request E k n s
     | Repeated e \<Rightarrow> Some (Continues, reply (fst (cached_response e)) (pkt_sequence k) (snd (cached_response e)) s)
     | Refused \<Rightarrow> Some (Continues, verdict E k ERR_AUTH_REQUIRED s))"

lemma dev_inv_ota: "dev_inv E s \<Longrightarrow> ota_inv s" "dev_inv E s \<Longrightarrow> auth_inv E (s_auth s)" "dev_inv E s \<Longrightarrow> protocol_inv s"
  by (simp_all add: dev_inv_def)

text \<open>The OTA operations only touch the OTA state and the trace.\<close>

lemma ota_exec_frame:
  "ota_exec E op s = Some (r, s') \<Longrightarrow> s_auth s' = s_auth s \<and> s_tx_buffer s' = s_tx_buffer s"
  unfolding ota_exec.simps
  by (cases op; simp only: ota_exec.simps ota_manager_begin_def ota_manager_write_data_def
      ota_manager_end_def ota_manager_abort_def Let_def emit_def)
     (auto split: if_splits Option.bind_splits prod.splits option.splits)

lemma ota_exec_frame_cmd:
  "ota_exec E op s = Some (r, s') \<Longrightarrow> s_info_payload s' = s_info_payload s"
  by (cases op; simp only: ota_exec.simps ota_manager_begin_def ota_manager_write_data_def
      ota_manager_end_def ota_manager_abort_def Let_def emit_def)
     (auto split: if_splits Option.bind_splits prod.splits option.splits)

definition op_of :: "u8 \<Rightarrow> bytes \<Rightarrow> u16 \<Rightarrow> ota_op" where
  "op_of c p n = (if c = cmd_code CMD_OTA_BEGIN then Op_begin p n
     else if c = cmd_code CMD_OTA_DATA then Op_data p n
     else if c = cmd_code CMD_OTA_END then Op_end else Op_abort)"

lemma ota_request_exec:
  "ota_request E c p n s =
    (if c \<noteq> cmd_code CMD_OTA_BEGIN \<and> c \<noteq> cmd_code CMD_OTA_DATA \<and> n \<noteq> 0 then Some (ERR_INVALID_LENGTH, s)
     else ota_exec E (op_of c p n) s)"
  by (simp add: ota_request_def op_of_def)

lemma op_of_ok: "unat n \<le> length p \<Longrightarrow> op_ok (op_of c p n)"
  by (simp add: op_of_def)

lemma ota_request_safe:
  assumes "dev_inv E s" "unat n \<le> length p"
  shows "ensures (ota_request E c p n s) (\<lambda>r s'. dev_inv E s' \<and> s_auth s' = s_auth s)"
proof -
  have "ensures (ota_exec E (op_of c p n) s) (\<lambda>r s'. ota_inv s')"
    using dev_inv_ota(1) [OF assms(1)] op_of_ok [OF assms(2)] by (rule ota_exec_safe)
  then have "ensures (ota_exec E (op_of c p n) s) (\<lambda>r s'. dev_inv E s' \<and> s_auth s' = s_auth s)"
    by (rule ensures_mono) (use assms(1) in \<open>auto simp: dev_inv_def protocol_inv_def dest: ota_exec_frame\<close>)
  then show ?thesis
    using assms(1) by (simp add: ota_request_exec)
qed

lemma fresh_length:
  assumes "packet_inv k" "request_status E k s = Fresh n"
  shows "unat n \<le> unat (pkt_length k)" "unat n \<le> length (pkt_payload k)"
proof -
  have "unat (pkt_length k - 16) \<le> unat (pkt_length k)" if "16 \<le> unat (pkt_length k)"
    using that by (simp add: unat_sub word_le_nat_alt)
  then show "unat n \<le> unat (pkt_length k)"
    using assms(2) by (auto simp: request_status_def Let_def split: if_splits option.splits)
  then show "unat n \<le> length (pkt_payload k)"
    using assms(1) by (simp add: packet_inv_def)
qed

text \<open>The four OTA handlers have the same rest.\<close>

lemma ota_rest:
  assumes "dev_inv E s" "packet_inv k" "unat n \<le> length p"
  shows "do { (err, s) \<leftarrow> ota_request E c p n s;
      s \<leftarrow> (if err = ERR_OK then auth_send_ack E k s else auth_send_nack E k err s);
      Some (Continues, s) } = do { (err, s) \<leftarrow> ota_request E c p n s; Some (Continues, verdict E k err s) }"
proof -
  obtain err s' where "ota_request E c p n s = Some (err, s')" "dev_inv E s'"
    using ota_request_safe [OF assms(1,3), of c] by (auto simp: ensures_iff)
  then show ?thesis using auth_send_verdict [OF _ assms(2), of E s' err] by simp
qed

lemma auth_refuse:
  assumes "dev_inv E s" "packet_inv k" "err \<noteq> ERR_OK"
  shows "auth_send_nack E k err s = Some (verdict E k err s)"
  using auth_send_verdict [OF assms(1,2), of err] assms(3) by simp

lemma ota_handler_eqs:
  assumes "dev_inv E s" "packet_inv k"
  shows "pkt_command k = cmd_code CMD_OTA_BEGIN \<Longrightarrow> cmd_ota_begin E k s = protected_command E k s"
    and "pkt_command k = cmd_code CMD_OTA_DATA \<Longrightarrow> cmd_ota_data E k s = protected_command E k s"
    and "pkt_command k = cmd_code CMD_OTA_END \<Longrightarrow> cmd_ota_end E k s = protected_command E k s"
    and "pkt_command k = cmd_code CMD_OTA_ABORT \<Longrightarrow> cmd_ota_abort E k s = protected_command E k s"
proof -
  note refuse = auth_refuse [OF assms]
  note rest = ota_rest [OF assms fresh_length(2) [OF assms(2)]]
  { assume c: "pkt_command k = cmd_code CMD_OTA_BEGIN"
    show "cmd_ota_begin E k s = protected_command E k s"
      unfolding cmd_ota_begin_def protected_command_def
      using c rest [of E s _ "pkt_command k"] refuse
      by (subst protected_request [OF assms])
         (auto simp: protected_iff protected_codes_def fresh_request_def ota_request_def split: request.split) }
  { assume c: "pkt_command k = cmd_code CMD_OTA_DATA"
    show "cmd_ota_data E k s = protected_command E k s"
      unfolding cmd_ota_data_def protected_command_def
      using c rest [of E s _ "pkt_command k"] refuse
      by (subst protected_request [OF assms])
         (auto simp: protected_iff protected_codes_def fresh_request_def ota_request_def split: request.split) }
  { assume c: "pkt_command k = cmd_code CMD_OTA_END"
    show "cmd_ota_end E k s = protected_command E k s"
      unfolding cmd_ota_end_def protected_command_def
      using c rest [of E s _ "pkt_command k"] refuse
      by (subst protected_request [OF assms])
         (auto simp: protected_iff protected_codes_def fresh_request_def ota_request_def split: request.split) }
  { assume c: "pkt_command k = cmd_code CMD_OTA_ABORT"
    show "cmd_ota_abort E k s = protected_command E k s"
      unfolding cmd_ota_abort_def protected_command_def
      using c rest [of E s _ "pkt_command k"] refuse
      by (subst protected_request [OF assms])
         (auto simp: protected_iff protected_codes_def fresh_request_def ota_request_def split: request.split) }
qed

lemma system_handler_eqs:
  assumes "dev_inv E s" "packet_inv k"
  shows "pkt_command k = cmd_code CMD_REBOOT \<Longrightarrow> cmd_reboot E k s = protected_command E k s"
    and "pkt_command k = cmd_code CMD_ROLLBACK \<Longrightarrow> cmd_rollback E k s = protected_command E k s"
proof -
  note refuse = auth_refuse [OF assms]
  have ack: "auth_send_ack E k s = Some (verdict E k ERR_OK s)"
    using auth_send_verdict [OF assms, of ERR_OK] by simp
  { assume c: "pkt_command k = cmd_code CMD_REBOOT"
    show "cmd_reboot E k s = protected_command E k s"
      unfolding cmd_reboot_def protected_command_def
      using c refuse ack
      by (subst protected_request [OF assms])
         (auto simp: protected_iff protected_codes_def fresh_request_def system_request_def split: request.split) }
  { assume c: "pkt_command k = cmd_code CMD_ROLLBACK"
    show "cmd_rollback E k s = protected_command E k s"
      unfolding cmd_rollback_def protected_command_def
      using c refuse ack
      by (subst protected_request [OF assms])
         (auto simp: protected_iff protected_codes_def fresh_request_def system_request_def Let_def
           ota_link_mark_app_invalid_and_reboot_def split: request.split) }
qed

section \<open>What a handler does to the device\<close>

lemma commands_protected:
  assumes "dev_inv E s" "packet_inv k" "pkt_version k = PROTOCOL_VERSION"
    "auth_command_is_protected (pkt_command k)"
  shows "commands_handle_packet E k s = protected_command E k s"
  using assms(3,4) ota_handler_eqs [OF assms(1,2)] system_handler_eqs [OF assms(1,2)]
  unfolding protected_iff protected_codes_def commands_handle_packet_def Let_def
  by auto

lemma protected_continues:
  "pkt_command k \<noteq> cmd_code CMD_REBOOT \<Longrightarrow> pkt_command k \<noteq> cmd_code CMD_ROLLBACK \<Longrightarrow>
   protected_command E k s = Some (f, s') \<Longrightarrow> f = Continues"
  by (auto simp: protected_command_def fresh_request_def bind_eq_Some split: request.splits)

text \<open>Exactly one frame goes out, with the sequence number of the request.\<close>

definition one_reply :: "u16 \<Rightarrow> 'a base_dev_scheme \<Rightarrow> 'a base_dev_scheme \<Rightarrow> bool" where
  "one_reply q s s' \<longleftrightarrow> (\<exists>c p. length p \<le> PROTOCOL_MAX_PAYLOAD \<and>
     sent (trace s') = wire (Msg PROTOCOL_VERSION c q p) # sent (trace s))"

lemma one_replyI:
  "length p \<le> 1024 \<Longrightarrow> sent (trace s') = wire (Msg PROTOCOL_VERSION c q p) # sent (trace s) \<Longrightarrow> one_reply q s s'"
  unfolding one_reply_def by blast

lemma one_reply_reply: "length p \<le> 1024 \<Longrightarrow> sent (trace t) = sent (trace s) \<Longrightarrow> one_reply q s (reply c q p t)"
  by (auto simp: one_reply_def)

lemma length_answer_payload: "length p \<le> 1008 \<Longrightarrow> length (answer_payload E k c p s) \<le> 1024"
  by (simp add: answer_payload_def)

lemma one_reply_verdict:
  "sent (trace t) = sent (trace s) \<Longrightarrow> one_reply (pkt_sequence k) s (verdict E k err t)"
  by (rule one_replyI [OF length_answer_payload [of "[err_code err]"]]) (simp_all add: verdict_def)

lemma dev_inv_verdict: "dev_inv E s \<Longrightarrow> dev_inv E (verdict E k err s)"
  by (simp add: verdict_def dev_inv_answer)

lemma verdict_frame:
  "verdict E k err s = s\<lparr>trace := trace (verdict E k err s), s_tx_buffer := s_tx_buffer (verdict E k err s),
     s_write := s_write (verdict E k err s), s_write_context := s_write_context (verdict E k err s),
     s_auth := s_auth (verdict E k err s)\<rparr>"
  by (cases s) (simp add: verdict_def answer_def reply_def send_frame_def protocol_set_uart_port_def
    protocol_set_writer_def Let_def)

text \<open>Calls of the system, neither the OTA service nor the link.\<close>

fun system_call :: "call \<Rightarrow> bool" where
  "system_call Esp_restart \<longleftrightarrow> True"
| "system_call (VTaskDelay _) \<longleftrightarrow> True"
| "system_call Esp_ota_mark_app_invalid_and_reboot \<longleftrightarrow> True"
| "system_call _ \<longleftrightarrow> False"

lemma dev_inv_emit_system [simp]:
  assumes "system_call c"
  shows "dev_inv E (emit c s) = dev_inv E s" "ota_image_inv (emit c s) = ota_image_inv s"
    "sent (trace (emit c s)) = sent (trace s)"
  using assms
  by (cases c; simp add: dev_inv_def protocol_inv_def ota_inv_def ota_image_inv_def emit_def)+

lemma cache_lookup_length:
  assumes "cache_inv a" "cache_lookup key a = Some e"
  shows "length (snd (cached_response e)) \<le> 1024"
proof -
  have "Some e \<in> set (cache_contents a)" using cache_lookup_sound [OF assms(2)] by simp
  then obtain x where "x \<in> set (replay_cache a)" "entry_of x = Some e"
    by (auto simp: cache_contents_def image_iff)
  moreover from this have "entry_inv x"
    using assms(1) by (auto simp: cache_inv_def list_all_iff)
  ultimately show ?thesis by (auto simp: entry_of_def entry_inv_def split: if_splits)
qed

lemma repeated_cached:
  assumes "request_status E k s = Repeated e"
  shows "cache_lookup (pkt_command k, pkt_sequence k) (s_auth s) = Some e" "cached_digest e = packet_digest E k"
    "auth_required (s_auth s)" "authenticated (s_auth s)"
  using assms by (auto simp: request_status_def Let_def split: if_splits option.splits)

lemma ota_exec_sent: "ota_exec E op s = Some (r, s') \<Longrightarrow> sent (trace s') = sent (trace s)"
  by (cases op; simp only: ota_exec.simps ota_manager_begin_def ota_manager_write_data_def
      ota_manager_end_def ota_manager_abort_def Let_def emit_def)
     (auto split: if_splits Option.bind_splits prod.splits option.splits)

lemma ota_request_log:
  assumes "ota_request E c p n s = Some (r, s')"
  shows "extends (trace s') (trace s)" "sent (trace s') = sent (trace s)"
  using assms ota_exec_log [of E "op_of c p n"] ota_exec_sent [of E "op_of c p n"]
  by (auto simp: ota_request_exec split: if_splits)

lemma system_request_safe:
  assumes "dev_inv E s" "system_request E k n s = (f, s')"
  shows "dev_inv E s'" "one_reply (pkt_sequence k) s s'" "extends (trace s') (trace s)"
proof -
  have one: "one_reply (pkt_sequence k) s t" if "sent (trace t) = sent (trace (verdict E k err s))" for t err
    using that one_reply_verdict [of s s k E err] by (simp add: one_reply_def)
  show "dev_inv E s'" using assms dev_inv_verdict
    by (auto simp: system_request_def Let_def split: if_splits)
  show "one_reply (pkt_sequence k) s s'"
    using assms(2) one by (auto simp: system_request_def Let_def split: if_splits)
  show "extends (trace s') (trace s)"
    using assms(2) by (auto simp: system_request_def verdict_def Let_def split: if_splits)
qed

lemma protected_command_safe:
  assumes "dev_inv E s" "packet_inv k"
  shows "ensures (protected_command E k s) (\<lambda>f s'. dev_inv E s' \<and> one_reply (pkt_sequence k) s s' \<and>
    extends (trace s') (trace s))"
proof (cases "request_status E k s")
  case (Fresh n)
  obtain r s1 where o: "ota_request E (pkt_command k) (pkt_payload k) n s = Some (r, s1)" "dev_inv E s1"
    using ota_request_safe [OF assms(1) fresh_length(2) [OF assms(2) Fresh], of "pkt_command k"]
    by (auto simp: ensures_iff)
  have "dev_inv E (verdict E k r s1)" "one_reply (pkt_sequence k) s (verdict E k r s1)"
    "extends (trace (verdict E k r s1)) (trace s)"
    using o ota_request_log [OF o(1)] by (simp_all add: dev_inv_verdict one_reply_verdict) (simp add: verdict_def)
  moreover obtain f s2 where sys: "system_request E k n s = (f, s2)" by fastforce
  note system_request_safe [OF assms(1) sys]
  ultimately show ?thesis
    using Fresh o(1) sys by (simp add: protected_command_def fresh_request_def)
next
  case (Repeated e)
  then show ?thesis
    using assms repeated_cached [OF Repeated] cache_lookup_length [of "s_auth s" _ e]
    by (simp add: protected_command_def one_reply_reply dev_inv_ota(2) [OF assms(1), unfolded auth_inv_def])
next
  case Refused
  then show ?thesis
    using assms by (simp add: protected_command_def dev_inv_verdict one_reply_verdict) (simp add: verdict_def)
qed

text \<open>The buffer of the \<open>INFO\<close> payload is only written by its own handler.\<close>

lemma s_info_payload_simps [simp]:
  "s_info_payload (reply c q p s) = s_info_payload s" "s_info_payload (answer E k c p s) = s_info_payload s"
  "s_info_payload (verdict E k err s) = s_info_payload s" "s_info_payload (emit cl s) = s_info_payload s"
proof -
  show r: "s_info_payload (reply c q p s) = s_info_payload s" for c q p s
    by (simp add: reply_def send_frame_def protocol_set_uart_port_def protocol_set_writer_def Let_def)
  show a: "s_info_payload (answer E k c p s) = s_info_payload s" for c p
    by (simp add: answer_def Let_def r)
  show "s_info_payload (verdict E k err s) = s_info_payload s" by (simp add: verdict_def a)
  show "s_info_payload (emit cl s) = s_info_payload s" by (simp add: emit_def)
qed

lemma ota_request_info:
  "ota_request E c p n s = Some (r, s') \<Longrightarrow> s_info_payload s' = s_info_payload s"
  using ota_exec_frame_cmd [of E "op_of c p n"] by (auto simp: ota_request_exec split: if_splits)

lemma protected_command_info:
  "protected_command E k s = Some (f, s') \<Longrightarrow> s_info_payload s' = s_info_payload s"
  by (auto simp: protected_command_def fresh_request_def system_request_def Let_def bind_eq_Some
      split: request.splits if_splits prod.splits dest: ota_request_info)

lemma cmd_inv_info [simp]:
  "dev_inv E (s\<lparr>s_info_payload := b\<rparr>) = dev_inv E s" "ota_image_inv (s\<lparr>s_info_payload := b\<rparr>) = ota_image_inv s"
  by (simp_all add: dev_inv_def protocol_inv_def ota_inv_def ota_image_inv_def)

lemma cmd_get_info_safe:
  assumes "cmd_inv E s"
  shows "ensures (cmd_get_info E k s) (\<lambda>f s'. cmd_inv E s' \<and> one_reply (pkt_sequence k) s s' \<and>
    s_ota s' = s_ota s \<and> s_auth s' = s_auth s \<and> f = Continues \<and> (\<exists>fr. trace s' = tx_call s fr # trace s))"
proof -
  have l: "length (s_info_payload s) = 1024" and d: "dev_inv E s" using assms by (simp_all add: cmd_inv_def)
  obtain n b where b: "device_info_build_payload E (s_info_payload s) 1024 s = Some (n, b)" "length b = 1024"
    "n = 0 \<or> n \<le> 1024"
    using device_info_build_payload_spec [of 1024 "s_info_payload s" E s] l
    by (auto simp: ensures_iff info_fits_def split: if_splits)
  let ?s = "s\<lparr>s_info_payload := b\<rparr>"
  have i: "dev_inv E ?s" using d by simp
  note i = i dev_inv_ota(3) [OF i]
  have tx: "tx_call ?s fr = tx_call s fr" for fr
    by (simp add: tx_call_def split: option.split writer_t.split)
  have u: "unat (of_nat n :: u16) = n" if "n \<le> 1024" using that by (simp add: unat_of_nat)
  show ?thesis
  proof (cases "n = 0")
    case True
    then show ?thesis
      using b i l d by (auto simp: cmd_get_info_def protocol_send_short_reply cmd_inv_def one_reply_reply tx)
  next
    case False
    then have "n \<le> 1024" using b(3) by simp
    with False show ?thesis
      using b i l d u by (auto simp: cmd_get_info_def protocol_send_packet_reply cmd_inv_def one_reply_reply tx)
  qed
qed

lemma auth_handle_info:
  assumes "dev_inv E s" "packet_inv k" "auth_handle_packet E k s = Some (r, s')"
  shows "s_info_payload s' = s_info_payload s"
  using assms(3) unfolding auth_handle_packet_def
  by (auto simp: auth_challenge_eq [OF dev_inv_ota(3,2) [OF assms(1)] assms(2)] Let_def
      auth_proof_eq [OF dev_inv_ota(3,2) [OF assms(1)] assms(2)] split: if_splits)

text \<open>An \<open>AUTH\<close> packet draws random bytes and answers; the OTA state is not touched.\<close>

lemma cmd_auth_safe:
  assumes "dev_inv E s" "packet_inv k"
  shows "ensures (cmd_auth E k s) (\<lambda>f s'. dev_inv E s' \<and> one_reply (pkt_sequence k) s s' \<and>
    s_ota s' = s_ota s \<and> f = Continues \<and>
    (\<exists>fr. trace s' = tx_call s fr # trace s \<or> trace s' = tx_call s fr # Esp_fill_random 16 # trace s))"
proof -
  note i = dev_inv_ota(3,2) [OF assms(1)]
  note sr = protocol_send_short_reply(2) [OF i(1)]
  have opened: "dev_inv E (s\<lparr>s_auth := (s_auth s)\<lparr>auth_pending := False, authenticated := True\<rparr>\<rparr>)"
    if "auth_pending (s_auth s) \<or> authenticated (s_auth s)"
    using that assms(1) by (auto simp: dev_inv_def auth_inv_opened)
  consider "\<not> auth_required (s_auth s) \<or> (unat (pkt_length k) \<noteq> 16 \<and> unat (pkt_length k) \<noteq> 32)"
    | "auth_required (s_auth s)" "unat (pkt_length k) = 16" | "auth_required (s_auth s)" "unat (pkt_length k) = 32"
    by blast
  then show ?thesis
  proof cases
    case 1
    then show ?thesis
      using assms by (auto simp: cmd_auth_def auth_handle_packet_def sr one_reply_reply)
  next
    case 2
    then show ?thesis
      using assms dev_inv_challenged [OF assms(1) 2(1) assms(2)]
      by (simp add: cmd_auth_def auth_handle_packet_def auth_challenge_eq [OF i assms(2)] Let_def one_reply_reply)
         auto
  next
    case 3
    then show ?thesis
      using assms opened
      by (auto simp: cmd_auth_def auth_handle_packet_def auth_proof_eq [OF i assms(2)] Let_def sr one_reply_reply)
  qed
qed

lemma cmd_auth_info:
  assumes "dev_inv E s" "packet_inv k" "cmd_auth E k s = Some (f, s')"
  shows "s_info_payload s' = s_info_payload s"
proof -
  obtain r s1 where 1: "auth_handle_packet E k s = Some (r, s1)"
    using assms(3) by (auto simp: cmd_auth_def bind_eq_Some)
  have "protocol_inv s1"
  proof (cases "auth_required (s_auth s)")
    case True
    then show ?thesis
      using auth_handle_packet_refines [OF assms(1,2) True] unfolding 1 ensures_simps
      by (blast intro: dev_inv_ota(3))
  next
    case False
    then show ?thesis using 1 assms(1) by (simp add: auth_handle_packet_def dev_inv_ota)
  qed
  then show ?thesis
    using assms(3) 1 auth_handle_info [OF assms(1,2) 1]
    by (auto simp: cmd_auth_def protocol_send_short_reply split: if_splits)
qed

lemma commands_safe:
  assumes "cmd_inv E s" "packet_inv k"
  shows "ensures (commands_handle_packet E k s) (\<lambda>f s'. cmd_inv E s' \<and> one_reply (pkt_sequence k) s s' \<and>
    extends (trace s') (trace s))"
proof -
  have d: "dev_inv E s" and l: "length (s_info_payload s) = 1024" using assms(1) by (simp_all add: cmd_inv_def)
  note sr = protocol_send_short_reply [OF dev_inv_ota(3) [OF d]]
  have short: "cmd_inv E (reply c q [x] s)" for c q x using d l by (simp add: cmd_inv_def)
  show ?thesis
  proof (cases "pkt_version k = PROTOCOL_VERSION \<and> auth_command_is_protected (pkt_command k)")
    case True
    then show ?thesis
      using ensures_mono [OF protected_command_safe [OF d assms(2)]] protected_command_info [of E k s] l
      by (simp add: commands_protected [OF d assms(2)] cmd_inv_def)
  next
    case False
    then consider "pkt_version k \<noteq> PROTOCOL_VERSION" | "pkt_version k = PROTOCOL_VERSION" "pkt_command k = cmd_code CMD_GET_INFO"
      | "pkt_version k = PROTOCOL_VERSION" "pkt_command k = cmd_code CMD_AUTH"
      | "pkt_version k = PROTOCOL_VERSION" "pkt_command k \<noteq> cmd_code CMD_GET_INFO" "pkt_command k \<noteq> cmd_code CMD_AUTH"
          "pkt_command k \<notin> protected_codes"
      unfolding protected_iff by blast
    then show ?thesis
    proof cases
      case 2
      then have "commands_handle_packet E k s = cmd_get_info E k s" by (simp add: commands_handle_packet_def)
      then show ?thesis
        by (simp only:) (rule ensures_mono [OF cmd_get_info_safe [OF assms(1)]], auto)
    next
      case 3
      have "ensures (cmd_auth E k s) (\<lambda>f s'. cmd_inv E s' \<and> one_reply (pkt_sequence k) s s' \<and>
          extends (trace s') (trace s))"
        by (rule ensures_mono [OF cmd_auth_safe [OF d assms(2)]])
           (use cmd_auth_info [OF d assms(2)] l in \<open>auto simp: cmd_inv_def\<close>)
      with 3 show ?thesis by (simp add: commands_handle_packet_def)
    qed (auto simp: commands_handle_packet_def Let_def protected_codes_def sr short one_reply_reply)
  qed
qed

text \<open>The dispatcher is a machine that never faults and logs its calls.\<close>

interpretation dispatcher: logging_machine "commands_handle_packet E" "cmd_inv E" packet_inv trace
  for E :: esp_idf
proof (unfold_locales, goal_cases)
  case (1 s k)
  then show ?case using commands_safe by (blast intro: ensures_mono)
next
  case (2 s k f s')
  then show ?case using commands_safe [of E s k] by simp
qed

section \<open>Authorisation\<close>

text \<open>Calls beyond answering on the link and drawing random bytes.\<close>

definition privileged :: "call \<Rightarrow> bool" where
  "privileged c \<longleftrightarrow> call_tx c = None \<and> c \<noteq> Esp_fill_random AUTH_NONCE_SIZE"

lemma not_privileged_tx [simp]: "\<not> privileged (tx_call s f)" "\<not> privileged (Esp_fill_random 16)"
  by (simp_all add: privileged_def)

text \<open>A request that may be executed: a session is open, the payload is a body with its tag, and the
  command and sequence number were not answered recently.\<close>

definition authorised :: "esp_idf \<Rightarrow> protocol_packet_t \<Rightarrow> 'a auth_dev_scheme \<Rightarrow> bool" where
  "authorised E k s \<longleftrightarrow> authenticated (s_auth s) \<and>
     (\<exists>body. pkt_bytes k = body @ request_tag E (session_key (s_auth s)) (pkt_command k) (pkt_sequence k) body) \<and>
     cache_lookup (pkt_command k, pkt_sequence k) (s_auth s) = None"

lemma fresh_authorised:
  assumes "packet_inv k" "auth_required (s_auth s)" "request_status E k s = Fresh n"
  shows "authorised E k s"
proof -
  let ?tag = "\<lambda>q. request_tag E (session_key (s_auth s)) (pkt_command k) (pkt_sequence k) q"
  have f: "authenticated (s_auth s)" "cache_lookup (pkt_command k, pkt_sequence k) (s_auth s) = None"
    "16 \<le> unat (pkt_length k)" "take 16 (drop (unat (pkt_length k) - 16) (pkt_payload k)) =
       ?tag (take (unat (pkt_length k) - 16) (pkt_payload k))"
    using assms(2,3) by (auto simp: request_status_def Let_def split: if_splits option.splits)
  then have "pkt_bytes k = take (unat (pkt_length k) - 16) (pkt_payload k) @
      ?tag (take (unat (pkt_length k) - 16) (pkt_payload k))"
    using tagged_split [of "pkt_payload k" "unat (pkt_length k)" ?tag "unat (pkt_length k) - 16"] assms(1)
    by (simp add: packet_inv_def pkt_bytes_def)
  with f show ?thesis unfolding authorised_def by blast
qed

text \<open>The converse: a tagged request in an open session is fresh.\<close>

lemma tagged_fresh:
  assumes "packet_inv k" "auth_required (s_auth s)" "authenticated (s_auth s)"
    "cache_lookup (pkt_command k, pkt_sequence k) (s_auth s) = None"
    "pkt_bytes k = body @ request_tag E (session_key (s_auth s)) (pkt_command k) (pkt_sequence k) body"
  shows "request_status E k s = Fresh (of_nat (length body))" "take (length body) (pkt_payload k) = body"
proof -
  let ?tag = "\<lambda>q. request_tag E (session_key (s_auth s)) (pkt_command k) (pkt_sequence k) q"
  have len: "unat (pkt_length k) = length body + 16"
    using arg_cong [OF assms(5), of length] length_pkt_bytes [OF assms(1)] by (simp add: pkt_bytes_def)
  have body: "take (length body) (pkt_payload k) = body" "take 16 (drop (length body) (pkt_payload k)) = ?tag body"
  proof -
    have "take (length body + 16) (pkt_payload k) = body @ ?tag body" using assms(5) len by (simp add: pkt_bytes_def)
    moreover have "length body \<le> length (pkt_payload k)" using len assms(1) by (simp add: packet_inv_def)
    ultimately show "take (length body) (pkt_payload k) = body" "take 16 (drop (length body) (pkt_payload k)) = ?tag body"
      using take_eq_append_iff [of "length body" "pkt_payload k" 16 body "?tag body"] by simp_all
  qed
  then show "take (length body) (pkt_payload k) = body" by simp
  have "unat (pkt_length k - 16) = length body" using len by (simp add: unat_sub word_le_nat_alt)
  then have "pkt_length k - 16 = of_nat (length body)" by (metis unat_le_imp_of_nat)
  then show "request_status E k s = Fresh (of_nat (length body))"
    using assms(2-4) len body by (simp add: request_status_def Let_def)
qed

lemma protected_command_effects:
  assumes "dev_inv E s" "packet_inv k" "auth_required (s_auth s)" "\<not> authorised E k s"
  shows "ensures (protected_command E k s) (\<lambda>f s'. f = Continues \<and> s_ota s' = s_ota s \<and>
    (\<exists>fr. trace s' = tx_call s fr # trace s))"
  using fresh_authorised [OF assms(2,3)] assms(4)
  by (cases "request_status E k s") (auto simp: protected_command_def verdict_def)

lemma commands_effects:
  assumes "cmd_inv E s" "packet_inv k" "auth_required (s_auth s)"
    and "\<not> (authorised E k s \<and> auth_command_is_protected (pkt_command k) \<and> pkt_version k = PROTOCOL_VERSION)"
  shows "ensures (commands_handle_packet E k s) (\<lambda>f s'. f = Continues \<and> s_ota s' = s_ota s \<and>
    (\<exists>cs. trace s' = cs @ trace s \<and> (\<forall>c\<in>set cs. \<not> privileged c)))"
proof -
  have d: "dev_inv E s" using assms(1) by (simp add: cmd_inv_def)
  note sr = protocol_send_short_reply [OF dev_inv_ota(3) [OF d]]
  have one: "\<exists>cs. tx_call t fr # xs = cs @ xs \<and> (\<forall>c\<in>set cs. \<not> privileged c)" for t :: "'a cmd_dev_scheme" and fr xs
    by (rule exI [of _ "[tx_call t fr]"]) simp
  have two: "\<exists>cs. tx_call t fr # Esp_fill_random 16 # xs = cs @ xs \<and> (\<forall>c\<in>set cs. \<not> privileged c)"
    for t :: "'a cmd_dev_scheme" and fr xs
    by (rule exI [of _ "[tx_call t fr, Esp_fill_random 16]"]) simp
  consider "pkt_version k = PROTOCOL_VERSION" "auth_command_is_protected (pkt_command k)" "\<not> authorised E k s"
    | "pkt_version k = PROTOCOL_VERSION" "pkt_command k = cmd_code CMD_GET_INFO"
    | "pkt_version k = PROTOCOL_VERSION" "pkt_command k = cmd_code CMD_AUTH"
    | "pkt_version k \<noteq> PROTOCOL_VERSION \<or> (pkt_command k \<noteq> cmd_code CMD_GET_INFO \<and>
         pkt_command k \<noteq> cmd_code CMD_AUTH \<and> pkt_command k \<notin> protected_codes)"
    using assms(4) unfolding protected_iff by blast
  then show ?thesis
  proof cases
    case 1
    then show ?thesis
      unfolding commands_protected [OF d assms(2) 1(1,2)]
      by (intro ensures_mono [OF protected_command_effects [OF d assms(2,3)]]) (auto simp: one)
  next
    case 2
    then have "commands_handle_packet E k s = cmd_get_info E k s" by (simp add: commands_handle_packet_def)
    then show ?thesis
      by (simp only:) (rule ensures_mono [OF cmd_get_info_safe [OF assms(1)]], auto simp: one)
  next
    case 3
    then have "commands_handle_packet E k s = cmd_auth E k s" by (simp add: commands_handle_packet_def)
    then show ?thesis
      by (simp only:) (rule ensures_mono [OF cmd_auth_safe [OF d assms(2)]], auto simp: one two)
  qed (auto simp: commands_handle_packet_def Let_def protected_codes_def sr one)
qed

section \<open>Retries\<close>

lemma verdict_cached:
  assumes "protected_session t (pkt_command k)"
  obtains c r where "s_auth (verdict E k err t) =
      cache_insert (Cached (pkt_command k, pkt_sequence k) (packet_digest E k) (c, r)) (s_auth t)"
    "sent (trace (verdict E k err t)) = wire (Msg PROTOCOL_VERSION c (pkt_sequence k) r) # sent (trace t)"
    "length r \<le> 1024"
proof -
  let ?c = "cmd_code (if err = ERR_OK then CMD_ACK else CMD_NACK)"
  let ?r = "answer_payload E k ?c [err_code err] t"
  have "s_auth (verdict E k err t) =
      cache_insert (Cached (pkt_command k, pkt_sequence k) (packet_digest E k) (?c, ?r)) (s_auth t)"
    using assms by (simp add: verdict_def answer_def answer_payload_def Let_def)
  moreover have "sent (trace (verdict E k err t)) =
      wire (Msg PROTOCOL_VERSION ?c (pkt_sequence k) ?r) # sent (trace t)"
    by (simp add: verdict_def)
  moreover have "length ?r \<le> 1024" by (rule length_answer_payload) simp
  ultimately show ?thesis using that by blast
qed

lemma s_auth_emit [simp]: "s_auth (emit c s) = s_auth s"
  by (simp add: emit_def)

lemma system_request_verdict:
  "\<exists>err. s_auth (snd (system_request E k n s)) = s_auth (verdict E k err s) \<and>
     sent (trace (snd (system_request E k n s))) = sent (trace (verdict E k err s))"
  by (auto simp: system_request_def Let_def)

lemma fresh_request_cached:
  assumes "dev_inv E s" "packet_inv k" "protected_session s (pkt_command k)" "request_status E k s = Fresh n"
    "fresh_request E k n s = Some (f, s1)"
  obtains c r where "s_auth s1 =
      cache_insert (Cached (pkt_command k, pkt_sequence k) (packet_digest E k) (c, r)) (s_auth s)"
    "sent (trace s1) = wire (Msg PROTOCOL_VERSION c (pkt_sequence k) r) # sent (trace s)" "length r \<le> 1024"
proof (cases "pkt_command k \<in> {cmd_code CMD_REBOOT, cmd_code CMD_ROLLBACK}")
  case True
  then have s1: "s1 = snd (system_request E k n s)" using assms(5) by (auto simp: fresh_request_def)
  then obtain err where "s_auth s1 = s_auth (verdict E k err s)" "sent (trace s1) = sent (trace (verdict E k err s))"
    using system_request_verdict [of E k n s] by metis
  then show ?thesis using verdict_cached [OF assms(3), of E err] that by metis
next
  case False
  then obtain err t where t: "ota_request E (pkt_command k) (pkt_payload k) n s = Some (err, t)"
    "s1 = verdict E k err t"
    using assms(5) by (auto simp: fresh_request_def bind_eq_Some)
  have "s_auth t = s_auth s"
    using ota_request_safe [OF assms(1) fresh_length(2) [OF assms(2,4)], of "pkt_command k"] t(1) by simp
  then have "protected_session t (pkt_command k)" using assms(3) by (simp add: protected_session_def)
  then show ?thesis
    using verdict_cached [of t k E err] that t(2) \<open>s_auth t = s_auth s\<close> ota_request_log(2) [OF t(1)] by metis
qed

lemma fresh_lookup:
  assumes "request_status E k s = Fresh n" "auth_required (s_auth s)"
  shows "cache_lookup (pkt_command k, pkt_sequence k) (s_auth s) = None" "authenticated (s_auth s)"
  using assms by (auto simp: request_status_def Let_def split: if_splits option.splits)

lemma session_cache_insert [simp]:
  "auth_required (fold cache_insert es a) = auth_required a"
  "authenticated (fold cache_insert es a) = authenticated a"
  "session_key (fold cache_insert es a) = session_key a"
  by (induction es arbitrary: a) simp_all

text \<open>A packet that is not an \<open>AUTH\<close> packet leaves the authentication state alone, but for at most one
  entry of the cache, under its own command and sequence number.\<close>

definition pkt_key :: "protocol_packet_t \<Rightarrow> u8 \<times> u16" where
  "pkt_key k = (pkt_command k, pkt_sequence k)"

definition caches_own :: "protocol_packet_t \<Rightarrow> auth_state_t \<Rightarrow> auth_state_t \<Rightarrow> bool" where
  "caches_own k a a' \<longleftrightarrow> a' = a \<or> (\<exists>e. a' = cache_insert e a \<and> cached_ok e \<and> cached_key e = pkt_key k)"

lemma caches_own_refl [simp]: "caches_own k a a"
  by (simp add: caches_own_def)

lemma caches_own_insert:
  "a' = cache_insert (Cached (pkt_command k, pkt_sequence k) (packet_digest E k) (c, r)) a \<Longrightarrow> length r \<le> 1024 \<Longrightarrow>
   caches_own k a a'"
  unfolding caches_own_def
  by (intro disjI2 exI [of _ "Cached (pkt_command k, pkt_sequence k) (packet_digest E k) (c, r)"])
     (simp add: cached_ok_def pkt_key_def)

lemma protected_caches_own:
  assumes "dev_inv E s" "packet_inv k" "auth_required (s_auth s)" "auth_command_is_protected (pkt_command k)"
    "protected_command E k s = Some (f, s')"
  shows "caches_own k (s_auth s) (s_auth s')"
proof (cases "request_status E k s")
  case (Fresh n)
  then have "protected_session s (pkt_command k)"
    using fresh_lookup [OF Fresh assms(3)] assms(3,4) by (simp add: protected_session_def)
  moreover have "fresh_request E k n s = Some (f, s')" using assms(5) Fresh by (simp add: protected_command_def)
  ultimately show ?thesis
    using fresh_request_cached [OF assms(1,2) _ Fresh] caches_own_insert by metis
next
  case (Repeated e)
  then show ?thesis using assms(5) by (auto simp: protected_command_def)
next
  case Refused
  then have s': "s' = verdict E k ERR_AUTH_REQUIRED s" using assms(5) by (simp add: protected_command_def)
  show ?thesis
  proof (cases "protected_session s (pkt_command k)")
    case True
    then show ?thesis using s' verdict_cached [OF True, of E ERR_AUTH_REQUIRED] caches_own_insert by metis
  next
    case False
    then show ?thesis using s' by (simp add: verdict_def answer_def)
  qed
qed

lemma commands_caches_own:
  assumes "cmd_inv E s" "packet_inv k" "auth_required (s_auth s)" "pkt_command k \<noteq> cmd_code CMD_AUTH"
    "commands_handle_packet E k s = Some (f, s')"
  shows "caches_own k (s_auth s) (s_auth s')"
proof -
  have d: "dev_inv E s" using assms(1) by (simp add: cmd_inv_def)
  note sr = protocol_send_short_reply [OF dev_inv_ota(3) [OF d]]
  consider "pkt_version k = PROTOCOL_VERSION" "auth_command_is_protected (pkt_command k)"
    | "pkt_version k = PROTOCOL_VERSION" "pkt_command k = cmd_code CMD_GET_INFO"
    | "pkt_version k \<noteq> PROTOCOL_VERSION \<or> (pkt_command k \<noteq> cmd_code CMD_GET_INFO \<and>
         pkt_command k \<notin> protected_codes)"
    unfolding protected_iff by blast
  then show ?thesis
  proof cases
    case 1
    then show ?thesis
      using protected_caches_own [OF d assms(2,3) 1(2)] commands_protected [OF d assms(2) 1] assms(5) by metis
  next
    case 2
    then have "cmd_get_info E k s = Some (f, s')" using assms(5) by (simp add: commands_handle_packet_def)
    then have "s_auth s' = s_auth s" using cmd_get_info_safe [OF assms(1), of k] by simp
    then show ?thesis by simp
  next
    case 3
    then show ?thesis
      using assms(4,5) by (auto simp: commands_handle_packet_def Let_def protected_codes_def sr split: if_splits)
  qed
qed

text \<open>The request \<open>k\<close> was answered with the entry \<open>e\<close>, and fewer than eight others were since.\<close>

definition answered :: "esp_idf \<Rightarrow> protocol_packet_t \<Rightarrow> cached \<Rightarrow> cached list \<Rightarrow> auth_state_t \<Rightarrow> bool" where
  "answered E k e es a' \<longleftrightarrow> (\<exists>a. cache_inv a \<and> cached_ok e \<and> cached_key e = pkt_key k \<and>
     cached_digest e = packet_digest E k \<and> cache_lookup (pkt_key k) a = None \<and> auth_required a \<and> authenticated a \<and>
     (\<forall>e'\<in>set es. cached_ok e' \<and> cached_key e' \<noteq> pkt_key k) \<and> a' = fold cache_insert es (cache_insert e a))"

lemma fresh_answered:
  assumes "dev_inv E s" "packet_inv k" "auth_required (s_auth s)" "auth_command_is_protected (pkt_command k)"
    "request_status E k s = Fresh n" "fresh_request E k n s = Some (f, s1)"
  obtains e where "answered E k e [] (s_auth s1)" "s_auth s1 = cache_insert e (s_auth s)"
    "sent (trace s1) = wire (Msg PROTOCOL_VERSION (fst (cached_response e)) (pkt_sequence k)
       (snd (cached_response e))) # sent (trace s)"
proof -
  note fl = fresh_lookup [OF assms(5,3)]
  have p: "protected_session s (pkt_command k)" using assms(3,4) fl by (simp add: protected_session_def)
  obtain c r where s1: "s_auth s1 =
      cache_insert (Cached (pkt_command k, pkt_sequence k) (packet_digest E k) (c, r)) (s_auth s)"
    "sent (trace s1) = wire (Msg PROTOCOL_VERSION c (pkt_sequence k) r) # sent (trace s)" "length r \<le> 1024"
    using fresh_request_cached [OF assms(1,2) p assms(5,6)] .
  let ?e = "Cached (pkt_command k, pkt_sequence k) (packet_digest E k) (c, r)"
  have "cache_inv (s_auth s)" using dev_inv_ota(2) [OF assms(1)] by (simp add: auth_inv_def)
  then have "answered E k ?e [] (s_auth s1)"
    unfolding answered_def using fl s1 assms(3)
    by (intro exI [of _ "s_auth s"]) (simp add: cached_ok_def pkt_key_def)
  with s1 show ?thesis using that by simp
qed

lemma answered_session: "answered E k e es a \<Longrightarrow> auth_required a \<and> authenticated a"
  by (auto simp: answered_def)

lemma answered_repeated:
  assumes "answered E k e es (s_auth s)" "length es < 8"
  shows "request_status E k s = Repeated e"
proof -
  obtain a where a: "cache_inv a" "cached_ok e" "cached_key e = pkt_key k" "cached_digest e = packet_digest E k"
    "cache_lookup (pkt_key k) a = None" "auth_required a" "authenticated a"
    "\<forall>e'\<in>set es. cached_ok e' \<and> cached_key e' \<noteq> pkt_key k" "s_auth s = fold cache_insert es (cache_insert e a)"
    using assms(1) by (auto simp: answered_def)
  have "cache_lookup (pkt_key k) (s_auth s) = Some e"
    using ring.retained [OF a(1,2) _ assms(2)] a(3,5,8,9) by simp
  then show ?thesis
    using a by (simp add: request_status_def pkt_key_def Let_def)
qed

lemma answered_other:
  assumes "answered E k e es a" "caches_own k' a a'" "pkt_key k' \<noteq> pkt_key k"
  shows "\<exists>es'. answered E k e es' a' \<and> length es' \<le> Suc (length es)"
proof (cases "a' = a")
  case False
  then obtain e' where e': "a' = cache_insert e' a" "cached_ok e'" "cached_key e' = pkt_key k'"
    using assms(2) by (auto simp: caches_own_def)
  then have "answered E k e (es @ [e']) a'"
    using assms(1,3) by (auto simp: answered_def)
  then show ?thesis by (intro exI [of _ "es @ [e']"]) simp
qed (use assms(1) in auto)

text \<open>A client that waits for the answer to \<open>k\<close> may resend it and send other packets.\<close>

definition pending_traffic :: "protocol_packet_t \<Rightarrow> protocol_packet_t list \<Rightarrow> bool" where
  "pending_traffic k ks \<longleftrightarrow> (\<forall>k'\<in>set ks. k' = k \<or> (packet_inv k' \<and> pkt_command k' \<noteq> cmd_code CMD_AUTH \<and>
     pkt_key k' \<noteq> pkt_key k))"

lemma answered_run:
  assumes "cmd_inv E s" "packet_inv k" "pkt_version k = PROTOCOL_VERSION" "auth_command_is_protected (pkt_command k)"
    "answered E k e es (s_auth s)" "pending_traffic k ks" "length es + length (filter (\<lambda>k'. k' \<noteq> k) ks) < 8"
    "run_ops (commands_handle_packet E) s ks = Some (fs, s')"
  shows "cmd_inv E s' \<and> request_status E k s' = Repeated e"
  using assms(1,5-8)
proof (induction ks arbitrary: s es fs)
  case Nil
  then show ?case using answered_repeated [of E k e es s] by simp
next
  case (Cons k' ks)
  obtain f s1 gs where s1: "commands_handle_packet E k' s = Some (f, s1)"
    "run_ops (commands_handle_packet E) s1 ks = Some (gs, s')"
    using Cons.prems(5) by (auto simp: bind_eq_Some)
  have k': "packet_inv k'" using Cons.prems(3) assms(2) by (auto simp: pending_traffic_def)
  have inv: "cmd_inv E s1" using commands_safe [OF Cons.prems(1) k'] s1(1) by simp
  have d: "dev_inv E s" using Cons.prems(1) by (simp add: cmd_inv_def)
  have rest: "pending_traffic k ks" using Cons.prems(3) by (simp add: pending_traffic_def)
  show ?case
  proof (cases "k' = k")
    case True
    have "request_status E k s = Repeated e"
      using answered_repeated [OF Cons.prems(2)] Cons.prems(4) by simp
    then have "s_auth s1 = s_auth s"
      using s1(1) True by (auto simp: commands_protected [OF d assms(2-4)] protected_command_def)
    then show ?thesis
      using Cons.IH [OF inv _ rest _ s1(2), of es] Cons.prems(2,4) True by simp
  next
    case False
    then have o: "pkt_command k' \<noteq> cmd_code CMD_AUTH" "pkt_key k' \<noteq> pkt_key k"
      using Cons.prems(3) by (auto simp: pending_traffic_def)
    have req: "auth_required (s_auth s)" using answered_session [OF Cons.prems(2)] by simp
    obtain es' where "answered E k e es' (s_auth s1)" "length es' \<le> Suc (length es)"
      using answered_other [OF Cons.prems(2) commands_caches_own [OF Cons.prems(1) k' req o(1) s1(1)] o(2)] by blast
    then show ?thesis
      using Cons.IH [OF inv _ rest _ s1(2), of es'] Cons.prems(4) False by simp
  qed
qed

section \<open>Forged requests and the cache\<close>

text \<open>A request of a protected command whose payload is not a body with its tag.\<close>

definition forged :: "esp_idf \<Rightarrow> bytes \<Rightarrow> protocol_packet_t \<Rightarrow> bool" where
  "forged E sk k \<longleftrightarrow> packet_inv k \<and> pkt_version k = PROTOCOL_VERSION \<and>
     auth_command_is_protected (pkt_command k) \<and>
     (\<forall>body. pkt_bytes k \<noteq> body @ request_tag E sk (pkt_command k) (pkt_sequence k) body)"

lemma forged_refused:
  assumes "protected_session s (pkt_command k)" "forged E (session_key (s_auth s)) k"
    "cache_lookup (pkt_key k) (s_auth s) = None"
  shows "request_status E k s = Refused"
proof (cases "request_status E k s")
  case (Fresh n)
  then have "authorised E k s"
    using assms(1,2) by (intro fresh_authorised) (simp_all add: protected_session_def forged_def)
  then show ?thesis using assms(2) by (auto simp: authorised_def forged_def)
next
  case (Repeated e)
  then show ?thesis using repeated_cached(1) [OF Repeated] assms(3) by (simp add: pkt_key_def)
qed

lemma forged_run:
  assumes "cmd_inv E s" "auth_required (s_auth s)" "authenticated (s_auth s)"
    "\<forall>k\<in>set fs. forged E (session_key (s_auth s)) k \<and> cache_lookup (pkt_key k) (s_auth s) = None"
    "distinct (map pkt_key fs)"
  shows "\<exists>s' es. run_ops (commands_handle_packet E) s fs = Some (map (\<lambda>_. Continues) fs, s') \<and> cmd_inv E s' \<and>
    s_auth s' = fold cache_insert es (s_auth s) \<and> map cached_key es = map pkt_key fs \<and>
    (\<forall>e\<in>set es. cached_ok e) \<and> s_ota s' = s_ota s"
  using assms
proof (induction fs arbitrary: s)
  case Nil
  then show ?case by (auto intro: exI [of _ "[]"])
next
  case (Cons k fs)
  have d: "dev_inv E s" using Cons.prems(1) by (simp add: cmd_inv_def)
  have k: "forged E (session_key (s_auth s)) k" "cache_lookup (pkt_key k) (s_auth s) = None"
    using Cons.prems(4) by simp_all
  then have f: "packet_inv k" "pkt_version k = PROTOCOL_VERSION" "auth_command_is_protected (pkt_command k)"
    by (simp_all add: forged_def)
  then have p: "protected_session s (pkt_command k)" using Cons.prems(2,3) by (simp add: protected_session_def)
  let ?s = "verdict E k ERR_AUTH_REQUIRED s"
  have step: "commands_handle_packet E k s = Some (Continues, ?s)"
    using forged_refused [OF p k] by (simp add: commands_protected [OF d f] protected_command_def)
  have inv: "cmd_inv E ?s" using Cons.prems(1) dev_inv_verdict [OF d] by (simp add: cmd_inv_def)
  obtain c r where e: "s_auth ?s = cache_insert (Cached (pkt_key k) (packet_digest E k) (c, r)) (s_auth s)"
    "length r \<le> 1024"
    using verdict_cached [OF p, of E ERR_AUTH_REQUIRED] unfolding pkt_key_def .
  let ?e = "Cached (pkt_key k) (packet_digest E k) (c, r)"
  have ok: "cached_ok ?e" using e(2) by (simp add: cached_ok_def)
  have ci: "cache_inv (s_auth s)" using dev_inv_ota(2) [OF d] by (simp add: auth_inv_def)
  have "\<forall>k'\<in>set fs. forged E (session_key (s_auth ?s)) k' \<and> cache_lookup (pkt_key k') (s_auth ?s) = None"
  proof
    fix k' assume k': "k' \<in> set fs"
    then have "pkt_key k \<noteq> pkt_key k'" using Cons.prems(5) by auto
    then show "forged E (session_key (s_auth ?s)) k' \<and> cache_lookup (pkt_key k') (s_auth ?s) = None"
      using Cons.prems(4) k' ring.lookup_insert_other [OF ci ok, of "pkt_key k'"] by (simp add: e(1))
  qed
  with Cons.IH [OF inv] Cons.prems(2,3,5) obtain s' es where
    "run_ops (commands_handle_packet E) ?s fs = Some (map (\<lambda>_. Continues) fs, s')" "cmd_inv E s'"
    "s_auth s' = fold cache_insert es (s_auth ?s)" "map cached_key es = map pkt_key fs"
    "\<forall>e\<in>set es. cached_ok e" "s_ota s' = s_ota ?s"
    by (auto simp: e(1))
  then show ?case
    using step e(1) ok by (intro exI [of _ s'] exI [of _ "?e # es"]) (simp add: verdict_def)
qed

text \<open>Eight of them push every entry out that was there before.\<close>

lemma forged_evict:
  assumes "cmd_inv E s" "auth_required (s_auth s)" "authenticated (s_auth s)" "length fs = 8"
    "\<forall>k\<in>set fs. forged E (session_key (s_auth s)) k \<and> cache_lookup (pkt_key k) (s_auth s) = None"
    "distinct (map pkt_key fs)" "key \<notin> set (map pkt_key fs)"
  shows "\<exists>s'. run_ops (commands_handle_packet E) s fs = Some (map (\<lambda>_. Continues) fs, s') \<and> cmd_inv E s' \<and>
    s_ota s' = s_ota s \<and> cache_lookup key (s_auth s') = None \<and> auth_required (s_auth s') \<and>
    authenticated (s_auth s') \<and> session_key (s_auth s') = session_key (s_auth s)"
proof -
  obtain s' es where s': "run_ops (commands_handle_packet E) s fs = Some (map (\<lambda>_. Continues) fs, s')" "cmd_inv E s'"
    "s_auth s' = fold cache_insert es (s_auth s)" "map cached_key es = map pkt_key fs" "\<forall>e\<in>set es. cached_ok e"
    "s_ota s' = s_ota s"
    using forged_run [OF assms(1-3,5,6)] by blast
  have ci: "cache_inv (s_auth s)" using assms(1) by (simp add: cmd_inv_def dev_inv_def auth_inv_def)
  have "cached_key e \<noteq> key" if "e \<in> set es" for e
    using that s'(4) assms(7) by (metis image_eqI set_map)
  then have "cache_lookup key (s_auth s') = None"
    unfolding s'(3) using s'(4,5) assms(4) ring.evicted [OF ci, of es key] by (metis length_map order_refl)
  with s' assms(2,3) show ?thesis by auto
qed

text \<open>A fresh OTA request runs its operation and answers with the outcome.\<close>

definition ota_codes :: "u8 set" where
  "ota_codes = {cmd_code CMD_OTA_BEGIN, cmd_code CMD_OTA_DATA, cmd_code CMD_OTA_END, cmd_code CMD_OTA_ABORT}"

lemma ota_codes_protected: "c \<in> ota_codes \<Longrightarrow> auth_command_is_protected c"
  by (auto simp: ota_codes_def protected_iff protected_codes_def)

lemma ota_command_executes:
  assumes "cmd_inv E s" "packet_inv k" "pkt_version k = PROTOCOL_VERSION" "pkt_command k \<in> ota_codes"
    "request_status E k s = Fresh n"
  shows "commands_handle_packet E k s = do { (err, u) \<leftarrow> ota_request E (pkt_command k) (pkt_payload k) n s;
    Some (Continues, verdict E k err u) }"
  using assms commands_protected [OF _ assms(2,3) ota_codes_protected [OF assms(4)], of E s]
  by (auto simp: cmd_inv_def protected_command_def fresh_request_def ota_codes_def)

lemma commands_image:
  assumes "cmd_inv E s" "ota_image_inv s" "packet_inv k" "partitions_fit E"
  shows "ensures (commands_handle_packet E k s) (\<lambda>f s'. ota_image_inv s')"
proof -
  have d: "dev_inv E s" using assms(1) by (simp add: cmd_inv_def)
  have cong: "ota_image_inv s'" if "s_ota s' = s_ota s" "staged (trace s') = staged (trace s)" for s' :: "'a cmd_dev_scheme"
    using that assms(2) by (simp add: ota_image_inv_def)
  note sr = protocol_send_short_reply [OF dev_inv_ota(3) [OF d]]
  have tx: "staged (Esp_fill_random 16 # cs) = staged cs" for cs by simp
  have req: "ensures (ota_request E (pkt_command k) (pkt_payload k) n s) (\<lambda>r s'. ota_image_inv s')"
    if "request_status E k s = Fresh n" for n
    using ota_exec_image [of s "op_of (pkt_command k) (pkt_payload k) n" E] dev_inv_ota(1) [OF d] assms
      op_of_ok [OF fresh_length(2) [OF assms(3) that]]
    by (auto simp: ota_request_exec intro: ensures_mono)
  consider "pkt_version k = PROTOCOL_VERSION" "auth_command_is_protected (pkt_command k)"
    | "pkt_version k = PROTOCOL_VERSION" "pkt_command k = cmd_code CMD_GET_INFO"
    | "pkt_version k = PROTOCOL_VERSION" "pkt_command k = cmd_code CMD_AUTH"
    | "pkt_version k \<noteq> PROTOCOL_VERSION \<or> (pkt_command k \<noteq> cmd_code CMD_GET_INFO \<and>
         pkt_command k \<noteq> cmd_code CMD_AUTH \<and> pkt_command k \<notin> protected_codes)"
    unfolding protected_iff by blast
  then show ?thesis
  proof cases
    case 1
    have "ota_image_inv (snd (system_request E k n s))" for n
      using assms(2) by (auto simp: system_request_def verdict_def Let_def)
    then have "\<exists>r t. system_request E k n s = (r, t) \<and> ota_image_inv t" for n
      by (metis surjective_pairing)
    with assms(2) req show ?thesis
      unfolding commands_protected [OF d assms(3) 1]
      by (cases "request_status E k s")
         (auto simp: protected_command_def fresh_request_def verdict_def ensures_iff)
  next
    case 2
    then have "commands_handle_packet E k s = cmd_get_info E k s" by (simp add: commands_handle_packet_def)
    then show ?thesis
      by (simp only:) (rule ensures_mono [OF cmd_get_info_safe [OF assms(1)]], auto intro!: cong simp del: staged.simps)
  next
    case 3
    then have "commands_handle_packet E k s = cmd_auth E k s" by (simp add: commands_handle_packet_def)
    then show ?thesis
      by (simp only:) (rule ensures_mono [OF cmd_auth_safe [OF d assms(3)]],
          auto intro!: cong simp: tx simp del: staged.simps)
  qed (use assms(2) in \<open>auto simp: commands_handle_packet_def Let_def protected_codes_def sr\<close>)
qed

text \<open>The OTA operations call only the OTA service.\<close>

fun ota_call :: "call \<Rightarrow> bool" where
  "ota_call (Esp_ota_begin _ _ _ _) \<longleftrightarrow> True"
| "ota_call (Esp_ota_write _ _ _) \<longleftrightarrow> True"
| "ota_call (Esp_ota_end _ _) \<longleftrightarrow> True"
| "ota_call (Esp_ota_abort _ _) \<longleftrightarrow> True"
| "ota_call (Esp_ota_set_boot_partition _ _) \<longleftrightarrow> True"
| "ota_call _ \<longleftrightarrow> False"

lemma ota_exec_calls:
  assumes "ota_exec E op s = Some (r, s')"
  shows "list_all ota_call (take (length (trace s') - length (trace s)) (trace s'))"
  using assms
  by (cases op; simp only: ota_exec.simps ota_manager_begin_def ota_manager_write_data_def
      ota_manager_end_def ota_manager_abort_def Let_def emit_def)
     (auto split: if_splits Option.bind_splits prod.splits option.splits)

lemma ota_request_calls:
  assumes "ota_request E c p n s = Some (r, s')"
  obtains cs where "trace s' = cs @ trace s" "list_all ota_call cs"
proof -
  obtain cs where cs: "trace s' = cs @ trace s" using ota_request_log(1) [OF assms] by (auto simp: extends_def)
  then have "list_all ota_call cs"
    using assms ota_exec_calls [of E "op_of c p n" s r s'] by (auto simp: ota_request_exec split: if_splits)
  with cs show ?thesis using that by blast
qed

fun restart_call :: "call \<Rightarrow> bool" where
  "restart_call Esp_restart \<longleftrightarrow> True"
| "restart_call Esp_ota_mark_app_invalid_and_reboot \<longleftrightarrow> True"
| "restart_call _ \<longleftrightarrow> False"

lemma no_restart [simp]: "\<not> restart_call (tx_call s f)" "ota_call c \<Longrightarrow> \<not> restart_call c"
  by (auto simp: tx_call_def split: option.split writer_t.split elim: ota_call.elims)

text \<open>The condition for a restart: a request of the reboot or rollback command with an empty body, signed
  and not answered recently where authentication is enabled, while no update is active and, for a
  rollback, there is an image to go back to.\<close>

definition restart_due :: "esp_idf \<Rightarrow> protocol_packet_t \<Rightarrow> 'a auth_dev_scheme \<Rightarrow> bool" where
  "restart_due E k s \<longleftrightarrow> pkt_version k = PROTOCOL_VERSION \<and>
     (pkt_command k = cmd_code CMD_REBOOT \<or>
      pkt_command k = cmd_code CMD_ROLLBACK \<and> esp_ota_check_rollback_is_possible E (trace s)) \<and>
     \<not> ota_manager_is_active s \<and>
     (if auth_is_enabled s
      then authenticated (s_auth s) \<and> cache_lookup (pkt_command k, pkt_sequence k) (s_auth s) = None \<and>
        pkt_bytes k = request_tag E (session_key (s_auth s)) (pkt_command k) (pkt_sequence k) []
      else pkt_bytes k = [])"

text \<open>What is recorded before the restart, most recent first: the acknowledgement and the delay.\<close>

definition restart_notice :: "esp_idf \<Rightarrow> protocol_packet_t \<Rightarrow> 'a auth_dev_scheme \<Rightarrow> call list" where
  "restart_notice E k s = [VTaskDelay (pdMS_TO_TICKS E 100), tx_call s (wire (Msg PROTOCOL_VERSION (cmd_code CMD_ACK)
     (pkt_sequence k) (answer_payload E k (cmd_code CMD_ACK) [0] s)))]"

lemma fresh_empty_iff:
  assumes "packet_inv k"
  shows "request_status E k s = Fresh 0 \<longleftrightarrow> (if auth_is_enabled s
      then authenticated (s_auth s) \<and> cache_lookup (pkt_command k, pkt_sequence k) (s_auth s) = None \<and>
        pkt_bytes k = request_tag E (session_key (s_auth s)) (pkt_command k) (pkt_sequence k) []
      else pkt_bytes k = [])"
proof (cases "auth_required (s_auth s)")
  case True
  show ?thesis
  proof
    assume f: "request_status E k s = Fresh 0"
    from fresh_authorised [OF assms True f] obtain body where b: "authenticated (s_auth s)"
      "pkt_bytes k = body @ request_tag E (session_key (s_auth s)) (pkt_command k) (pkt_sequence k) body"
      "cache_lookup (pkt_command k, pkt_sequence k) (s_auth s) = None" by (auto simp: authorised_def)
    have "length (pkt_bytes k) \<le> 1024" using assms by (simp add: packet_inv_def pkt_bytes_def)
    then have "length body < 2 ^ 16" using b(2) by simp
    then have "length body = unat (of_nat (length body) :: u16)" by (simp add: unat_of_nat)
    also have "\<dots> = 0" using tagged_fresh(1) [OF assms True b(1,3,2)] f by simp
    finally have "body = []" by simp
    with b True show "if auth_is_enabled s
      then authenticated (s_auth s) \<and> cache_lookup (pkt_command k, pkt_sequence k) (s_auth s) = None \<and>
        pkt_bytes k = request_tag E (session_key (s_auth s)) (pkt_command k) (pkt_sequence k) []
      else pkt_bytes k = []" by (simp add: auth_is_enabled_def)
  next
    assume "if auth_is_enabled s
      then authenticated (s_auth s) \<and> cache_lookup (pkt_command k, pkt_sequence k) (s_auth s) = None \<and>
        pkt_bytes k = request_tag E (session_key (s_auth s)) (pkt_command k) (pkt_sequence k) []
      else pkt_bytes k = []"
    then show "request_status E k s = Fresh 0"
      using tagged_fresh(1) [OF assms True, where E = E and body = "[]"] True by (simp add: auth_is_enabled_def)
  qed
next
  case False
  moreover have "pkt_bytes k = [] \<longleftrightarrow> pkt_length k = 0"
    using length_pkt_bytes [OF assms] unfolding pkt_bytes_def by (metis length_0_conv unat_0 unat_eq_zero)
  ultimately show ?thesis by (simp add: request_status_def auth_is_enabled_def Let_def)
qed

lemma verdict_trace: "\<exists>fr. trace (verdict E k err s) = tx_call s fr # trace s"
  unfolding verdict_def trace_answer by blast

text \<open>No restart happened.\<close>

definition stays_up :: "'a auth_dev_scheme \<Rightarrow> flow \<Rightarrow> 'a auth_dev_scheme \<Rightarrow> bool" where
  "stays_up s f s' \<longleftrightarrow> f = Continues \<and> (\<exists>cs. trace s' = cs @ trace s \<and> \<not> list_ex restart_call cs)"

lemma stays_upI: "trace s' = cs @ trace s \<Longrightarrow> \<not> list_ex restart_call cs \<Longrightarrow> stays_up s Continues s'"
  by (auto simp: stays_up_def)

lemma stays_up_reply [simp]: "stays_up s Continues (reply c q p s)"
  by (rule stays_upI [where cs = "[tx_call s _]"]) simp_all

lemma stays_up_verdict [simp]: "stays_up s Continues (verdict E k err s)"
proof -
  obtain fr where "trace (verdict E k err s) = [tx_call s fr] @ trace s" using verdict_trace by fastforce
  then show ?thesis by (rule stays_upI) simp
qed

lemma ota_stays_up:
  assumes "ota_request E c p n s = Some (r, t)"
  shows "stays_up s Continues (verdict E k r t)"
proof -
  obtain cs where cs: "trace t = cs @ trace s" "list_all ota_call cs" using assms by (rule ota_request_calls)
  obtain fr where "trace (verdict E k r t) = tx_call t fr # trace t" using verdict_trace by blast
  then have "trace (verdict E k r t) = (tx_call t fr # cs) @ trace s" using cs(1) by simp
  then show ?thesis by (rule stays_upI) (use cs(2) in \<open>auto simp: list_all_iff list_ex_iff\<close>)
qed

lemma system_request_refused:
  assumes "\<not> (n = 0 \<and> \<not> ota_manager_is_active s \<and>
    (pkt_command k = cmd_code CMD_REBOOT \<or> esp_ota_check_rollback_is_possible E (trace s)))"
  shows "\<exists>err. system_request E k n s = (Continues, verdict E k err s)"
  using assms by (auto simp: system_request_def)

lemma protected_restarts:
  assumes "dev_inv E s" "packet_inv k" "pkt_version k = PROTOCOL_VERSION" "protected_command E k s = Some (f, s')"
  shows "if restart_due E k s
    then (f, s') = system_request E k 0 s \<and> request_status E k s = Fresh 0 else stays_up s f s'"
proof (cases "request_status E k s")
  case (Fresh n)
  then have fr: "fresh_request E k n s = Some (f, s')" using assms(4) by (simp add: protected_command_def)
  show ?thesis
  proof (cases "pkt_command k \<in> {cmd_code CMD_REBOOT, cmd_code CMD_ROLLBACK}")
    case True
    then have sys: "(f, s') = system_request E k n s" using fr by (simp add: fresh_request_def)
    show ?thesis
    proof (cases "restart_due E k s")
      case due: True
      then have "n = 0" using Fresh fresh_empty_iff [OF assms(2), of E s] by (simp add: restart_due_def)
      with sys Fresh due show ?thesis by simp
    next
      case False
      then have "\<not> (n = 0 \<and> \<not> ota_manager_is_active s \<and>
          (pkt_command k = cmd_code CMD_REBOOT \<or> esp_ota_check_rollback_is_possible E (trace s)))"
        using True Fresh assms(3) fresh_empty_iff [OF assms(2), of E s] by (auto simp: restart_due_def)
      then obtain err where "system_request E k n s = (Continues, verdict E k err s)"
        using system_request_refused by blast
      with sys False show ?thesis by simp
    qed
  next
    case False
    then obtain r t where "ota_request E (pkt_command k) (pkt_payload k) n s = Some (r, t)" "f = Continues"
      "s' = verdict E k r t" using fr by (auto simp: fresh_request_def bind_eq_Some)
    then show ?thesis using False ota_stays_up by (auto simp: restart_due_def)
  qed
qed (use assms(4) fresh_empty_iff [OF assms(2), of E s] in
  \<open>auto simp: protected_command_def restart_due_def\<close>)

lemma commands_restarts:
  assumes "cmd_inv E s" "packet_inv k" "commands_handle_packet E k s = Some (f, s')"
  shows "if restart_due E k s
    then (f, s') = system_request E k 0 s \<and> request_status E k s = Fresh 0 else stays_up s f s'"
proof -
  have d: "dev_inv E s" using assms(1) by (simp add: cmd_inv_def)
  note sr = protocol_send_short_reply [OF dev_inv_ota(3) [OF d]]
  consider "pkt_version k = PROTOCOL_VERSION" "auth_command_is_protected (pkt_command k)"
    | "pkt_version k = PROTOCOL_VERSION" "pkt_command k = cmd_code CMD_GET_INFO"
    | "pkt_version k = PROTOCOL_VERSION" "pkt_command k = cmd_code CMD_AUTH"
    | "pkt_version k \<noteq> PROTOCOL_VERSION \<or> (pkt_command k \<noteq> cmd_code CMD_GET_INFO \<and>
         pkt_command k \<noteq> cmd_code CMD_AUTH \<and> pkt_command k \<notin> protected_codes)"
    unfolding protected_iff by blast
  then show ?thesis
  proof cases
    case 1
    then have "protected_command E k s = Some (f, s')" using commands_protected [OF d assms(2) 1] assms(3) by simp
    from protected_restarts [OF d assms(2) 1(1) this] show ?thesis .
  next
    case 2
    then have "cmd_get_info E k s = Some (f, s')" using assms(3) by (simp add: commands_handle_packet_def)
    then obtain fr where "f = Continues" "trace s' = [tx_call s fr] @ trace s"
      using cmd_get_info_safe [OF assms(1), of k] by auto
    then show ?thesis using 2 stays_upI [of s' "[tx_call s fr]" s] by (simp add: restart_due_def)
  next
    case 3
    then have "cmd_auth E k s = Some (f, s')" using assms(3) by (simp add: commands_handle_packet_def)
    then obtain fr cs where "f = Continues" "trace s' = cs @ trace s"
      "cs = [tx_call s fr] \<or> cs = [tx_call s fr, Esp_fill_random 16]"
      using cmd_auth_safe [OF d assms(2)] by auto
    then show ?thesis using 3 stays_upI [of s' cs s] by (auto simp: restart_due_def)
  next
    case 4
    then show ?thesis
      using assms(3)
      by (auto simp: commands_handle_packet_def Let_def protected_codes_def sr restart_due_def split: if_splits)
  qed
qed

lemma sample_cmd_fields:
  "s_auth sample_cmd = s_auth sample_open" "trace sample_cmd = []" "s_ota sample_cmd = zero_ota"
  "s_info_payload sample_cmd = replicate 1024 0" "s_tx_buffer sample_cmd = replicate 1036 0"
  "s_actual_sha256 sample_cmd = replicate 32 0"
  by (simp_all add: sample_cmd_def sample_info_def sample_open_def sample_locked_def sample_idle_def
      info_dev.defs cmd_dev.defs auth_dev.defs ota_dev.defs)

lemma sample_cmd_inv [simp]: "cmd_inv sample_idf sample_cmd" "auth_required (s_auth sample_cmd)"
  "authenticated (s_auth sample_cmd)" "cache_lookup key (s_auth sample_cmd) = None" "ota_image_inv sample_cmd"
proof -
  have "dev_inv sample_idf sample_open" by simp
  then have "auth_inv sample_idf (s_auth sample_cmd)" by (simp add: dev_inv_def sample_cmd_fields)
  then show "cmd_inv sample_idf sample_cmd"
    by (simp add: cmd_inv_def dev_inv_def protocol_inv_def ota_inv_def sample_cmd_fields zero_ota_def)
  show "auth_required (s_auth sample_cmd)" "authenticated (s_auth sample_cmd)"
    using sample_open_inv(2) by (simp_all add: sample_cmd_fields protected_session_def)
  show "cache_lookup key (s_auth sample_cmd) = None" by (simp add: sample_cmd_fields)
  show "ota_image_inv sample_cmd" by (simp add: ota_image_inv_def sample_cmd_fields zero_ota_def)
qed

section \<open>Properties\<close>

text \<open>C20. Every packet is handled: \<open>commands_handle_packet\<close> never leaves an array whatever the packet
  and the services contain, keeps the invariant of the whole device, and sends exactly one frame,
  of at most 1024 payload bytes, that carries the sequence number of the request.\<close>

theorem command_answered_once:
  assumes "cmd_inv E s" "packet_inv k"
  shows "ensures (commands_handle_packet E k s) (\<lambda>f s'. cmd_inv E s' \<and>
    (\<exists>c p. length p \<le> 1024 \<and>
       sent (trace s') = wire (Msg PROTOCOL_VERSION c (pkt_sequence k) p) # sent (trace s)))"
  using commands_safe [OF assms] by (rule ensures_mono) (simp add: one_reply_def)

theorem command_answered_once_witness:
  "ensures (commands_handle_packet sample_idf (sample_packet 2 7 []) sample_cmd) (\<lambda>f s'. cmd_inv sample_idf s' \<and>
    (\<exists>c p. length p \<le> 1024 \<and>
       sent (trace s') = wire (Msg PROTOCOL_VERSION c (pkt_sequence (sample_packet 2 7 [])) p) #
         sent (trace sample_cmd)))"
  by (rule command_answered_once) simp_all

text \<open>C21. No effect without authorisation: while authentication is required, a packet changes the OTA
  state, calls anything but the link and the random source, or restarts the chip only if it is a
  request of a protected command in an open session whose payload is a body with the tag of
  command, sequence and body under the session key, and whose command and sequence number are not
  those of a recently answered request.\<close>

theorem effects_need_authorisation:
  assumes "cmd_inv E s" "packet_inv k" "auth_is_enabled s"
  shows "ensures (commands_handle_packet E k s) (\<lambda>f s'. \<exists>cs. trace s' = cs @ trace s \<and>
    (f = Reboots \<or> s_ota s' \<noteq> s_ota s \<or> (\<exists>c\<in>set cs. privileged c) \<longrightarrow>
       auth_command_is_protected (pkt_command k) \<and> authenticated (s_auth s) \<and>
       (\<exists>body. pkt_bytes k = body @
          request_tag E (session_key (s_auth s)) (pkt_command k) (pkt_sequence k) body) \<and>
       cache_lookup (pkt_command k, pkt_sequence k) (s_auth s) = None))"
proof (cases "authorised E k s \<and> auth_command_is_protected (pkt_command k) \<and> pkt_version k = PROTOCOL_VERSION")
  case True
  then show ?thesis
    using ensures_mono [OF commands_safe [OF assms(1,2)]]
    by (auto simp: authorised_def extends_def)
next
  case False
  have "auth_required (s_auth s)" using assms(3) by (simp add: auth_is_enabled_def)
  from commands_effects [OF assms(1,2) this False] show ?thesis
    by (rule ensures_mono) auto
qed

theorem effects_need_authorisation_witness:
  "ensures (commands_handle_packet sample_idf (sample_abort 1) sample_cmd) (\<lambda>f s'. \<exists>cs. trace s' = cs @ trace sample_cmd \<and>
    (f = Reboots \<or> s_ota s' \<noteq> s_ota sample_cmd \<or> (\<exists>c\<in>set cs. privileged c) \<longrightarrow>
       auth_command_is_protected (pkt_command (sample_abort 1)) \<and> authenticated (s_auth sample_cmd) \<and>
       (\<exists>body. pkt_bytes (sample_abort 1) = body @
          request_tag sample_idf (session_key (s_auth sample_cmd)) (pkt_command (sample_abort 1))
            (pkt_sequence (sample_abort 1)) body) \<and>
       cache_lookup (pkt_command (sample_abort 1), pkt_sequence (sample_abort 1)) (s_auth sample_cmd) = None))"
  by (rule effects_need_authorisation) (simp_all add: auth_is_enabled_def sample_abort_def)

text \<open>C22. What a refused request does.  A request of a protected command that is refused (no session, a
  wrong tag, or a reused command and sequence number with other bytes) is answered by exactly one
  NACK \<open>ERR_AUTH_REQUIRED\<close>.  Without a session nothing is stored; in an open session the NACK is signed
  and it is put into the replay cache under the command and sequence number of the request, which is
  all that changes in the authentication state.  Outside the authentication state, the transmit
  buffer and the default writer nothing changes: not the update, the boot counter or the
  \<open>INFO\<close> buffer.\<close>

theorem refused_request_only_nacked:
  assumes "cmd_inv E s" "packet_inv k" "pkt_version k = PROTOCOL_VERSION"
    "auth_command_is_protected (pkt_command k)" "request_status E k s = Refused"
  shows "\<exists>s' nack. nack = answer_payload E k (cmd_code CMD_NACK) [err_code ERR_AUTH_REQUIRED] s \<and>
    commands_handle_packet E k s = Some (Continues, s') \<and>
    trace s' = tx_call s (wire (Msg PROTOCOL_VERSION (cmd_code CMD_NACK) (pkt_sequence k) nack)) # trace s \<and>
    s_auth s' = (if authenticated (s_auth s)
      then cache_insert (Cached (pkt_command k, pkt_sequence k) (packet_digest E k) (cmd_code CMD_NACK, nack)) (s_auth s)
      else s_auth s) \<and>
    s' = s\<lparr>trace := trace s', s_tx_buffer := s_tx_buffer s', s_write := s_write s',
           s_write_context := s_write_context s', s_auth := s_auth s'\<rparr>"
proof -
  have d: "dev_inv E s" using assms(1) by (simp add: cmd_inv_def)
  have "auth_required (s_auth s)"
    using assms(5) by (auto simp: request_status_def Let_def split: if_splits)
  then have "protected_session s (pkt_command k) \<longleftrightarrow> authenticated (s_auth s)"
    using assms(4) by (simp add: protected_session_def)
  then have "s_auth (verdict E k ERR_AUTH_REQUIRED s) = (if authenticated (s_auth s)
      then cache_insert (Cached (pkt_command k, pkt_sequence k) (packet_digest E k)
        (cmd_code CMD_NACK, answer_payload E k (cmd_code CMD_NACK) [err_code ERR_AUTH_REQUIRED] s)) (s_auth s)
      else s_auth s)"
    by (simp add: verdict_def answer_def answer_payload_def Let_def)
  then show ?thesis
    using verdict_frame [of E k ERR_AUTH_REQUIRED s]
    unfolding commands_protected [OF d assms(2-4)] protected_command_def assms(5)
    by (simp add: verdict_def)
qed

theorem refused_request_only_nacked_witness:
  "\<exists>s' nack. nack = answer_payload sample_idf (sample_packet 0x13 1 []) (cmd_code CMD_NACK)
      [err_code ERR_AUTH_REQUIRED] sample_cmd \<and>
    commands_handle_packet sample_idf (sample_packet 0x13 1 []) sample_cmd = Some (Continues, s') \<and>
    trace s' = tx_call sample_cmd (wire (Msg PROTOCOL_VERSION (cmd_code CMD_NACK)
      (pkt_sequence (sample_packet 0x13 1 [])) nack)) # trace sample_cmd \<and>
    s_auth s' = (if authenticated (s_auth sample_cmd)
      then cache_insert (Cached (pkt_command (sample_packet 0x13 1 []), pkt_sequence (sample_packet 0x13 1 []))
        (packet_digest sample_idf (sample_packet 0x13 1 [])) (cmd_code CMD_NACK, nack)) (s_auth sample_cmd)
      else s_auth sample_cmd) \<and>
    s' = sample_cmd\<lparr>trace := trace s', s_tx_buffer := s_tx_buffer s', s_write := s_write s',
           s_write_context := s_write_context s', s_auth := s_auth s'\<rparr>"
  by (rule refused_request_only_nacked)
     (simp_all add: auth_command_is_protected_def request_status_def Let_def)

text \<open>C23. Lost acknowledgement.  With authentication enabled, take an authorised request that the device
  executed and answered without restarting.  Sent again, immediately or after other traffic (any
  number of copies of the packet itself and fewer than eight other packets, none of them an \<open>AUTH\<close>
  packet or one with the same command and sequence number, and none that restarts the device), the
  packet gets the very same response frame and has no other effect: the update and the
  authentication state stay as they are.\<close>

theorem retry_without_effect:
  assumes "cmd_inv E s" "packet_inv k" "pkt_version k = PROTOCOL_VERSION"
    "auth_command_is_protected (pkt_command k)" "auth_is_enabled s" "request_status E k s = Fresh n"
    "commands_handle_packet E k s = Some (Continues, s1)"
    and "pending_traffic k ks" "length (filter (\<lambda>k'. k' \<noteq> k) ks) < 8"
    "run_ops (commands_handle_packet E) s1 ks = Some (fs, s2)" "set fs \<subseteq> {Continues}"
  shows "\<exists>fr s3. sent (trace s1) = fr # sent (trace s) \<and>
    commands_handle_packet E k s2 = Some (Continues, s3) \<and>
    trace s3 = tx_call s2 fr # trace s2 \<and> s_ota s3 = s_ota s2 \<and> s_auth s3 = s_auth s2"
proof -
  have d: "dev_inv E s" using assms(1) by (simp add: cmd_inv_def)
  have i1: "cmd_inv E s1" using commands_safe [OF assms(1,2)] assms(7) by simp
  have fr: "fresh_request E k n s = Some (Continues, s1)"
    using assms(6,7) by (simp add: commands_protected [OF d assms(2-4)] protected_command_def)
  have req: "auth_required (s_auth s)" using assms(5) by (simp add: auth_is_enabled_def)
  obtain e where e: "answered E k e [] (s_auth s1)" "s_auth s1 = cache_insert e (s_auth s)"
    "sent (trace s1) = wire (Msg PROTOCOL_VERSION (fst (cached_response e)) (pkt_sequence k)
       (snd (cached_response e))) # sent (trace s)"
    using fresh_answered [OF d assms(2) req assms(4,6) fr] .
  have r: "cmd_inv E s2 \<and> request_status E k s2 = Repeated e"
    using answered_run [OF i1 assms(2-4) e(1) assms(8)] assms(9,10) by simp
  then have d2: "dev_inv E s2" by (simp add: cmd_inv_def)
  have "commands_handle_packet E k s2 = Some (Continues, reply (fst (cached_response e)) (pkt_sequence k)
      (snd (cached_response e)) s2)"
    using r by (simp add: commands_protected [OF d2 assms(2-4)] protected_command_def)
  with e(3) show ?thesis by simp
qed

lemma sample_abort_fresh: "request_status sample_idf (sample_abort 1) sample_cmd = Fresh 0"
proof -
  let ?t = "request_tag sample_idf (session_key (s_auth sample_open)) 0x13 1 []"
  have "unat (pkt_length (sample_abort 1)) = 16" "pkt_payload (sample_abort 1) = ?t @ replicate 1008 0"
    "pkt_length (sample_abort 1) = 16" "pkt_command (sample_abort 1) = 0x13" "pkt_sequence (sample_abort 1) = 1"
    by (simp_all add: sample_abort_def sample_packet_def)
  then show ?thesis by (simp add: request_status_def sample_cmd_fields(1)) (use sample_cmd_inv in \<open>simp add: sample_cmd_fields(1)\<close>)
qed

theorem retry_without_effect_witness:
  "\<exists>s1 fs s2 fr s3. commands_handle_packet sample_idf (sample_abort 1) sample_cmd = Some (Continues, s1) \<and>
    run_ops (commands_handle_packet sample_idf) s1 [sample_abort 1, sample_packet 1 2 []] = Some (fs, s2) \<and>
    sent (trace s1) = fr # sent (trace sample_cmd) \<and>
    commands_handle_packet sample_idf (sample_abort 1) s2 = Some (Continues, s3) \<and>
    trace s3 = tx_call s2 fr # trace s2 \<and> s_ota s3 = s_ota s2 \<and> s_auth s3 = s_auth s2"
proof -
  let ?ks = "[sample_abort 1, sample_packet 1 2 []]"
  have k: "packet_inv (sample_abort 1)" "pkt_version (sample_abort 1) = PROTOCOL_VERSION"
    "auth_command_is_protected (pkt_command (sample_abort 1))"
    by (simp_all add: sample_abort_def auth_command_is_protected_def)
  have d: "dev_inv sample_idf sample_cmd" using sample_cmd_inv(1) by (simp add: cmd_inv_def)
  have quiet: "f = Continues" if "commands_handle_packet sample_idf (sample_abort 1) t = Some (f, t')" "cmd_inv sample_idf t"
    for f t t'
    using that protected_continues [of "sample_abort 1" sample_idf t f t'] commands_protected [OF _ k, of sample_idf t]
    by (simp add: cmd_inv_def sample_abort_def)
  obtain s1 where 1: "commands_handle_packet sample_idf (sample_abort 1) sample_cmd = Some (Continues, s1)" "cmd_inv sample_idf s1"
    using commands_safe [OF sample_cmd_inv(1) k(1)] quiet [OF _ sample_cmd_inv(1)] by (auto simp: ensures_iff)
  obtain t where t: "commands_handle_packet sample_idf (sample_abort 1) s1 = Some (Continues, t)" "cmd_inv sample_idf t"
    using commands_safe [OF 1(2) k(1)] quiet [OF _ 1(2)] by (auto simp: ensures_iff)
  have "protocol_inv t" using t(2) by (simp add: cmd_inv_def dev_inv_def)
  then have "\<exists>s2. commands_handle_packet sample_idf (sample_packet 1 2 []) t = Some (Continues, s2)"
    by (simp add: commands_handle_packet_def sample_packet_def protocol_send_short_reply)
  then obtain s2 where 2: "run_ops (commands_handle_packet sample_idf) s1 ?ks = Some ([Continues, Continues], s2)"
    using t(1) by auto
  have "pending_traffic (sample_abort 1) ?ks"
    by (simp add: pending_traffic_def pkt_key_def sample_abort_def)
  from retry_without_effect [OF sample_cmd_inv(1) k _ sample_abort_fresh 1(1) this _ 2] show ?thesis
    using 1(1) 2 by (auto simp: auth_is_enabled_def)
qed

text \<open>C24. Which packets restart the device.  For every packet, the chip is restarted, or the running image
  given up, exactly when the packet is a reboot or rollback request of version 1 with an empty body
  (signed with the session key and not answered recently where authentication is enabled), no update
  is active and, for a rollback, an image to go back to exists.  The device then sends the (signed)
  acknowledgement, waits 100 ms and makes the one call of the command, in this order; a rollback
  that the service refuses returns.  No other packet makes a call that restarts the chip or ends the
  handling in a restart.\<close>

theorem restart_only_when_idle:
  assumes "cmd_inv E s" "packet_inv k"
  shows "ensures (commands_handle_packet E k s) (\<lambda>f s'. \<exists>cs. trace s' = cs @ trace s \<and>
    (if restart_due E k s
     then (if pkt_command k = cmd_code CMD_REBOOT
           then cs = Esp_restart # restart_notice E k s \<and> f = Reboots
           else cs = Esp_ota_mark_app_invalid_and_reboot # restart_notice E k s \<and>
             (f = Reboots \<longleftrightarrow>
              esp_ota_mark_app_invalid_rollback_and_reboot E (restart_notice E k s @ trace s) = None))
     else f = Continues \<and> \<not> list_ex restart_call cs))"
proof -
  obtain f s' where h: "commands_handle_packet E k s = Some (f, s')"
    using commands_safe [OF assms] by (auto simp: ensures_iff)
  show ?thesis
  proof (cases "restart_due E k s")
    case True
    then have "(f, s') = system_request E k 0 s" using commands_restarts [OF assms h] by simp
    with True h show ?thesis
      by (auto simp: system_request_def restart_due_def restart_notice_def verdict_def Let_def split: option.splits)
  next
    case False
    then show ?thesis using commands_restarts [OF assms h] h by (simp add: stays_up_def)
  qed
qed

definition sample_reboot :: protocol_packet_t where
  "sample_reboot = sample_packet 3 1 (request_tag sample_idf (session_key (s_auth sample_open)) 3 1 [])"

theorem restart_only_when_idle_witness:
  "\<exists>s'. commands_handle_packet sample_idf sample_reboot sample_cmd = Some (Reboots, s') \<and>
    trace s' = [Esp_restart, VTaskDelay (pdMS_TO_TICKS sample_idf 100),
      tx_call sample_cmd (wire (Msg PROTOCOL_VERSION (cmd_code CMD_ACK) 1
        (answer_payload sample_idf sample_reboot (cmd_code CMD_ACK) [0] sample_cmd)))]"
proof -
  have k: "packet_inv sample_reboot" by (simp add: sample_reboot_def)
  have "restart_due sample_idf sample_reboot sample_cmd"
    by (simp add: restart_due_def auth_is_enabled_def ota_manager_is_active_def sample_cmd_fields zero_ota_def
        sample_reboot_def)
       (use sample_cmd_inv in \<open>simp add: sample_cmd_fields(1)\<close>)
  moreover have "pkt_command sample_reboot = 3" "pkt_sequence sample_reboot = 1"
    by (simp_all add: sample_reboot_def)
  ultimately show ?thesis
    using restart_only_when_idle [OF sample_cmd_inv(1) k]
    by (auto simp: ensures_iff restart_notice_def sample_cmd_fields)
qed

text \<open>C25. The cache does not stop an authorised request from being executed twice, because it also stores
  the answers to requests that failed the tag check.  Let the device, in an open session, have
  executed an authorised OTA request.  Eight forged requests (of protected commands, without a valid
  tag, so anyone can send them), with command and sequence numbers different from each other, from
  the request and from what the cache held before, are all refused, but they push the entry of the
  request out.  The recorded packet, sent again in the same session, is then executed again: its
  operation runs on the OTA state as the first execution left it.\<close>

theorem forged_requests_reopen_replay:
  assumes "cmd_inv E s" "packet_inv k" "pkt_version k = PROTOCOL_VERSION" "auth_is_enabled s"
    "pkt_command k \<in> ota_codes"
    and "authenticated (s_auth s)" "cache_lookup (pkt_key k) (s_auth s) = None"
    and "pkt_bytes k = body @ request_tag E (session_key (s_auth s)) (pkt_command k) (pkt_sequence k) body"
    and "length fs = 8" "distinct (map pkt_key (k # fs))"
    and "\<forall>k'\<in>set fs. forged E (session_key (s_auth s)) k' \<and> cache_lookup (pkt_key k') (s_auth s) = None"
  shows "\<exists>execute s1 s2.
    execute = (\<lambda>t. do { (err, u) \<leftarrow> ota_request E (pkt_command k) (pkt_payload k) (of_nat (length body)) t;
      Some (Continues, verdict E k err u) }) \<and>
    commands_handle_packet E k s = execute s \<and> execute s = Some (Continues, s1) \<and>
    run_ops (commands_handle_packet E) s1 fs = Some (map (\<lambda>_. Continues) fs, s2) \<and> s_ota s2 = s_ota s1 \<and>
    commands_handle_packet E k s2 = execute s2 \<and> execute s2 \<noteq> None"
proof -
  let ?n = "of_nat (length body) :: u16"
  have d: "dev_inv E s" using assms(1) by (simp add: cmd_inv_def)
  have req: "auth_required (s_auth s)" using assms(4) by (simp add: auth_is_enabled_def)
  note prot = ota_codes_protected [OF assms(5)]
  note execute = ota_command_executes [OF _ assms(2,3,5)]
  have fresh: "request_status E k s = Fresh ?n"
    using tagged_fresh(1) [OF assms(2) req assms(6) _ assms(8)] assms(7) by (simp add: pkt_key_def)
  obtain f s1 where s1: "commands_handle_packet E k s = Some (f, s1)" "cmd_inv E s1"
    using commands_safe [OF assms(1,2)] by (auto simp: ensures_iff)
  have f: "f = Continues" using s1(1) execute [OF assms(1) fresh] by (auto simp: bind_eq_Some)
  have fr: "fresh_request E k ?n s = Some (f, s1)"
    using s1(1) fresh by (simp add: commands_protected [OF d assms(2,3) prot] protected_command_def)
  obtain e where e: "answered E k e [] (s_auth s1)" "s_auth s1 = cache_insert e (s_auth s)"
    using fresh_answered [OF d assms(2) req prot fresh fr] .
  have ci: "cache_inv (s_auth s)" using d by (simp add: dev_inv_def auth_inv_def)
  have ok: "cached_ok e" "cached_key e = pkt_key k" using e(1) by (auto simp: answered_def)
  have "\<forall>k'\<in>set fs. forged E (session_key (s_auth s1)) k' \<and> cache_lookup (pkt_key k') (s_auth s1) = None"
  proof
    fix k' assume k': "k' \<in> set fs"
    then have "cached_key e \<noteq> pkt_key k'" using assms(10) ok(2) by auto
    then show "forged E (session_key (s_auth s1)) k' \<and> cache_lookup (pkt_key k') (s_auth s1) = None"
      using assms(11) k' ring.lookup_insert_other [OF ci ok(1), of "pkt_key k'"] by (simp add: e(2))
  qed
  then obtain s2 where s2: "run_ops (commands_handle_packet E) s1 fs = Some (map (\<lambda>_. Continues) fs, s2)" "cmd_inv E s2"
    "s_ota s2 = s_ota s1" "cache_lookup (pkt_key k) (s_auth s2) = None" "auth_required (s_auth s2)"
    "authenticated (s_auth s2)" "session_key (s_auth s2) = session_key (s_auth s)"
    using forged_evict [OF s1(2) _ _ assms(9), of "pkt_key k"] req assms(6,10) by (auto simp: e(2))
  have fresh2: "request_status E k s2 = Fresh ?n"
    using tagged_fresh(1) [OF assms(2) s2(5,6) _, where E = E and body = body] s2(4,7) assms(8) by (simp add: pkt_key_def)
  have "commands_handle_packet E k s2 \<noteq> None"
    using commands_safe [OF s2(2) assms(2)] by (auto simp: ensures_iff)
  then show ?thesis
    using execute [OF assms(1) fresh] execute [OF s2(2) fresh2] s1(1) f s2(1,3) by metis
qed

definition sample_forged :: "protocol_packet_t list" where
  "sample_forged = map (\<lambda>q. sample_packet 0x12 q []) [2, 3, 4, 5, 6, 7, 8, 9]"

lemma sample_forged_ok:
  "k \<in> set sample_forged \<Longrightarrow> forged E sk k" "distinct (map pkt_key (sample_abort 1 # sample_forged))"
proof -
  have "forged E sk (sample_packet 0x12 q [])" for q
    by (auto simp: forged_def auth_command_is_protected_def dest: arg_cong [of _ _ length])
  then show "k \<in> set sample_forged \<Longrightarrow> forged E sk k" by (auto simp: sample_forged_def)
  show "distinct (map pkt_key (sample_abort 1 # sample_forged))"
    by (simp add: sample_forged_def pkt_key_def sample_abort_def)
qed

theorem forged_requests_reopen_replay_witness:
  "\<exists>execute s1 s2.
    execute = (\<lambda>t. do { (err, u) \<leftarrow> ota_request sample_idf (pkt_command (sample_abort 1)) (pkt_payload (sample_abort 1))
        (of_nat (length ([] :: bytes))) t;
      Some (Continues, verdict sample_idf (sample_abort 1) err u) }) \<and>
    commands_handle_packet sample_idf (sample_abort 1) sample_cmd = execute sample_cmd \<and>
    execute sample_cmd = Some (Continues, s1) \<and>
    run_ops (commands_handle_packet sample_idf) s1 sample_forged = Some (map (\<lambda>_. Continues) sample_forged, s2) \<and>
    s_ota s2 = s_ota s1 \<and> commands_handle_packet sample_idf (sample_abort 1) s2 = execute s2 \<and> execute s2 \<noteq> None"
proof (rule forged_requests_reopen_replay [OF sample_cmd_inv(1) _ _ _ _ sample_cmd_inv(3,4) _ _ sample_forged_ok(2)])
  show "pkt_bytes (sample_abort 1) = [] @ request_tag sample_idf (session_key (s_auth sample_cmd))
      (pkt_command (sample_abort 1)) (pkt_sequence (sample_abort 1)) []"
    by (simp add: sample_abort_def sample_cmd_fields(1))
qed (simp_all add: auth_is_enabled_def sample_forged_ok(1), simp_all add: sample_abort_def sample_forged_def ota_codes_def)

end
