(* ===== verification/Ota_Link.thy ===== *)
theory Ota_Link
  imports Commands Framing
begin

text \<open>
  \<^verbatim>\<open>ota_link.h\<close>, \<^verbatim>\<open>ota_link.c\<close> and \<^verbatim>\<open>main.c\<close>: configuration, start-up with its error paths, the
  command loop, and the confirmation of a new image.

  The device as a whole is a step relation over events: a start request, one iteration of the
  command loop with what the transport returned, the two parts of the confirmation task (before and
  after its delay), and the calls an application makes.  \<open>device_run\<close> gives the states of one boot; a
  step that restarts the chip ends it.  Events interleave freely: between the two parts of the
  confirmation task the loop receives, packets are handled and the application makes its calls.
  Each event is atomic.  Of the static variables of \<^verbatim>\<open>ota_link.c\<close> the tasks share \<open>s_config\<close>, which
  only a start writes, and a start is refused before it writes once the command task exists, and the
  handle of the confirmation task, which that task clears as its last act.
\<close>

section \<open>Configuration and state\<close>

text \<open>A transport table: the built-in one, or one of the application with two function pointers.\<close>

datatype ota_link_transport_t = S_uart_transport | Custom_transport "nat option" "nat option"

record ota_link_config_t =
  uart_port :: uart_port_t
  baud_rate :: int
  tx_io_num :: int
  rx_io_num :: int
  rts_io_num :: int
  cts_io_num :: int
  rx_buffer_size :: int
  task_stack_size :: u32
  task_priority :: u32
  auto_mark_app_valid :: bool
  auto_mark_valid_delay_ms :: u32
  cfg_auth_key :: "bytes option"
  cfg_auth_key_len :: nat
  require_authentication :: bool
  transport :: "ota_link_transport_t option"
  transport_context :: int

definition OTA_LINK_DEFAULT_CONFIG :: "esp_idf \<Rightarrow> ota_link_config_t" where
  "OTA_LINK_DEFAULT_CONFIG E = \<lparr>uart_port = UART_NUM_0 E, baud_rate = 115200,
     tx_io_num = UART_PIN_NO_CHANGE E, rx_io_num = UART_PIN_NO_CHANGE E,
     rts_io_num = UART_PIN_NO_CHANGE E, cts_io_num = UART_PIN_NO_CHANGE E, rx_buffer_size = 2048,
     task_stack_size = 8192, task_priority = 5, auto_mark_app_valid = False,
     auto_mark_valid_delay_ms = 5000, cfg_auth_key = None, cfg_auth_key_len = 0,
     require_authentication = False, transport = None, transport_context = 0\<rparr>"

definition zero_config :: ota_link_config_t where
  "zero_config = \<lparr>uart_port = 0, baud_rate = 0, tx_io_num = 0, rx_io_num = 0, rts_io_num = 0,
     cts_io_num = 0, rx_buffer_size = 0, task_stack_size = 0, task_priority = 0,
     auto_mark_app_valid = False, auto_mark_valid_delay_ms = 0, cfg_auth_key = None,
     cfg_auth_key_len = 0, require_authentication = False, transport = None, transport_context = 0\<rparr>"

record link_dev = cmd_dev +
  s_parser :: protocol_parser_t
  s_packet :: protocol_packet_t
  s_config :: ota_link_config_t
  s_task_handle :: "TaskHandle_t option"
  s_mark_valid_task_handle :: "TaskHandle_t option"
  mark_valid_delaying :: bool

text \<open>The last field is a control point, not a variable of the program: the confirmation task has
  entered its delay.

  The function pointers of a table; \<open>s_uart_transport\<close> has both.  These are selectors: what a read
  of the transport returns, the built-in \<open>uart_transport_read\<close> included, is an input of the event
  \<open>Ev_rx\<close> below, and the body of \<open>uart_transport_write\<close> is in \<open>Protocol\<close>.\<close>

fun transport_read :: "ota_link_transport_t \<Rightarrow> writer_t option" where
  "transport_read S_uart_transport = Some Uart_writer"
| "transport_read (Custom_transport r w) = map_option Custom_writer r"

fun transport_write :: "ota_link_transport_t \<Rightarrow> writer_t option" where
  "transport_write S_uart_transport = Some Uart_writer"
| "transport_write (Custom_transport r w) = map_option Custom_writer w"

section \<open>Confirming the running image\<close>

definition running_app_needs_validation :: "esp_idf \<Rightarrow> 'a base_dev_scheme \<Rightarrow> bool" where
  "running_app_needs_validation E s =
    (let running = esp_ota_get_running_partition E (trace s);
         (err, out) = esp_ota_get_state_partition E (trace s) running;
         state = (case out of None \<Rightarrow> ESP_OTA_IMG_UNDEFINED | Some st \<Rightarrow> st)
     in if err \<noteq> ESP_OK then False
        else state = ESP_OTA_IMG_NEW \<or> state = ESP_OTA_IMG_PENDING_VERIFY)"

definition ota_link_mark_app_valid ::
  "esp_idf \<Rightarrow> 'a base_dev_scheme \<Rightarrow> esp_err_t \<times> 'a base_dev_scheme" where
  "ota_link_mark_app_valid E s =
    (let running = esp_ota_get_running_partition E (trace s);
         (err, out) = esp_ota_get_state_partition E (trace s) running;
         state = (case out of None \<Rightarrow> ESP_OTA_IMG_UNDEFINED | Some st \<Rightarrow> st)
     in if err \<noteq> ESP_OK then (err, s)
        else if state \<noteq> ESP_OTA_IMG_NEW \<and> state \<noteq> ESP_OTA_IMG_PENDING_VERIFY
          then (ESP_ERR_INVALID_STATE, s)
        else (esp_ota_mark_app_valid_cancel_rollback E (trace s), emit Esp_ota_mark_app_valid s))"

text \<open>The task that confirms the image by itself: up to its delay, and after it.\<close>

definition mark_valid_task_delay :: "esp_idf \<Rightarrow> 'a link_dev_scheme \<Rightarrow> 'a link_dev_scheme" where
  "mark_valid_task_delay E s =
    (emit (VTaskDelay (pdMS_TO_TICKS E (auto_mark_valid_delay_ms (s_config s)))) s)\<lparr>mark_valid_delaying := True\<rparr>"

definition mark_valid_task_resume :: "esp_idf \<Rightarrow> 'a link_dev_scheme \<Rightarrow> 'a link_dev_scheme" where
  "mark_valid_task_resume E s =
    (let (err, s) = ota_link_mark_app_valid E s
     in emit VTaskDelete (s\<lparr>s_mark_valid_task_handle := None, mark_valid_delaying := False\<rparr>))"

section \<open>Start-up\<close>

text \<open>The branch of \<open>ota_link_start_with_config\<close> for the built-in UART.\<close>

definition start_uart ::
  "esp_idf \<Rightarrow> 'a link_dev_scheme \<Rightarrow> esp_err_t \<times> 'a link_dev_scheme" where
  "start_uart E s =
    (let cfg = s_config s; port = uart_port cfg;
         err = uart_driver_install E (trace s) port (rx_buffer_size cfg);
         s = emit (Uart_driver_install port (rx_buffer_size cfg) err) s in
     if err \<noteq> ESP_OK then (err, s)
     else
       let err = uart_param_config E (trace s) port (baud_rate cfg);
           s = emit (Uart_param_config port (baud_rate cfg)) s in
       if err \<noteq> ESP_OK then (err, emit (Uart_driver_delete port) s)
       else
         let err = uart_set_pin E (trace s) port (tx_io_num cfg) (rx_io_num cfg) (rts_io_num cfg)
                     (cts_io_num cfg);
             s = emit (Uart_set_pin port (tx_io_num cfg) (rx_io_num cfg) (rts_io_num cfg)
                     (cts_io_num cfg)) s in
         if err \<noteq> ESP_OK then (err, emit (Uart_driver_delete port) s)
         else (ESP_OK, s\<lparr>s_config := cfg\<lparr>transport := Some S_uart_transport,
                 transport_context := port\<rparr>\<rparr>))"

text \<open>The rest of it: the writer, the command task and, where asked for, the confirmation task.\<close>

definition start_tasks ::
  "esp_idf \<Rightarrow> ota_link_config_t \<Rightarrow> 'a link_dev_scheme \<Rightarrow> (esp_err_t \<times> 'a link_dev_scheme) option" where
  "start_tasks E cfg s = do {
     t \<leftarrow> transport (s_config s);
     let s = protocol_set_writer (transport_write t) (transport_context (s_config s)) s;
     let created = xTaskCreate E (trace s) ''ota_link'' (task_stack_size (s_config s))
                     (task_priority (s_config s));
     let s = emit (XTaskCreate ''ota_link'' (task_stack_size (s_config s)) (task_priority (s_config s))) s;
     case created of
       None \<Rightarrow> Some (ESP_ERR_NO_MEM,
         (if transport cfg = None then emit (Uart_driver_delete (uart_port (s_config s))) s else s)
           \<lparr>s_task_handle := None\<rparr>)
     | Some h \<Rightarrow>
         let s = s\<lparr>s_task_handle := Some h\<rparr> in
         if auto_mark_app_valid (s_config s) \<and> running_app_needs_validation E s then
           let created = xTaskCreate E (trace s) ''ota_link_valid'' 3072 1;
               s = emit (XTaskCreate ''ota_link_valid'' 3072 1) s
           in Some (ESP_OK, case created of None \<Rightarrow> s
                | Some h \<Rightarrow> s\<lparr>s_mark_valid_task_handle := Some h\<rparr>)
         else Some (ESP_OK, s) }"

definition ota_link_start_with_config ::
  "esp_idf \<Rightarrow> ota_link_config_t option \<Rightarrow> 'a link_dev_scheme \<Rightarrow> (esp_err_t \<times> 'a link_dev_scheme) option"
  where
  "ota_link_start_with_config E config s = (case config of
     None \<Rightarrow> Some (ESP_ERR_INVALID_ARG, s)
   | Some cfg \<Rightarrow>
       if s_task_handle s \<noteq> None then Some (ESP_ERR_INVALID_STATE, s)
       else do {
         let s = s\<lparr>s_config := cfg\<rparr>;
         if require_authentication cfg \<and>
            (cfg_auth_key cfg = None \<or> cfg_auth_key_len cfg = 0 \<or> cfg_auth_key_len cfg > AUTH_KEY_MAX_SIZE)
         then Some (ESP_ERR_INVALID_ARG, s)
         else do {
           s \<leftarrow> auth_configure (cfg_auth_key cfg) (cfg_auth_key_len cfg) (require_authentication cfg) s;
           let s = device_info_init E s;
           let (err, s) = (case transport cfg of
               None \<Rightarrow> start_uart E s
             | Some t \<Rightarrow> if transport_read t = None \<or> transport_write t = None
                         then (ESP_ERR_INVALID_ARG, s) else (ESP_OK, s));
           if err \<noteq> ESP_OK then Some (err, s)
           else start_tasks E cfg s } })"

definition ota_link_start ::
  "esp_idf \<Rightarrow> 'a link_dev_scheme \<Rightarrow> (esp_err_t \<times> 'a link_dev_scheme) option" where
  "ota_link_start E s = ota_link_start_with_config E (Some (OTA_LINK_DEFAULT_CONFIG E)) s"

section \<open>The command loop\<close>

text \<open>The entry of the task, and one iteration on what \<open>read\<close> returned and stored in \<open>byte\<close>.\<close>

definition ota_link_task_init :: "'a link_dev_scheme \<Rightarrow> 'a link_dev_scheme" where
  "ota_link_task_init s = s\<lparr>s_parser := protocol_parser_init (s_parser s)\<rparr>"

definition ota_link_task_iteration ::
  "esp_idf \<Rightarrow> int \<Rightarrow> u8 \<Rightarrow> 'a link_dev_scheme \<Rightarrow> (flow \<times> 'a link_dev_scheme) option" where
  "ota_link_task_iteration E read byte s = do {
     t \<leftarrow> transport (s_config s);
     f \<leftarrow> transport_read t;
     (complete, s) \<leftarrow>
       (if read = 1 then do {
          (r, p, k) \<leftarrow> protocol_parser_feed (s_parser s) byte (s_packet s);
          Some (r, s\<lparr>s_parser := p, s_packet := k\<rparr>) }
        else Some (False, s));
     if complete then commands_handle_packet E (s_packet s) s
     else if read < 0 then Some (Continues, emit (VTaskDelay (pdMS_TO_TICKS E 10)) s)
     else Some (Continues, s) }"

section \<open>The example application\<close>

text \<open>\<open>ESP_ERROR_CHECK\<close> aborts, which restarts the chip, on any error.  With \<open>force_invalid\<close> the task
  function has no other end than a restart: the rollback itself, the abort on its error, or the abort
  of FreeRTOS when a task function returns.\<close>

definition app_health_task ::
  "esp_idf \<Rightarrow> bool \<Rightarrow> 'a link_dev_scheme \<Rightarrow> flow \<times> 'a link_dev_scheme" where
  "app_health_task E force_invalid s =
    (let s = emit (VTaskDelay (pdMS_TO_TICKS E 5000)) s in
     if force_invalid then (Reboots, snd (ota_link_mark_app_invalid_and_reboot E s))
     else (Continues, emit VTaskDelete (snd (ota_link_mark_app_valid E s))))"

definition app_config :: "esp_idf \<Rightarrow> bool \<Rightarrow> bytes \<Rightarrow> ota_link_config_t" where
  "app_config E require_auth key =
    (let config = (OTA_LINK_DEFAULT_CONFIG E)\<lparr>auto_mark_app_valid := False\<rparr> in
     if require_auth
     then config\<lparr>cfg_auth_key := Some key, cfg_auth_key_len := length key, require_authentication := True\<rparr>
     else config)"

definition app_main ::
  "esp_idf \<Rightarrow> bool \<Rightarrow> bytes \<Rightarrow> 'a link_dev_scheme \<Rightarrow> (flow \<times> 'a link_dev_scheme) option" where
  "app_main E require_auth key s = do {
     (err, s) \<leftarrow> ota_link_start_with_config E (Some (app_config E require_auth key)) s;
     if err \<noteq> ESP_OK then Some (Reboots, s)
     else Some (Continues, emit (XTaskCreate ''app_health'' 3072 1) s) }"

section \<open>The device as a step relation\<close>

datatype event =
    Ev_start "ota_link_config_t option"
  | Ev_task_entry
  | Ev_rx int u8
  | Ev_mark_valid_delay
  | Ev_mark_valid_resume
  | Ev_app_mark_valid
  | Ev_app_mark_invalid

text \<open>The objects of static storage at boot.\<close>

definition boot_dev :: "esp_idf \<Rightarrow> link_dev" where
  "boot_dev E = \<lparr>trace = [], s_uart_port = UART_NUM_0 E, s_write = None, s_write_context = 0,
     s_tx_buffer = replicate FRAME_MAX 0, s_ota = zero_ota,
     s_actual_sha256 = replicate OTA_SHA256_SIZE 0, s_auth = zero_auth, s_boot_count = 0,
     s_info_payload = replicate PROTOCOL_MAX_PAYLOAD 0, s_parser = zero_parser, s_packet = zero_packet,
     s_config = zero_config, s_task_handle = None, s_mark_valid_task_handle = None,
     mark_valid_delaying = False\<rparr>"

fun exec_event :: "esp_idf \<Rightarrow> event \<Rightarrow> link_dev \<Rightarrow> (flow \<times> link_dev) option" where
  "exec_event E (Ev_start cfg) s = do { (_, s) \<leftarrow> ota_link_start_with_config E cfg s; Some (Continues, s) }"
| "exec_event E Ev_task_entry s = Some (Continues, ota_link_task_init s)"
| "exec_event E (Ev_rx r b) s = ota_link_task_iteration E r b s"
| "exec_event E Ev_mark_valid_delay s = Some (Continues, mark_valid_task_delay E s)"
| "exec_event E Ev_mark_valid_resume s = Some (Continues, mark_valid_task_resume E s)"
| "exec_event E Ev_app_mark_valid s = Some (Continues, snd (ota_link_mark_app_valid E s))"
| "exec_event E Ev_app_mark_invalid s =
     (let (err, s) = ota_link_mark_app_invalid_and_reboot E s
      in Some (if err = None then Reboots else Continues, s))"

text \<open>When an event can happen: the loop runs once its task exists, the confirmation task once it was
  created, first to its delay and then after it; the key pointer of a configuration refers to as many bytes as it says.\<close>

fun enabled :: "event \<Rightarrow> link_dev \<Rightarrow> bool" where
  "enabled (Ev_start cfg) s \<longleftrightarrow> (case cfg of None \<Rightarrow> True
     | Some c \<Rightarrow> (case cfg_auth_key c of None \<Rightarrow> True
         | Some k \<Rightarrow> cfg_auth_key_len c \<le> 64 \<longrightarrow> cfg_auth_key_len c \<le> length k))"
| "enabled Ev_task_entry s \<longleftrightarrow> s_task_handle s \<noteq> None"
| "enabled (Ev_rx r b) s \<longleftrightarrow> s_task_handle s \<noteq> None"
| "enabled Ev_mark_valid_delay s \<longleftrightarrow> s_mark_valid_task_handle s \<noteq> None \<and> \<not> mark_valid_delaying s"
| "enabled Ev_mark_valid_resume s \<longleftrightarrow> s_mark_valid_task_handle s \<noteq> None \<and> mark_valid_delaying s"
| "enabled Ev_app_mark_valid s \<longleftrightarrow> True"
| "enabled Ev_app_mark_invalid s \<longleftrightarrow> True"

text \<open>The states of one boot, with the events that led there (most recent first).\<close>

inductive device_run :: "esp_idf \<Rightarrow> event list \<Rightarrow> link_dev \<Rightarrow> bool" for E where
  boot: "device_run E [] (boot_dev E)"
| step: "device_run E evs s \<Longrightarrow> enabled ev s \<Longrightarrow> exec_event E ev s = Some (Continues, s') \<Longrightarrow>
    device_run E (ev # evs) s'"

inductive_cases device_run_NilE: "device_run E [] s"
inductive_cases device_run_ConsE: "device_run E (ev # evs) s"

section \<open>Settings\<close>

text \<open>What packets never change: the configuration and the tasks, the boot counter, whether authentication is required
  and with which key, and where the answers go.\<close>

definition settings :: "'a cmd_dev_scheme \<Rightarrow> 'a \<times> u32 \<times> bool \<times> bytes \<times> writer_t option \<times> int" where
  "settings s = (cmd_dev.more s, s_boot_count s, auth_required (s_auth s), current_key (s_auth s), s_write s,
     s_write_context s)"

lemma settings_reply: "s_write s \<noteq> None \<Longrightarrow> settings (reply c q p s) = settings s"
  by (auto simp: settings_def reply_def send_frame_def Let_def)

lemma settings_update [simp]:
  "settings (s\<lparr>trace := t\<rparr>) = settings s" "settings (s\<lparr>s_info_payload := b\<rparr>) = settings s"
  "settings (emit c s) = settings s"
  "settings (s\<lparr>s_auth := cache_insert e (s_auth s)\<rparr>) = settings s"
  by (simp_all add: settings_def emit_def)

lemma s_write_update [simp]:
  "s_write (s\<lparr>s_auth := a\<rparr>) = s_write s" "s_write (s\<lparr>s_info_payload := b\<rparr>) = s_write s"
  by simp_all

lemma settings_verdict: "s_write s \<noteq> None \<Longrightarrow> settings (verdict E k err s) = settings s"
  by (simp add: verdict_def answer_def Let_def settings_reply)

lemma ota_exec_settings:
  "ota_exec E op s = Some (r, s') \<Longrightarrow> settings s' = settings s \<and> s_write s' = s_write s"
  unfolding settings_def
  by (cases op; simp only: ota_exec.simps ota_manager_begin_def ota_manager_write_data_def
      ota_manager_end_def ota_manager_abort_def Let_def emit_def)
     (auto split: if_splits Option.bind_splits prod.splits option.splits)

lemma ota_request_settings:
  "ota_request E c p n s = Some (r, s') \<Longrightarrow> settings s' = settings s \<and> s_write s' = s_write s"
  using ota_exec_settings [of E "op_of c p n" s] by (auto simp: ota_request_exec split: if_splits)

lemma protected_command_settings:
  assumes "s_write s \<noteq> None" "protected_command E k s = Some (f, s')"
  shows "settings s' = settings s"
  using assms
  by (auto simp: protected_command_def fresh_request_def system_request_def Let_def bind_eq_Some
      settings_verdict settings_reply split: request.splits if_splits prod.splits dest!: ota_request_settings)

lemma settings_auth:
  "auth_required b = auth_required (s_auth s) \<Longrightarrow> current_key b = current_key (s_auth s) \<Longrightarrow>
   settings (s\<lparr>s_auth := b\<rparr>) = settings s"
  by (simp add: settings_def)

lemma challenged_required [simp]: "auth_required (challenged E cn sn a) = auth_required a"
  by (simp add: challenged_def)

lemma cmd_auth_settings:
  assumes "dev_inv E s" "packet_inv k" "s_write s \<noteq> None" "cmd_auth E k s = Some (f, s')"
  shows "settings s' = settings s"
proof -
  note i = dev_inv_ota(3,2) [OF assms(1)]
  note eqs = auth_challenge_eq [OF i assms(2)] auth_proof_eq [OF i assms(2)] protocol_send_short_reply [OF i(1)]
  show ?thesis
    using assms(3,4) unfolding cmd_auth_def auth_handle_packet_def
    by (auto simp: eqs Let_def settings_reply settings_auth split: if_splits)
qed

lemma cmd_get_info_settings:
  assumes "cmd_inv E s" "s_write s \<noteq> None" "cmd_get_info E k s = Some (f, s')"
  shows "settings s' = settings s"
proof -
  have l: "length (s_info_payload s) = 1024" and d: "dev_inv E s" using assms(1) by (simp_all add: cmd_inv_def)
  obtain n b where b: "device_info_build_payload E (s_info_payload s) 1024 s = Some (n, b)" "length b = 1024"
    "n = 0 \<or> n \<le> 1024"
    using device_info_build_payload_spec [of 1024 "s_info_payload s" E s] l
    by (auto simp: ensures_iff info_fits_def split: if_splits)
  have "dev_inv E (s\<lparr>s_info_payload := b\<rparr>)" using d by simp
  note i = dev_inv_ota(3) [OF this]
  have u: "unat (of_nat n :: u16) = n" if "n \<le> 1024" using that by (simp add: unat_of_nat)
  show ?thesis
    using assms(2,3) b i l u unfolding cmd_get_info_def
    by (auto simp: protocol_send_short_reply protocol_send_packet_reply settings_reply Let_def split: if_splits)
qed

lemma commands_settings:
  assumes "cmd_inv E s" "packet_inv k" "s_write s \<noteq> None" "commands_handle_packet E k s = Some (f, s')"
  shows "settings s' = settings s"
proof -
  have d: "dev_inv E s" using assms(1) by (simp add: cmd_inv_def)
  note sr = protocol_send_short_reply [OF dev_inv_ota(3) [OF d]]
  show ?thesis
  proof (cases "pkt_version k = PROTOCOL_VERSION \<and> auth_command_is_protected (pkt_command k)")
    case True
    then show ?thesis
      using protected_command_settings [OF assms(3)] assms(4) commands_protected [OF d assms(2)] by simp
  next
    case False
    then show ?thesis
      using assms(3,4) cmd_auth_settings [OF d assms(2,3)] cmd_get_info_settings [OF assms(1,3)]
      unfolding protected_iff protected_codes_def
      by (auto simp: commands_handle_packet_def Let_def sr settings_reply split: if_splits)
  qed
qed

section \<open>Invariant\<close>

text \<open>The UART ports whose driver the component has installed and not deleted.\<close>

fun uart_open :: "call list \<Rightarrow> uart_port_t set" where
  "uart_open [] = {}"
| "uart_open (c # cs) =
     (case c of
        Uart_driver_install p _ ESP_OK \<Rightarrow> insert p (uart_open cs)
      | Uart_driver_delete p \<Rightarrow> uart_open cs - {p}
      | _ \<Rightarrow> uart_open cs)"

text \<open>What holds while the command task exists: a usable transport that also gets the answers, and
  authentication exactly as configured.\<close>

definition link_running :: "'a link_dev_scheme \<Rightarrow> bool" where
  "link_running s \<longleftrightarrow>
     (\<exists>t. transport (s_config s) = Some t \<and> transport_read t \<noteq> None \<and> transport_write t \<noteq> None \<and>
        s_write s = transport_write t) \<and>
     s_write_context s = transport_context (s_config s) \<and>
     (auth_required (s_auth s) \<longleftrightarrow> require_authentication (s_config s)) \<and>
     (require_authentication (s_config s) \<longrightarrow> (\<exists>k. cfg_auth_key (s_config s) = Some k \<and>
        0 < cfg_auth_key_len (s_config s) \<and>
        current_key (s_auth s) = take (cfg_auth_key_len (s_config s)) k))"

definition link_inv :: "esp_idf \<Rightarrow> 'a link_dev_scheme \<Rightarrow> bool" where
  "link_inv E s \<longleftrightarrow> cmd_inv E s \<and> parser_inv (s_parser s) \<and> packet_inv (s_packet s) \<and>
     (if s_task_handle s = None then uart_open (trace s) = {}
      else link_running s \<and> uart_open (trace s) \<subseteq> {uart_port (s_config s)})"

section \<open>Framing lemmas\<close>

text \<open>Calls that touch neither the OTA service, nor the link, nor the UART driver.\<close>

definition plain_call :: "call \<Rightarrow> bool" where
  "plain_call c \<longleftrightarrow> \<not> ota_call c \<and> call_tx c = None"

lemma cmd_inv_emit: "plain_call c \<Longrightarrow> cmd_inv E (emit c s) = cmd_inv E s"
  by (cases c) (simp_all add: plain_call_def cmd_inv_def dev_inv_def protocol_inv_def ota_inv_def emit_def)

lemma plain_calls [simp]:
  "plain_call (VTaskDelay ms)" "plain_call VTaskDelete" "plain_call (XTaskCreate nm sz pr)"
  "plain_call (Uart_driver_install p n e)" "plain_call (Uart_driver_delete p)" "plain_call (Uart_param_config p n)"
  "plain_call (Uart_set_pin p a b c d)" "plain_call Esp_ota_mark_app_valid"
  "plain_call Esp_ota_mark_app_invalid_and_reboot"
  by (simp_all add: plain_call_def)

lemma emit_link_fields [simp]:
  "s_config (emit c s) = s_config s" "s_task_handle (emit c s) = s_task_handle s"
  "s_parser (emit c s) = s_parser s" "s_packet (emit c s) = s_packet s"
  "s_mark_valid_task_handle (emit c s) = s_mark_valid_task_handle s"
  "mark_valid_delaying (emit c s) = mark_valid_delaying s" "s_boot_count (emit c s) = s_boot_count s"
  "s_write (emit c s) = s_write s" "s_write_context (emit c s) = s_write_context s"
  by (simp_all add: emit_def)

lemma cmd_inv_link_update [simp]:
  "cmd_inv E (s\<lparr>s_config := c\<rparr>) = cmd_inv E s" "cmd_inv E (s\<lparr>s_task_handle := h\<rparr>) = cmd_inv E s"
  "cmd_inv E (s\<lparr>s_mark_valid_task_handle := h\<rparr>) = cmd_inv E s" "cmd_inv E (s\<lparr>s_parser := p\<rparr>) = cmd_inv E s"
  "cmd_inv E (s\<lparr>s_packet := k\<rparr>) = cmd_inv E s" "cmd_inv E (protocol_set_writer w x s) = cmd_inv E s"
  "cmd_inv E (s\<lparr>mark_valid_delaying := d\<rparr>) = cmd_inv E s"
  by (simp_all add: cmd_inv_def dev_inv_def protocol_inv_def ota_inv_def protocol_set_writer_def)

lemma set_writer_fields [simp]:
  "s_config (protocol_set_writer w x s) = s_config s" "s_task_handle (protocol_set_writer w x s) = s_task_handle s"
  "s_parser (protocol_set_writer w x s) = s_parser s" "s_packet (protocol_set_writer w x s) = s_packet s"
  "s_auth (protocol_set_writer w x s) = s_auth s" "trace (protocol_set_writer w x s) = trace s"
  "s_write (protocol_set_writer w x s) = w" "s_write_context (protocol_set_writer w x s) = x"
  by (simp_all add: protocol_set_writer_def)

lemma info_init_link_fields [simp]:
  "s_config (device_info_init E s) = s_config s" "s_task_handle (device_info_init E s) = s_task_handle s"
  "s_parser (device_info_init E s) = s_parser s" "s_packet (device_info_init E s) = s_packet s"
  "uart_open (trace (device_info_init E s)) = uart_open (trace s)"
  by (simp_all add: device_info_init_eq Let_def)

lemma cmd_inv_info_init [simp]: "cmd_inv E' (device_info_init E s) = cmd_inv E' s"
proof -
  have "s_info_payload (device_info_init E s) = s_info_payload s" by (simp add: device_info_init_eq Let_def)
  then show ?thesis by (simp add: cmd_inv_def)
qed

text \<open>The calls a packet may cause.\<close>

definition packet_call :: "call \<Rightarrow> bool" where
  "packet_call c \<longleftrightarrow> ota_call c \<or> system_call c \<or> call_tx c \<noteq> None \<or> c = Esp_fill_random AUTH_NONCE_SIZE"

lemma packet_call_simps [simp]:
  "packet_call (tx_call s f)" "system_call c \<Longrightarrow> packet_call c" "packet_call (Esp_fill_random 16)"
  "ota_call c \<Longrightarrow> packet_call c"
  by (simp_all add: packet_call_def)

lemma uart_open_packet_calls: "list_all packet_call cs \<Longrightarrow> uart_open (cs @ ds) = uart_open ds"
proof (induction cs)
  case (Cons c cs)
  then show ?case by (cases c) (auto simp: packet_call_def)
qed simp

definition calls_since :: "'a base_dev_scheme \<Rightarrow> 'a base_dev_scheme \<Rightarrow> bool" where
  "calls_since s s' \<longleftrightarrow> (\<exists>cs. trace s' = cs @ trace s \<and> list_all packet_call cs)"

lemma calls_sinceI: "trace s' = cs @ trace s \<Longrightarrow> list_all packet_call cs \<Longrightarrow> calls_since s s'"
  by (auto simp: calls_since_def)

lemma calls_since_verdict:
  assumes "trace t = cs @ trace s" "list_all packet_call cs"
  shows "calls_since s (verdict E k err t)"
proof -
  obtain fr where "trace (verdict E k err t) = tx_call t fr # trace t" using verdict_trace by blast
  with assms show ?thesis by (intro calls_sinceI [of _ "tx_call t fr # cs"]) simp_all
qed

lemma system_request_calls: "calls_since s (snd (system_request E k n s))"
proof -
  have v: "calls_since s (verdict E k err s)" for err by (rule calls_since_verdict [of _ "[]"]) simp_all
  have more: "calls_since s (emit c t)" if t: "calls_since s t" and c: "system_call c" for c t
  proof -
    obtain cs where "trace t = cs @ trace s" "list_all packet_call cs" using t by (auto simp: calls_since_def)
    then show ?thesis using c by (intro calls_sinceI [of _ "c # cs"]) simp_all
  qed
  show ?thesis
    by (auto simp: system_request_def Let_def intro!: v more)
qed

lemma protected_command_calls:
  assumes "protected_command E k s = Some (f, s')"
  shows "calls_since s s'"
proof (cases "request_status E k s")
  case (Fresh n)
  show ?thesis
  proof (cases "pkt_command k \<in> {cmd_code CMD_REBOOT, cmd_code CMD_ROLLBACK}")
    case True
    then have "s' = snd (system_request E k n s)"
      using assms Fresh by (auto simp: protected_command_def fresh_request_def)
    then show ?thesis by (simp add: system_request_calls)
  next
    case False
    then obtain r t where t: "ota_request E (pkt_command k) (pkt_payload k) n s = Some (r, t)" "s' = verdict E k r t"
      using assms Fresh by (auto simp: protected_command_def fresh_request_def bind_eq_Some)
    obtain cs where "trace t = cs @ trace s" "list_all ota_call cs" using t(1) by (rule ota_request_calls)
    then show ?thesis
      unfolding t(2) by (intro calls_since_verdict) (auto simp: list_all_iff)
  qed
next
  case (Repeated e)
  then show ?thesis
    using assms by (auto simp: protected_command_def intro!: calls_sinceI [of _ "[tx_call s _]"])
next
  case Refused
  then show ?thesis
    using assms by (auto simp: protected_command_def intro!: calls_since_verdict [of _ "[]"])
qed

lemma commands_calls:
  assumes "cmd_inv E s" "packet_inv k" "commands_handle_packet E k s = Some (f, s')"
  shows "calls_since s s'"
proof -
  have d: "dev_inv E s" using assms(1) by (simp add: cmd_inv_def)
  note sr = protocol_send_short_reply [OF dev_inv_ota(3) [OF d]]
  have one: "calls_since s t" if "trace t = tx_call s fr # trace s" for t fr
    by (rule calls_sinceI [of _ "[tx_call s fr]"]) (simp_all add: that)
  have two: "calls_since s t" if "trace t = tx_call s fr # Esp_fill_random 16 # trace s" for t fr
    by (rule calls_sinceI [of _ "[tx_call s fr, Esp_fill_random 16]"]) (simp_all add: that)
  have rep: "calls_since s (reply c q p s)" for c q p by (rule one) simp
  consider "pkt_version k = PROTOCOL_VERSION" "auth_command_is_protected (pkt_command k)"
    | "pkt_version k = PROTOCOL_VERSION" "pkt_command k = cmd_code CMD_GET_INFO"
    | "pkt_version k = PROTOCOL_VERSION" "pkt_command k = cmd_code CMD_AUTH"
    | "pkt_version k \<noteq> PROTOCOL_VERSION \<or> (pkt_command k \<noteq> cmd_code CMD_GET_INFO \<and>
         pkt_command k \<noteq> cmd_code CMD_AUTH \<and> pkt_command k \<notin> protected_codes)"
    unfolding protected_iff by blast
  then show ?thesis
  proof cases
    case 1
    then show ?thesis using assms(3) commands_protected [OF d assms(2) 1] protected_command_calls by simp
  next
    case 2
    then have "cmd_get_info E k s = Some (f, s')" using assms(3) by (simp add: commands_handle_packet_def)
    then show ?thesis using cmd_get_info_safe [OF assms(1), of k] one by auto
  next
    case 3
    then have "cmd_auth E k s = Some (f, s')" using assms(3) by (simp add: commands_handle_packet_def)
    then show ?thesis using cmd_auth_safe [OF d assms(2)] one two by auto
  next
    case 4
    then show ?thesis
      using assms(3) by (auto simp: commands_handle_packet_def Let_def protected_codes_def sr rep split: if_splits)
  qed
qed

section \<open>Events keep the invariant\<close>

text \<open>The fields a packet cannot change, read off the settings.\<close>

lemma settings_link_fields:
  assumes "settings s' = settings s"
  shows "s_config s' = s_config s" "s_task_handle s' = s_task_handle s" "s_parser s' = s_parser s"
    "s_packet s' = s_packet s" "s_mark_valid_task_handle s' = s_mark_valid_task_handle s"
    "auth_required (s_auth s') = auth_required (s_auth s)" "current_key (s_auth s') = current_key (s_auth s)"
    "s_write s' = s_write s" "s_write_context s' = s_write_context s"
    "mark_valid_delaying s' = mark_valid_delaying s" "s_boot_count s' = s_boot_count s"
  using assms by (cases s; cases s'; simp add: settings_def)+

lemma link_inv_packet:
  assumes "link_inv E s" "s_task_handle s \<noteq> None" "commands_handle_packet E (s_packet s) s = Some (f, s')"
  shows "link_inv E s'"
proof -
  have i: "cmd_inv E s" "packet_inv (s_packet s)" "s_write s \<noteq> None"
    using assms(1,2) by (auto simp: link_inv_def link_running_def)
  have "cmd_inv E s'" using commands_safe [OF i(1,2)] assms(3) by simp
  moreover obtain cs where "trace s' = cs @ trace s" "list_all packet_call cs"
    using commands_calls [OF i(1,2) assms(3)] by (auto simp: calls_since_def)
  then have "uart_open (trace s') = uart_open (trace s)" by (simp add: uart_open_packet_calls)
  ultimately show ?thesis
    using assms(1,2) settings_link_fields [OF commands_settings [OF i assms(3)]]
    by (auto simp: link_inv_def link_running_def)
qed

lemma link_running_cong:
  "s_config s' = s_config s \<Longrightarrow> s_auth s' = s_auth s \<Longrightarrow> s_write s' = s_write s \<Longrightarrow>
   s_write_context s' = s_write_context s \<Longrightarrow> link_running s' = link_running s"
  by (simp add: link_running_def)

lemma link_inv_emit:
  assumes "plain_call c" "uart_open (c # trace s) = uart_open (trace s)"
  shows "link_inv E (emit c s) = link_inv E s"
proof -
  have "link_running (emit c s) = link_running s" by (rule link_running_cong) simp_all
  then show ?thesis using assms(2) by (simp add: link_inv_def cmd_inv_emit [OF assms(1)] del: uart_open.simps)
qed

lemma link_inv_mark_handle:
  "link_inv E (s\<lparr>s_mark_valid_task_handle := h\<rparr>) = link_inv E s"
  "link_inv E (s\<lparr>mark_valid_delaying := d\<rparr>) = link_inv E s"
proof -
  have "link_running (s\<lparr>s_mark_valid_task_handle := h\<rparr>) = link_running s"
    "link_running (s\<lparr>mark_valid_delaying := d\<rparr>) = link_running s"
    by (rule link_running_cong; simp)+
  then show "link_inv E (s\<lparr>s_mark_valid_task_handle := h\<rparr>) = link_inv E s"
    "link_inv E (s\<lparr>mark_valid_delaying := d\<rparr>) = link_inv E s"
    by (simp_all add: link_inv_def)
qed

lemma ota_link_task_iteration_safe:
  assumes "link_inv E s" "s_task_handle s \<noteq> None"
  shows "ensures (ota_link_task_iteration E r b s) (\<lambda>f s'. link_inv E s')"
proof -
  obtain t w where t: "transport (s_config s) = Some t" "transport_read t = Some w"
    using assms by (auto simp: link_inv_def link_running_def)
  obtain complete p k where f: "protocol_parser_feed (s_parser s) b (s_packet s) = Some (complete, p, k)"
    "parser_inv p" "packet_inv k"
    using protocol_parser_feed_refines [of "s_parser s" "s_packet s" b] assms(1) by (auto simp: link_inv_def)
  let ?s = "s\<lparr>s_parser := p, s_packet := k\<rparr>"
  have i: "link_inv E ?s" using assms f by (auto simp: link_inv_def link_running_def)
  then have c: "packet_inv k" "cmd_inv E ?s" by (auto simp: link_inv_def)
  obtain fl s' where h: "commands_handle_packet E k ?s = Some (fl, s')"
    using commands_safe [OF c(2,1)] by (auto simp: ensures_iff)
  have "link_inv E s'"
    using link_inv_packet [OF i, of fl s'] h assms(2) by simp
  moreover have "link_inv E (emit (VTaskDelay (pdMS_TO_TICKS E 10)) s)"
    using assms(1) by (simp add: link_inv_emit)
  ultimately show ?thesis
    using t f h i assms(1) by (simp add: ota_link_task_iteration_def)
qed

lemma mark_app_valid_safe:
  assumes "link_inv E s"
  shows "link_inv E (snd (ota_link_mark_app_valid E s))"
  using assms
  by (auto simp: ota_link_mark_app_valid_def Let_def link_inv_emit split: prod.split)

lemma mark_valid_task_safe:
  assumes "link_inv E s"
  shows "link_inv E (mark_valid_task_delay E s)" "link_inv E (mark_valid_task_resume E s)"
proof -
  show "link_inv E (mark_valid_task_delay E s)"
    using assms by (simp add: mark_valid_task_delay_def link_inv_emit link_inv_mark_handle)
  show "link_inv E (mark_valid_task_resume E s)"
    using mark_app_valid_safe [OF assms]
    by (auto simp: mark_valid_task_resume_def Let_def link_inv_emit link_inv_mark_handle split: prod.split)
qed

text \<open>Start-up.  \<open>s1\<close> is the state before the transport is set up.\<close>

lemma start_uart_safe:
  assumes "cmd_inv E s" "uart_open (trace s) = {}" "start_uart E s = (err, s')"
  shows "cmd_inv E s'" "s_parser s' = s_parser s" "s_packet s' = s_packet s" "s_task_handle s' = s_task_handle s"
    "s_auth s' = s_auth s"
    "if err = ESP_OK then uart_open (trace s') = {uart_port (s_config s)} \<and>
       s_config s' = (s_config s)\<lparr>transport := Some S_uart_transport, transport_context := uart_port (s_config s)\<rparr>
     else uart_open (trace s') = {} \<and> s_config s' = s_config s"
  using assms unfolding start_uart_def Let_def
  by (auto simp: cmd_inv_emit split: if_splits esp_err_t.splits)

definition config_ok :: "ota_link_config_t \<Rightarrow> bool" where
  "config_ok c \<longleftrightarrow> (case cfg_auth_key c of None \<Rightarrow> True
     | Some k \<Rightarrow> cfg_auth_key_len c \<le> 64 \<longrightarrow> cfg_auth_key_len c \<le> length k)"

definition bad_key :: "ota_link_config_t \<Rightarrow> bool" where
  "bad_key cfg \<longleftrightarrow> require_authentication cfg \<and>
     (cfg_auth_key cfg = None \<or> cfg_auth_key_len cfg = 0 \<or> cfg_auth_key_len cfg > 64)"

text \<open>A configuration sets the key and the requirement exactly as asked for.\<close>

definition auth_as_configured :: "ota_link_config_t \<Rightarrow> auth_state_t \<Rightarrow> bool" where
  "auth_as_configured cfg a \<longleftrightarrow> (auth_required a \<longleftrightarrow> require_authentication cfg) \<and>
     (require_authentication cfg \<longrightarrow> (\<exists>k. cfg_auth_key cfg = Some k \<and> 0 < cfg_auth_key_len cfg \<and>
        current_key a = take (cfg_auth_key_len cfg) k))"

lemma auth_configure_as_configured:
  assumes "cmd_inv E s" "config_ok cfg" "\<not> bad_key cfg"
  shows "\<exists>a. auth_configure (cfg_auth_key cfg) (cfg_auth_key_len cfg) (require_authentication cfg) s =
      Some (s\<lparr>s_auth := a\<rparr>) \<and> cmd_inv E (s\<lparr>s_auth := a\<rparr>) \<and> auth_as_configured cfg a"
proof -
  have i: "protocol_inv s" "ota_inv s" "length (s_info_payload s) = 1024"
    using assms(1) by (simp_all add: cmd_inv_def dev_inv_def)
  obtain s' where s': "auth_configure (cfg_auth_key cfg) (cfg_auth_key_len cfg) (require_authentication cfg) s = Some s'"
    "dev_inv E s'" "s' = s\<lparr>s_auth := s_auth s'\<rparr>"
    "auth_required (s_auth s') \<longleftrightarrow> require_authentication cfg \<and> cfg_auth_key cfg \<noteq> None \<and>
       0 < cfg_auth_key_len cfg \<and> cfg_auth_key_len cfg \<le> 64"
    using auth_configure_inv [OF i(1,2), where key = "cfg_auth_key cfg" and n = "cfg_auth_key_len cfg"] assms(2)
    unfolding config_ok_def by metis
  have "current_key (s_auth s') = take (cfg_auth_key_len cfg) k"
    if "cfg_auth_key cfg = Some k" "0 < cfg_auth_key_len cfg" "cfg_auth_key_len cfg \<le> 64" for k
  proof -
    have "cfg_auth_key_len cfg \<le> length k" "length (auth_key zero_auth) = 64"
      using assms(2) that by (simp_all add: config_ok_def zero_auth_def)
    then show ?thesis
      using s'(1) that by (auto simp: auth_configure_def load_Some store_Some current_key_def take_blit_0)
  qed
  then have "auth_as_configured cfg (s_auth s')"
    using s'(4) assms(3) unfolding auth_as_configured_def bad_key_def by (cases "cfg_auth_key cfg") auto
  moreover have "s_info_payload s' = s_info_payload s" by (subst s'(3)) simp
  then have "cmd_inv E s'" using s'(2) i(3) by (simp add: cmd_inv_def)
  ultimately show ?thesis using s'(1,3) by metis
qed

lemma start_tasks_safe:
  assumes "cmd_inv E s" "parser_inv (s_parser s)" "packet_inv (s_packet s)" "s_task_handle s = None"
    and "transport (s_config s) = Some t" "transport_read t \<noteq> None" "transport_write t \<noteq> None"
    and "auth_as_configured (s_config s) (s_auth s)"
    and "if transport cfg = None then uart_open (trace s) = {uart_port (s_config s)} else uart_open (trace s) = {}"
  shows "ensures (start_tasks E cfg s) (\<lambda>err s'. link_inv E s' \<and> s_config s' = s_config s \<and>
    (err = ESP_OK \<longleftrightarrow> s_task_handle s' \<noteq> None))"
proof -
  let ?w = "protocol_set_writer (transport_write t) (transport_context (s_config s)) s"
  let ?s = "emit (XTaskCreate ''ota_link'' (task_stack_size (s_config s)) (task_priority (s_config s))) ?w"
  have run: "link_running (?s\<lparr>s_task_handle := h\<rparr>)" for h
    using assms(5-8) by (simp add: link_running_def auth_as_configured_def)
  have started: "link_inv E (?s\<lparr>s_task_handle := Some h\<rparr>)" for h
    using run [of "Some h"] assms(1-3,9) by (auto simp: link_inv_def cmd_inv_emit split: if_splits)
  have failed: "link_inv E ((if transport cfg = None then emit (Uart_driver_delete (uart_port (s_config s))) ?s else ?s)
      \<lparr>s_task_handle := None\<rparr>)"
    using assms(1-4,9) by (auto simp: link_inv_def cmd_inv_emit split: if_splits)
  show ?thesis
    using assms(5) started failed
    by (auto simp: start_tasks_def Let_def link_inv_emit link_inv_mark_handle split: option.split)
qed

text \<open>The outcome of a start request.\<close>

definition start_outcome :: "esp_idf \<Rightarrow> ota_link_config_t \<Rightarrow> 'a link_dev_scheme \<Rightarrow> esp_err_t \<Rightarrow> 'a link_dev_scheme \<Rightarrow> bool"
  where
  "start_outcome E cfg s err s' \<longleftrightarrow> link_inv E s' \<and>
     (if err = ESP_OK
      then s_task_handle s = None \<and> s_task_handle s' \<noteq> None \<and>
        require_authentication (s_config s') = require_authentication cfg \<and>
        cfg_auth_key (s_config s') = cfg_auth_key cfg \<and> cfg_auth_key_len (s_config s') = cfg_auth_key_len cfg \<and>
        transport (s_config s') = Some (case transport cfg of None \<Rightarrow> S_uart_transport | Some t \<Rightarrow> t)
      else s_task_handle s' = s_task_handle s \<and> uart_open (trace s') = uart_open (trace s))"

lemma link_inv_idle:
  "s_task_handle s = None \<Longrightarrow> link_inv E s \<longleftrightarrow> cmd_inv E s \<and> parser_inv (s_parser s) \<and> packet_inv (s_packet s) \<and>
     uart_open (trace s) = {}"
  by (auto simp: link_inv_def)

lemma start_outcome_tasks:
  assumes "ensures (start_tasks E cfg t) (\<lambda>err s'. link_inv E s' \<and> s_config s' = s_config t \<and>
      (err = ESP_OK \<longleftrightarrow> s_task_handle s' \<noteq> None))"
    and "s_task_handle s = None" "uart_open (trace s) = {}"
    and "require_authentication (s_config t) = require_authentication cfg" "cfg_auth_key (s_config t) = cfg_auth_key cfg"
      "cfg_auth_key_len (s_config t) = cfg_auth_key_len cfg"
      "transport (s_config t) = Some (case transport cfg of None \<Rightarrow> S_uart_transport | Some u \<Rightarrow> u)"
  shows "ensures (start_tasks E cfg t) (start_outcome E cfg s)"
  using assms(1)
  by (rule ensures_mono) (use assms(2-) in \<open>auto simp: start_outcome_def link_inv_idle\<close>)

lemma auth_as_configured_update:
  "auth_as_configured (cfg\<lparr>transport := x, transport_context := y\<rparr>) a = auth_as_configured cfg a"
  by (simp add: auth_as_configured_def)

lemma ota_link_start_safe:
  assumes "link_inv E s" "config_ok cfg"
  shows "ensures (ota_link_start_with_config E (Some cfg) s) (start_outcome E cfg s)"
proof (cases "s_task_handle s = None \<and> \<not> bad_key cfg")
  case False
  then show ?thesis
    using assms by (auto simp: ota_link_start_with_config_def bad_key_def start_outcome_def link_inv_idle)
next
  case True
  note idle = True [THEN conjunct1] and key = True [THEN conjunct2]
  let ?s0 = "s\<lparr>s_config := cfg\<rparr>"
  have i: "cmd_inv E s" "parser_inv (s_parser s)" "packet_inv (s_packet s)" "uart_open (trace s) = {}"
    using assms(1) idle by (simp_all add: link_inv_idle)
  obtain a where a: "auth_configure (cfg_auth_key cfg) (cfg_auth_key_len cfg) (require_authentication cfg) ?s0 =
      Some (?s0\<lparr>s_auth := a\<rparr>)" "cmd_inv E (?s0\<lparr>s_auth := a\<rparr>)" "auth_as_configured cfg a"
    using auth_configure_as_configured [of E ?s0 cfg] assms(2) key i by auto
  define s2 where "s2 = device_info_init E (?s0\<lparr>s_auth := a\<rparr>)"
  have s2: "cmd_inv E s2" "parser_inv (s_parser s2)" "packet_inv (s_packet s2)" "uart_open (trace s2) = {}"
    "s_task_handle s2 = None" "s_config s2 = cfg" "s_auth s2 = a"
    unfolding s2_def using a(2) i idle by simp_all
  have start: "ota_link_start_with_config E (Some cfg) s =
      (let (err, t) = (case transport cfg of
          None \<Rightarrow> start_uart E s2
        | Some t \<Rightarrow> if transport_read t = None \<or> transport_write t = None then (ESP_ERR_INVALID_ARG, s2) else (ESP_OK, s2))
       in if err \<noteq> ESP_OK then Some (err, t) else start_tasks E cfg t)"
    using idle key a(1) unfolding ota_link_start_with_config_def s2_def Let_def bad_key_def by auto
  show ?thesis
  proof (cases "transport cfg")
    case None
    obtain err t where t: "start_uart E s2 = (err, t)" by fastforce
    note u = start_uart_safe [OF s2(1,4) t]
    show ?thesis
    proof (cases "err = ESP_OK")
      case True
      then have c: "s_config t = cfg\<lparr>transport := Some S_uart_transport, transport_context := uart_port cfg\<rparr>"
        "uart_open (trace t) = {uart_port cfg}" using u(6) s2(6) by simp_all
      have "ensures (start_tasks E cfg t) (\<lambda>err s'. link_inv E s' \<and> s_config s' = s_config t \<and>
          (err = ESP_OK \<longleftrightarrow> s_task_handle s' \<noteq> None))"
        using u s2 c a(3) None by (intro start_tasks_safe [where t = S_uart_transport]) (simp_all add: auth_as_configured_update)
      then show ?thesis
        using start t None True start_outcome_tasks [OF _ idle i(4)] c by simp
    next
      case False
      then show ?thesis
        using start t None u s2 idle i(4) by (simp add: start_outcome_def link_inv_idle)
    qed
  next
    case (Some u)
    show ?thesis
    proof (cases "transport_read u = None \<or> transport_write u = None")
      case True
      then show ?thesis
        using start Some s2 idle i(4) by (auto simp: start_outcome_def link_inv_idle)
    next
      case False
      have "ensures (start_tasks E cfg s2) (\<lambda>err s'. link_inv E s' \<and> s_config s' = s_config s2 \<and>
          (err = ESP_OK \<longleftrightarrow> s_task_handle s' \<noteq> None))"
        using s2 a(3) Some False by (intro start_tasks_safe [where t = u]) simp_all
      then show ?thesis
        using start Some False start_outcome_tasks [OF _ idle i(4)] s2(6) by simp
    qed
  qed
qed

lemma exec_event_safe:
  assumes "link_inv E s" "enabled ev s"
  shows "ensures (exec_event E ev s) (\<lambda>f s'. link_inv E s')"
proof (cases ev)
  case (Ev_start c)
  show ?thesis
  proof (cases c)
    case None
    then show ?thesis using Ev_start assms by (simp add: ota_link_start_with_config_def)
  next
    case (Some cfg)
    then have "config_ok cfg" using assms(2) Ev_start by (simp add: config_ok_def)
    from ota_link_start_safe [OF assms(1) this] show ?thesis
      using Ev_start Some by (auto simp: ensures_iff start_outcome_def)
  qed
next
  case Ev_task_entry
  have "link_running (ota_link_task_init s) = link_running s"
    by (rule link_running_cong) (simp_all add: ota_link_task_init_def)
  then show ?thesis
    using assms parser_init_inv [of "s_parser s"] Ev_task_entry
    by (auto simp: ota_link_task_init_def link_inv_def)
qed (use assms in \<open>simp_all add: ota_link_task_iteration_safe mark_valid_task_safe mark_app_valid_safe
    ota_link_mark_app_invalid_and_reboot_def link_inv_emit\<close>)

lemma boot_inv: "link_inv E (boot_dev E)"
proof -
  have "cache_inv zero_auth" using cache_inv_zero [of zero_auth] by (simp add: cache_inv_def zero_auth_def)
  then have "auth_inv E zero_auth" by (simp add: auth_inv_def zero_auth_def)
  then show ?thesis
    by (simp add: link_inv_def boot_dev_def cmd_inv_def dev_inv_def protocol_inv_def ota_inv_def zero_ota_def)
qed

lemma device_run_inv: "device_run E evs s \<Longrightarrow> link_inv E s"
proof (induction rule: device_run.induct)
  case boot
  show ?case by (rule boot_inv)
next
  case (step evs s ev s')
  then show ?case using exec_event_safe [of E s ev] by simp
qed

end
