(* ===== verification/Device_Runs.thy ===== *)
theory Device_Runs
  imports Ota_Link
begin

text \<open>
  Runs of the whole device: what an event may do, which received frame a packet comes from, and the
  origin of a switch of the boot partition and of the confirmation of an image.
\<close>

section \<open>Definitions\<close>

text \<open>The bytes the command loop has received, oldest first.\<close>

fun received :: "event list \<Rightarrow> bytes" where
  "received [] = []"
| "received (ev # evs) = received evs @ (case ev of Ev_rx r b \<Rightarrow> if r = 1 then [b] else [] | _ \<Rightarrow> [])"

text \<open>The byte \<open>b\<close> completes the packet \<open>k\<close>, which is then handled in state \<open>t\<close>.\<close>

definition delivers :: "u8 \<Rightarrow> link_dev \<Rightarrow> protocol_packet_t \<Rightarrow> link_dev \<Rightarrow> bool" where
  "delivers b s k t \<longleftrightarrow> (\<exists>p. protocol_parser_feed (s_parser s) b (s_packet s) = Some (True, p, k) \<and>
     t = s\<lparr>s_parser := p, s_packet := k\<rparr>)"

text \<open>In a run with the events \<open>evs\<close> the device handled the packet \<open>k\<close> in state \<open>t\<close>, and \<open>k\<close> is the
  content of a frame that had just been received.\<close>

definition handled :: "esp_idf \<Rightarrow> event list \<Rightarrow> protocol_packet_t \<Rightarrow> link_dev \<Rightarrow> bool" where
  "handled E evs k t \<longleftrightarrow> (\<exists>evs1 b evs0 s xs. evs = evs1 @ Ev_rx 1 b # evs0 \<and> device_run E evs0 s \<and>
     delivers b s k t \<and> received (Ev_rx 1 b # evs0) = xs @ wire (pkt_msg k))"

text \<open>The update is untouched and only calls that satisfy \<open>Q\<close> were made.\<close>

definition adds :: "(call \<Rightarrow> bool) \<Rightarrow> 'a ota_dev_scheme \<Rightarrow> 'a ota_dev_scheme \<Rightarrow> bool" where
  "adds Q s s' \<longleftrightarrow> s_ota s' = s_ota s \<and> (\<exists>cs. trace s' = cs @ trace s \<and> list_all Q cs)"

abbreviation quiet :: "'a ota_dev_scheme \<Rightarrow> 'a ota_dev_scheme \<Rightarrow> bool" where
  "quiet \<equiv> adds plain_call"

abbreviation aside :: "'a ota_dev_scheme \<Rightarrow> 'a ota_dev_scheme \<Rightarrow> bool" where
  "aside \<equiv> adds (\<lambda>c. \<not> ota_call c)"

definition setup_call :: "call \<Rightarrow> bool" where
  "setup_call c \<longleftrightarrow> plain_call c \<and> c \<noteq> Esp_ota_mark_app_valid"

section \<open>Events\<close>

lemma adds_refl [simp]: "adds Q s s"
  by (simp add: adds_def)

lemma adds_trans: "adds Q s t \<Longrightarrow> adds Q t u \<Longrightarrow> adds Q s u"
  by (auto simp: adds_def)

lemma adds_emit: "Q c \<Longrightarrow> adds Q s t \<Longrightarrow> adds Q s (emit c t)"
  by (auto simp: adds_def emit_def intro: exI [of _ "_ # _"])

lemma addsI: "s_ota s' = s_ota s \<Longrightarrow> trace s' = cs @ trace s \<Longrightarrow> list_all Q cs \<Longrightarrow> adds Q s s'"
  by (auto simp: adds_def)

lemma adds_mono: "adds Q s s' \<Longrightarrow> (\<And>c. Q c \<Longrightarrow> R c) \<Longrightarrow> adds R s s'"
  by (auto simp: adds_def list_all_iff)

lemma adds_update [simp]:
  "adds Q s (t\<lparr>s_config := c\<rparr>) = adds Q s t" "adds Q s (t\<lparr>s_task_handle := h\<rparr>) = adds Q s t"
  "adds Q s (t\<lparr>s_mark_valid_task_handle := h\<rparr>) = adds Q s t" "adds Q s (t\<lparr>s_parser := p\<rparr>) = adds Q s t"
  "adds Q s (t\<lparr>mark_valid_delaying := d\<rparr>) = adds Q s t" "adds Q s (t\<lparr>s_packet := k\<rparr>) = adds Q s t" "adds Q s (protocol_set_writer w x t) = adds Q s t"
  by (simp_all add: adds_def protocol_set_writer_def)

lemma adds_s_auth [simp]: "adds Q s (t\<lparr>s_auth := a\<rparr>) = adds Q s t"
  by (simp add: adds_def)

lemma setup_calls [simp]:
  "setup_call (XTaskCreate nm sz pr)" "setup_call (Uart_driver_install p n e)" "setup_call (Uart_driver_delete p)"
  "setup_call (Uart_param_config p n)" "setup_call (Uart_set_pin p a b c d)" "setup_call Nvs_flash_init"
  "setup_call (Nvs_open nm)" "setup_call (Nvs_set_u32 h nm v)" "setup_call (Nvs_commit h)" "setup_call (Nvs_close h)"
  by (simp_all add: setup_call_def plain_call_def)

lemma quiet_staged: "quiet s s' \<Longrightarrow> staged (trace s') = staged (trace s)"
proof -
  have "staged (cs @ ds) = staged ds" if "list_all plain_call cs" for cs ds
    using that
  proof (induction cs)
    case (Cons c cs)
    then show ?case by (cases c) (auto simp: plain_call_def)
  qed simp
  then show "quiet s s' \<Longrightarrow> ?thesis" by (auto simp: adds_def)
qed

lemma info_init_adds: "adds setup_call s (device_info_init E s)"
  by (auto simp: adds_def device_info_init_eq Let_def intro: exI [of _ "_ # _"])

lemma quiet_mark_app_valid: "quiet s (snd (ota_link_mark_app_valid E s))"
  by (auto simp: ota_link_mark_app_valid_def Let_def adds_emit split: prod.split)

lemma start_uart_adds: "adds setup_call s (snd (start_uart E s))"
  by (auto simp: start_uart_def Let_def adds_emit)

lemma start_tasks_adds:
  assumes "start_tasks E cfg s = Some (err, s')"
  shows "adds setup_call s s'"
proof -
  have "case start_tasks E cfg s of None \<Rightarrow> True | Some (_, s') \<Rightarrow> adds setup_call s s'"
    by (cases "transport (s_config s)") (auto simp: start_tasks_def Let_def adds_emit split: option.split)
  then show ?thesis by (simp add: assms)
qed

lemma configure_only_auth: "auth_configure key n req s = Some s' \<Longrightarrow> \<exists>a. s' = s\<lparr>s_auth := a\<rparr>"
  by (auto simp: auth_configure_def Let_def bind_eq_Some split: if_splits option.splits)

text \<open>The part of a start that sets up the transport, and the three ways a start can go.\<close>

definition open_transport ::
  "esp_idf \<Rightarrow> ota_link_config_t \<Rightarrow> 'a link_dev_scheme \<Rightarrow> esp_err_t \<times> 'a link_dev_scheme" where
  "open_transport E cfg s = (case transport cfg of
     None \<Rightarrow> start_uart E s
   | Some t \<Rightarrow> if transport_read t = None \<or> transport_write t = None then (ESP_ERR_INVALID_ARG, s) else (ESP_OK, s))"

lemma start_cases:
  assumes "ota_link_start_with_config E (Some cfg) s = Some (err, s')"
  obtains "s' = s" "s_task_handle s \<noteq> None \<or> bad_key cfg"
  | "s' = s\<lparr>s_config := cfg\<rparr>" "s_task_handle s = None" "bad_key cfg"
  | t u e where "s_task_handle s = None" "\<not> bad_key cfg" "auth_configure (cfg_auth_key cfg) (cfg_auth_key_len cfg) (require_authentication cfg)
        (s\<lparr>s_config := cfg\<rparr>) = Some t" "open_transport E cfg (device_info_init E t) = (e, u)"
      "s' = u \<or> start_tasks E cfg u = Some (err, s')"
proof (cases "s_task_handle s = None \<and> \<not> bad_key cfg")
  case True
  then obtain t where t: "auth_configure (cfg_auth_key cfg) (cfg_auth_key_len cfg)
      (require_authentication cfg) (s\<lparr>s_config := cfg\<rparr>) = Some t"
    using assms by (auto simp: ota_link_start_with_config_def bad_key_def bind_eq_Some)
  obtain e u where u: "open_transport E cfg (device_info_init E t) = (e, u)" by fastforce
  have "(let (err, s) = open_transport E cfg (device_info_init E t) in
      if err \<noteq> ESP_OK then Some (err, s) else start_tasks E cfg s) = Some (err, s')"
    using True assms t
    unfolding ota_link_start_with_config_def bad_key_def open_transport_def Let_def by auto
  then show ?thesis using that(3) [OF _ _ t u] u True by (auto split: if_splits)
next
  case False
  then have "s' = s \<or> s' = s\<lparr>s_config := cfg\<rparr> \<and> s_task_handle s = None \<and> bad_key cfg"
    using assms by (auto simp: ota_link_start_with_config_def bad_key_def Let_def split: if_splits)
  then show ?thesis using that(1,2) False by metis
qed

lemma start_adds:
  assumes "ota_link_start_with_config E (Some cfg) s = Some (err, s')"
  shows "adds setup_call s s'"
  using assms
proof (cases rule: start_cases)
  case (3 t u e)
  have "adds setup_call s t" using configure_only_auth [OF 3(3)] by auto
  then have "adds setup_call s (device_info_init E t)" by (rule adds_trans) (rule info_init_adds)
  moreover have "adds setup_call (device_info_init E t) u"
    using 3(4) start_uart_adds [of "device_info_init E t" E]
    by (auto simp: open_transport_def split: option.splits if_splits)
  ultimately have "adds setup_call s u" by (rule adds_trans)
  then show ?thesis using 3(5) start_tasks_adds by (blast intro: adds_trans)
qed simp_all

lemma quiet_start: "ota_link_start_with_config E (Some cfg) s = Some (err, s') \<Longrightarrow> quiet s s'"
  by (erule adds_mono [OF start_adds]) (simp add: setup_call_def)

text \<open>An event handles a packet, or does nothing to the update and the link.\<close>

lemma event_cases:
  assumes "link_inv E s" "enabled ev s" "exec_event E ev s = Some (f, s')"
  obtains b k t where "ev = Ev_rx 1 b" "delivers b s k t" "commands_handle_packet E k t = Some (f, s')"
    "link_inv E t" "s_task_handle t \<noteq> None" "s_packet t = k"
  | "quiet s s'" "\<And>b k t. \<not> (ev = Ev_rx 1 b \<and> delivers b s k t)"
proof (cases ev)
  case (Ev_start c)
  then have "quiet s s'"
    using assms(3) by (cases c) (auto simp: bind_eq_Some ota_link_start_with_config_def [of E None] dest: quiet_start)
  then show ?thesis using that(2) Ev_start by simp
next
  case (Ev_rx r b)
  then have run: "s_task_handle s \<noteq> None" "ota_link_task_iteration E r b s = Some (f, s')" using assms by simp_all
  obtain complete p k where fd: "protocol_parser_feed (s_parser s) b (s_packet s) = Some (complete, p, k)"
    "parser_inv p" "packet_inv k"
    using protocol_parser_feed_refines [of "s_parser s" "s_packet s" b] assms(1) by (auto simp: link_inv_def)
  let ?t = "s\<lparr>s_parser := p, s_packet := k\<rparr>"
  have inv: "link_inv E ?t" using assms(1) fd by (auto simp: link_inv_def link_running_def)
  obtain u where tr: "transport (s_config s) = Some u" "transport_read u \<noteq> None"
    using assms(1) run(1) by (auto simp: link_inv_def link_running_def)
  show ?thesis
  proof (cases "r = 1 \<and> complete")
    case True
    then have d: "delivers b s k ?t" using fd(1) by (simp add: delivers_def)
    have "commands_handle_packet E k ?t = Some (f, s')"
      using run(2) tr True fd(1) by (auto simp: ota_link_task_iteration_def)
    then show ?thesis using that(1) [of b k ?t] d inv True Ev_rx run(1) by simp
  next
    case False
    then have "s' \<in> {s, ?t, emit (VTaskDelay (pdMS_TO_TICKS E 10)) s}"
      using run(2) tr fd(1) by (auto simp: ota_link_task_iteration_def split: if_splits)
    then have "quiet s s'" by (auto simp: adds_emit)
    moreover have "\<not> (ev = Ev_rx 1 b' \<and> delivers b' s k' t')" for b' k' t'
      using False fd(1) Ev_rx by (auto simp: delivers_def)
    ultimately show ?thesis by (rule that(2))
  qed
next
  case Ev_mark_valid_delay
  then have "quiet s s'" using assms(3) by (auto simp: mark_valid_task_delay_def adds_emit)
  then show ?thesis using that(2) Ev_mark_valid_delay by simp
next
  case Ev_mark_valid_resume
  then have "quiet s s'"
    using assms(3) quiet_mark_app_valid [of s E]
    by (auto simp: mark_valid_task_resume_def Let_def adds_emit split: prod.splits)
  then show ?thesis using that(2) Ev_mark_valid_resume by simp
next
  case Ev_task_entry
  then show ?thesis using that(2) assms(3) by (auto simp: ota_link_task_init_def)
next
  case Ev_app_mark_valid
  then show ?thesis using that(2) assms(3) quiet_mark_app_valid [of s E] by simp
next
  case Ev_app_mark_invalid
  then show ?thesis
    using that(2) assms(3) adds_emit [of plain_call Esp_ota_mark_app_invalid_and_reboot s s]
    by (simp add: ota_link_mark_app_invalid_and_reboot_def)
qed

section \<open>Frames\<close>

lemma start_uart_parser: "start_uart E s = (e, s') \<Longrightarrow> s_parser s' = s_parser s"
  by (auto simp: start_uart_def Let_def split: if_splits)

lemma start_tasks_parser:
  assumes "start_tasks E cfg s = Some (err, s')"
  shows "s_parser s' = s_parser s"
proof -
  have "case start_tasks E cfg s of None \<Rightarrow> True | Some (_, s') \<Rightarrow> s_parser s' = s_parser s"
    by (cases "transport (s_config s)") (auto simp: start_tasks_def Let_def split: option.split)
  then show ?thesis by (simp add: assms)
qed

lemma start_parser:
  assumes "ota_link_start_with_config E (Some cfg) s = Some (err, s')"
  shows "s_parser s' = s_parser s"
  using assms
proof (cases rule: start_cases)
  case (3 t u e)
  have "s_parser t = s_parser s" using configure_only_auth [OF 3(3)] by auto
  moreover have "s_parser u = s_parser t"
    using 3(4) by (auto simp: open_transport_def split: option.splits if_splits dest: start_uart_parser)
  ultimately show ?thesis using 3(5) start_tasks_parser by metis
qed simp_all

lemma event_parser:
  assumes "link_inv E s" "enabled ev s" "exec_event E ev s = Some (f, s')"
  shows "pending (s_parser s') = (case ev of
      Ev_rx r b \<Rightarrow> if r = 1 then fst (parse_step (pending (s_parser s)) b) else pending (s_parser s)
    | Ev_task_entry \<Rightarrow> []
    | _ \<Rightarrow> pending (s_parser s))"
proof (cases ev)
  case (Ev_start c)
  then show ?thesis
    using assms(3)
    by (cases c) (auto simp: bind_eq_Some ota_link_start_with_config_def [of E None] dest: start_parser)
next
  case Ev_task_entry
  then show ?thesis
    using assms parser_init_inv [of "s_parser s"] by (auto simp: ota_link_task_init_def link_inv_def)
next
  case (Ev_rx r b)
  then have run: "s_task_handle s \<noteq> None" "ota_link_task_iteration E r b s = Some (f, s')" using assms by simp_all
  obtain complete p k where fd: "protocol_parser_feed (s_parser s) b (s_packet s) = Some (complete, p, k)"
    "parser_inv p" "packet_inv k" "pending p = fst (parse_step (pending (s_parser s)) b)"
    using protocol_parser_feed_refines [of "s_parser s" "s_packet s" b] assms(1) by (auto simp: link_inv_def)
  let ?t = "s\<lparr>s_parser := p, s_packet := k\<rparr>"
  obtain u where tr: "transport (s_config s) = Some u" "transport_read u \<noteq> None" "s_write s \<noteq> None"
    using assms(1) run(1) by (auto simp: link_inv_def link_running_def)
  have i: "cmd_inv E ?t" "s_write ?t \<noteq> None" using assms(1) tr by (simp_all add: link_inv_def)
  have h: "s_parser s' = p" if "commands_handle_packet E k ?t = Some (f, s')"
    using settings_link_fields(3) [OF commands_settings [OF i(1) fd(3) i(2) that]] by simp
  show ?thesis
    using run(2) tr fd(1,4) h Ev_rx by (auto simp: ota_link_task_iteration_def split: if_splits)
qed (use assms in \<open>auto simp: mark_valid_task_delay_def mark_valid_task_resume_def ota_link_mark_app_valid_def ota_link_mark_app_invalid_and_reboot_def
  Let_def split: prod.splits if_splits\<close>)

text \<open>The bytes in the parser are the last ones received; so is the frame of a packet it delivers.\<close>

lemma run_pending: "device_run E evs s \<Longrightarrow> \<exists>xs. received evs = xs @ pending (s_parser s)"
proof (induction rule: device_run.induct)
  case boot
  show ?case by (simp add: boot_dev_def)
next
  case (step evs s ev s')
  have inv: "link_inv E s" using device_run_inv [OF step.hyps(1)] .
  then have ok: "pending_ok (pending (s_parser s))" by (simp add: link_inv_def parser_inv_def)
  obtain xs where xs: "received evs = xs @ pending (s_parser s)" using step.IH ..
  have rx: "\<exists>ys. received evs @ [b] = ys @ fst (parse_step (pending (s_parser s)) b)" for b
  proof (cases "parse_step (pending (s_parser s)) b")
    case (Pair acc r)
    show ?thesis
    proof (cases r)
      case None
      then obtain g where "pending (s_parser s) @ [b] = g @ acc" using parse_step_None [OF ok] Pair by auto
      then show ?thesis using xs Pair by (intro exI [of _ "xs @ g"]) simp
    qed (use parse_step_Some [OF ok, of b] Pair in auto)
  qed
  show ?case
    using event_parser [OF inv step.hyps(2,3)] xs rx
    by (cases ev) (auto split: if_splits)
qed

lemma delivered_frame:
  assumes "device_run E evs s" "delivers b s k t"
  shows "\<exists>xs. received (Ev_rx 1 b # evs) = xs @ wire (pkt_msg k)" "packet_inv k"
proof -
  have i: "parser_inv (s_parser s)" "packet_inv (s_packet s)"
    using device_run_inv [OF assms(1)] by (simp_all add: link_inv_def)
  obtain p where f: "protocol_parser_feed (s_parser s) b (s_packet s) = Some (True, p, k)"
    using assms(2) by (auto simp: delivers_def)
  then show "packet_inv k" using protocol_parser_feed_refines [OF i, of b] by auto
  have "parse_step (pending (s_parser s)) b = (pending p, Some (pkt_msg k))"
    using protocol_parser_feed_refines [OF i, of b] f by auto
  then have "pending (s_parser s) @ [b] = wire (pkt_msg k)"
    using parse_step_Some i(1) by (auto simp: parser_inv_def)
  moreover obtain xs where "received evs = xs @ pending (s_parser s)" using run_pending [OF assms(1)] ..
  ultimately show "\<exists>xs. received (Ev_rx 1 b # evs) = xs @ wire (pkt_msg k)"
    by (intro exI [of _ xs]) simp
qed

lemma handledI:
  "device_run E evs s \<Longrightarrow> delivers b s k t \<Longrightarrow> handled E (Ev_rx 1 b # evs) k t"
  using delivered_frame(1) unfolding handled_def by (metis append_Nil)

lemma handled_Cons: "handled E evs k t \<Longrightarrow> handled E (ev # evs) k t"
  unfolding handled_def by (metis append_Cons)

section \<open>Packets that concern the update\<close>

lemma not_ota_tx [simp]: "\<not> ota_call (tx_call s f)"
  by (simp add: tx_call_def split: option.split writer_t.split)

lemma aside_reply: "aside s (reply c q p s)"
  by (rule addsI [where cs = "[tx_call s _]"]) simp_all

lemma aside_verdict: "aside s (verdict E k err s)"
proof -
  obtain fr where "trace (verdict E k err s) = tx_call s fr # trace s" using verdict_trace by blast
  then show ?thesis by (intro addsI [where cs = "[tx_call s fr]"]) (simp_all add: verdict_def)
qed

lemma s_ota_emit [simp]: "s_ota (emit c s) = s_ota s"
  by (simp add: emit_def)

lemma aside_system: "aside s (snd (system_request E k n s))"
  by (simp add: system_request_def Let_def aside_verdict adds_emit)

text \<open>A packet is an OTA request that is executed, or leaves the update and the OTA service alone.\<close>

lemma packet_cases:
  assumes "cmd_inv E s" "packet_inv k" "commands_handle_packet E k s = Some (f, s')"
  obtains n r t where "auth_command_is_protected (pkt_command k)" "request_status E k s = Fresh n"
    "ota_request E (pkt_command k) (pkt_payload k) n s = Some (r, t)" "s' = verdict E k r t" "f = Continues"
    "pkt_version k = PROTOCOL_VERSION"
  | "aside s s'"
proof -
  have d: "dev_inv E s" using assms(1) by (simp add: cmd_inv_def)
  note sr = protocol_send_short_reply [OF dev_inv_ota(3) [OF d]]
  consider "pkt_version k = PROTOCOL_VERSION" "auth_command_is_protected (pkt_command k)"
    | "pkt_version k = PROTOCOL_VERSION" "pkt_command k = cmd_code CMD_GET_INFO"
    | "pkt_version k = PROTOCOL_VERSION" "pkt_command k = cmd_code CMD_AUTH"
    | "pkt_version k \<noteq> PROTOCOL_VERSION \<or> (pkt_command k \<noteq> cmd_code CMD_GET_INFO \<and>
         pkt_command k \<noteq> cmd_code CMD_AUTH \<and> pkt_command k \<notin> protected_codes)"
    unfolding protected_iff by blast
  then show ?thesis
  proof cases
    case 1
    then have p: "protected_command E k s = Some (f, s')"
      using assms(3) commands_protected [OF d assms(2) 1] by simp
    show ?thesis
    proof (cases "request_status E k s")
      case (Fresh n)
      show ?thesis
      proof (cases "pkt_command k \<in> {cmd_code CMD_REBOOT, cmd_code CMD_ROLLBACK}")
        case True
        then have "s' = snd (system_request E k n s)"
          using p Fresh by (auto simp: protected_command_def fresh_request_def)
        then have "aside s s'" by (simp only: aside_system)
        then show ?thesis by (rule that(2))
      next
        case False
        then show ?thesis
          using p Fresh that(1) 1 by (auto simp: protected_command_def fresh_request_def bind_eq_Some)
      qed
    qed (use p that(2) in \<open>auto simp: protected_command_def aside_reply aside_verdict\<close>)
  next
    case 2
    then have "cmd_get_info E k s = Some (f, s')" using assms(3) by (simp add: commands_handle_packet_def)
    then obtain fr where "s_ota s' = s_ota s" "trace s' = [tx_call s fr] @ trace s"
      using cmd_get_info_safe [OF assms(1), of k] by auto
    then have "aside s s'" by (rule addsI) simp
    then show ?thesis by (rule that(2))
  next
    case 3
    then have "cmd_auth E k s = Some (f, s')" using assms(3) by (simp add: commands_handle_packet_def)
    then obtain fr cs where "s_ota s' = s_ota s" "trace s' = cs @ trace s"
      "cs = [tx_call s fr] \<or> cs = [tx_call s fr, Esp_fill_random 16]"
      using cmd_auth_safe [OF d assms(2)] by auto
    then have "aside s s'" by (intro addsI) auto
    then show ?thesis by (rule that(2))
  next
    case 4
    then have "aside s s'"
      using assms(3)
      by (auto simp: commands_handle_packet_def Let_def protected_codes_def sr aside_reply split: if_splits)
    then show ?thesis by (rule that(2))
  qed
qed

text \<open>Only \<open>ota_manager_end\<close> switches the boot partition, and only to a verified image.\<close>

lemma ota_exec_boot:
  assumes "ota_inv s" "ota_image_inv s" "op_ok op" "ota_exec E op s = Some (r, t)"
    "trace t = cs @ trace s" "Esp_ota_set_boot_partition part err \<in> set cs"
  shows "op = Op_end \<and> ota_active (s_ota s) \<and> ota_partition (s_ota s) = Some part \<and>
    length (staged (trace s)) = unat (firmware_size (s_ota s)) \<and>
    digest_matches E (Esp_ota_end (ota_handle (s_ota s)) ESP_OK # trace s) part (expected_sha256 (s_ota s))"
proof (cases op)
  case (Op_begin p n)
  then show ?thesis
    using assms by (auto simp: ota_manager_begin_eq Let_def split: if_splits option.splits prod.splits)
next
  case (Op_data p n)
  have "length (last_chunk_data (s_ota s)) = 1016" using assms(1) by (simp add: ota_inv_def)
  then show ?thesis
    using Op_data assms by (auto simp: ota_manager_write_data_eq Let_def split: if_splits)
next
  case Op_end
  then obtain p where a: "ota_active (s_ota s)" "ota_partition (s_ota s) = Some p"
    "bytes_received (s_ota s) = firmware_size (s_ota s)"
    using assms by (auto simp: ota_inv_def ota_manager_end_def split: if_splits)
  then have "length (staged (trace s)) = unat (firmware_size (s_ota s))"
    using assms(2) by (simp add: ota_image_inv_def)
  then show ?thesis
    using a Op_end assms(4-6) by (auto simp: ota_manager_end_eq [OF assms(1) a] Let_def split: if_splits)
next
  case Op_abort
  then show ?thesis using assms by (auto simp: ota_manager_abort_def Let_def split: if_splits)
qed

text \<open>An active update was begun by \<open>ota_manager_begin\<close>, which alone sets its size and digest.\<close>

lemma ota_exec_update:
  assumes "ota_inv s" "op_ok op" "ota_exec E op s = Some (r, t)" "ota_active (s_ota t)"
  shows "(ota_active (s_ota s) \<and> firmware_size (s_ota t) = firmware_size (s_ota s) \<and>
      expected_sha256 (s_ota t) = expected_sha256 (s_ota s)) \<or>
    (\<exists>p n. op = Op_begin p n \<and> unat n = 36 \<and> firmware_size (s_ota t) = get32 p \<and>
      expected_sha256 (s_ota t) = take 32 (drop 4 p))"
proof (cases op)
  case (Op_begin p n)
  then show ?thesis
    using assms by (auto simp: ota_manager_begin_eq Let_def split: if_splits option.splits prod.splits)
next
  case (Op_data p n)
  have "length (last_chunk_data (s_ota s)) = 1016" using assms(1) by (simp add: ota_inv_def)
  then show ?thesis
    using Op_data assms by (auto simp: ota_manager_write_data_eq Let_def split: if_splits)
next
  case Op_end
  then have "ota_manager_end E s = Some (r, t)" using assms(3) by simp
  then show ?thesis
    using assms(4) unfolding ota_manager_end_def Let_def
    by (auto split: if_splits Option.bind_splits prod.splits)
next
  case Op_abort
  then show ?thesis using assms by (auto simp: ota_manager_abort_def Let_def split: if_splits)
qed

lemma fresh_permitted:
  "packet_inv k \<Longrightarrow> request_status E k s = Fresh n \<Longrightarrow> auth_is_enabled s \<longrightarrow> authorised E k s"
  by (simp add: auth_is_enabled_def fresh_authorised)

lemma s_ota_verdict [simp]: "s_ota (verdict E k err s) = s_ota s"
  by (simp add: verdict_def)

lemma packet_ops:
  assumes "cmd_inv E s" "packet_inv k" "commands_handle_packet E k s = Some (f, s')"
  obtains n r t fr where "auth_is_enabled s \<longrightarrow> authorised E k s" "op_ok (op_of (pkt_command k) (pkt_payload k) n)"
    "ota_exec E (op_of (pkt_command k) (pkt_payload k) n) s = Some (r, t)" "s_ota s' = s_ota t"
    "trace s' = tx_call t fr # trace t" "auth_command_is_protected (pkt_command k)"
  | "aside s s'"
  using assms
proof (cases rule: packet_cases)
  case (1 n r t)
  obtain fr where fr: "trace s' = tx_call t fr # trace t" using verdict_trace 1(4) by blast
  show ?thesis
  proof (cases "t = s \<and> ota_exec E (op_of (pkt_command k) (pkt_payload k) n) s \<noteq> Some (r, t)")
    case True
    then have "aside s s'" using 1(4) aside_verdict by simp
    then show ?thesis by (rule that(2))
  next
    case False
    then have "ota_exec E (op_of (pkt_command k) (pkt_payload k) n) s = Some (r, t)"
      using 1(3) by (auto simp: ota_request_exec split: if_splits)
    moreover have "s_ota s' = s_ota t" using 1(4) by simp
    ultimately show ?thesis
      using that(1) [OF fresh_permitted [OF assms(2) 1(2)] op_of_ok [OF fresh_length(2) [OF assms(2) 1(2)]]]
        fr 1(1) by blast
  qed
qed (rule that(2))

lemma packet_boot:
  assumes "cmd_inv E s" "ota_image_inv s" "packet_inv k" "commands_handle_packet E k s = Some (f, s')"
    "trace s' = cs @ trace s" "Esp_ota_set_boot_partition part err \<in> set cs"
  shows "pkt_command k = cmd_code CMD_OTA_END \<and> (auth_is_enabled s \<longrightarrow> authorised E k s) \<and>
    ota_active (s_ota s) \<and> length (staged (trace s)) = unat (firmware_size (s_ota s)) \<and>
    digest_matches E (Esp_ota_end (ota_handle (s_ota s)) ESP_OK # trace s) part (expected_sha256 (s_ota s))"
  using assms(1,3,4)
proof (cases rule: packet_ops)
  case (1 n r t fr)
  have inv: "ota_inv s" using assms(1) by (simp add: cmd_inv_def dev_inv_def)
  obtain ds where ds: "trace t = ds @ trace s" using ota_exec_log [OF 1(3)] by (auto simp: extends_def)
  then have "Esp_ota_set_boot_partition part err \<in> set ds"
    using assms(5,6) 1(5) by (auto simp: tx_call_def split: option.splits writer_t.splits)
  from ota_exec_boot [OF inv assms(2) 1(2,3) ds this] show ?thesis
    using 1(1) by (auto simp: op_of_def split: if_splits)
next
  case 2
  then show ?thesis using assms(5,6) by (auto simp: adds_def list_all_iff)
qed

lemma packet_update:
  assumes "cmd_inv E s" "packet_inv k" "commands_handle_packet E k s = Some (f, s')" "ota_active (s_ota s')"
  shows "(ota_active (s_ota s) \<and> firmware_size (s_ota s') = firmware_size (s_ota s) \<and>
      expected_sha256 (s_ota s') = expected_sha256 (s_ota s)) \<or>
    (pkt_command k = cmd_code CMD_OTA_BEGIN \<and> (auth_is_enabled s \<longrightarrow> authorised E k s) \<and>
      firmware_size (s_ota s') = get32 (pkt_payload k) \<and> expected_sha256 (s_ota s') = take 32 (drop 4 (pkt_payload k)))"
  using assms(1-3)
proof (cases rule: packet_ops)
  case (1 n r t fr)
  have inv: "ota_inv s" using assms(1) by (simp add: cmd_inv_def dev_inv_def)
  from ota_exec_update [OF inv 1(2,3)] show ?thesis
    using assms(4) 1(1,4) by (auto simp: op_of_def split: if_splits)
next
  case 2
  then show ?thesis using assms(4) by (simp add: adds_def)
qed

section \<open>Runs\<close>

lemma delivers_inv:
  assumes "link_inv E t" "s_packet t = k"
  shows "cmd_inv E t" "packet_inv k"
  using assms by (auto simp: link_inv_def)

lemma delivers_fields:
  assumes "delivers b s k t"
  shows "trace t = trace s" "s_ota t = s_ota s" "ota_image_inv t = ota_image_inv s"
  using assms by (auto simp: delivers_def ota_image_inv_def)

lemma run_image: "device_run E evs s \<Longrightarrow> partitions_fit E \<Longrightarrow> ota_image_inv s"
proof (induction rule: device_run.induct)
  case boot
  show ?case by (simp add: boot_dev_def ota_image_inv_def)
next
  case (step evs s ev s')
  have i: "ota_image_inv s" using step.IH step.prems .
  from device_run_inv [OF step.hyps(1)] step.hyps(2,3) show ?case
  proof (cases rule: event_cases)
    case (1 b k t)
    have "ota_image_inv t" using delivers_fields(3) [OF 1(2)] i by simp
    from commands_image [OF delivers_inv(1) [OF 1(4,6)] this delivers_inv(2) [OF 1(4,6)] step.prems] show ?thesis
      using 1(3) by simp
  next
    case 2
    then show ?thesis using i quiet_staged [OF 2(1)] by (simp add: ota_image_inv_def adds_def)
  qed
qed

lemma run_update_origin:
  "device_run E evs s \<Longrightarrow> ota_active (s_ota s) \<Longrightarrow> \<exists>k t. handled E evs k t \<and>
     pkt_command k = cmd_code CMD_OTA_BEGIN \<and> (auth_is_enabled t \<longrightarrow> authorised E k t) \<and>
     firmware_size (s_ota s) = get32 (pkt_payload k) \<and> expected_sha256 (s_ota s) = take 32 (drop 4 (pkt_payload k))"
proof (induction rule: device_run.induct)
  case boot
  then show ?case by (simp add: boot_dev_def)
next
  case (step evs s ev s')
  from device_run_inv [OF step.hyps(1)] step.hyps(2,3) show ?case
  proof (cases rule: event_cases)
    case (1 b k t)
    have h: "handled E (ev # evs) k t" using handledI [OF step.hyps(1) 1(2)] 1(1) by simp
    from packet_update [OF delivers_inv [OF 1(4,6)] 1(3) step.prems] show ?thesis
    proof
      assume same: "ota_active (s_ota t) \<and> firmware_size (s_ota s') = firmware_size (s_ota t) \<and>
        expected_sha256 (s_ota s') = expected_sha256 (s_ota t)"
      then show ?thesis using step.IH handled_Cons delivers_fields(2) [OF 1(2)] by metis
    qed (use h in blast)
  next
    case 2
    then have "s_ota s' = s_ota s" by (simp add: adds_def)
    then show ?thesis using step.IH step.prems handled_Cons by metis
  qed
qed

lemma run_boot_origin:
  "device_run E evs s \<Longrightarrow> partitions_fit E \<Longrightarrow> Esp_ota_set_boot_partition part err \<in> set (trace s) \<Longrightarrow>
   \<exists>ke te kb tb. handled E evs ke te \<and> pkt_command ke = cmd_code CMD_OTA_END \<and>
     (auth_is_enabled te \<longrightarrow> authorised E ke te) \<and>
     handled E evs kb tb \<and> pkt_command kb = cmd_code CMD_OTA_BEGIN \<and>
     (auth_is_enabled tb \<longrightarrow> authorised E kb tb) \<and>
     length (staged (trace te)) = unat (get32 (pkt_payload kb)) \<and>
     digest_matches E (Esp_ota_end (ota_handle (s_ota te)) ESP_OK # trace te) part (take 32 (drop 4 (pkt_payload kb)))"
proof (induction rule: device_run.induct)
  case boot
  then show ?case by (simp add: boot_dev_def)
next
  case (step evs s ev s')
  from device_run_inv [OF step.hyps(1)] step.hyps(2,3) show ?case
  proof (cases rule: event_cases)
    case (1 b k t)
    note inv = delivers_inv [OF 1(4,6)] and d = delivers_fields [OF 1(2)]
    obtain cs where cs: "trace s' = cs @ trace t"
      using commands_calls [OF inv 1(3)] by (auto simp: calls_since_def)
    show ?thesis
    proof (cases "Esp_ota_set_boot_partition part err \<in> set cs")
      case True
      have img: "ota_image_inv t" using run_image [OF step.hyps(1) step.prems(1)] d by simp
      note p = packet_boot [OF inv(1) img inv(2) 1(3) cs True]
      have h: "handled E (ev # evs) k t" using handledI [OF step.hyps(1) 1(2)] 1(1) by simp
      have "ota_active (s_ota s)" using p d by simp
      from run_update_origin [OF step.hyps(1) this] obtain kb tb where
        "handled E evs kb tb" "pkt_command kb = cmd_code CMD_OTA_BEGIN" "auth_is_enabled tb \<longrightarrow> authorised E kb tb"
        "firmware_size (s_ota s) = get32 (pkt_payload kb)" "expected_sha256 (s_ota s) = take 32 (drop 4 (pkt_payload kb))"
        by blast
      then show ?thesis using p h d handled_Cons by metis
    next
      case False
      then show ?thesis using step.IH step.prems handled_Cons cs d(1) by (metis Un_iff set_append)
    qed
  next
    case 2
    then obtain cs where "trace s' = cs @ trace s" "list_all plain_call cs" by (auto simp: adds_def)
    then have "Esp_ota_set_boot_partition part err \<in> set (trace s)"
      using step.prems(2) by (auto simp: list_all_iff plain_call_def)
    then show ?thesis using step.IH step.prems(1) handled_Cons by metis
  qed
qed

section \<open>Confirmations\<close>

text \<open>After the calls \<open>cs\<close> the running image was not yet confirmed.\<close>

definition unconfirmed :: "esp_idf \<Rightarrow> call list \<Rightarrow> bool" where
  "unconfirmed E cs \<longleftrightarrow> running_app_needs_validation E \<lparr>trace = cs\<rparr>"

text \<open>In a run with the events \<open>evs\<close> that has made the calls \<open>cs\<close>, the confirmation task of a start that
  asked for it has entered its delay.\<close>

definition delay_entered :: "esp_idf \<Rightarrow> event list \<Rightarrow> call list \<Rightarrow> bool" where
  "delay_entered E evs cs \<longleftrightarrow> (\<exists>evs2 evs1 t cfg us. evs = evs2 @ Ev_mark_valid_delay # evs1 \<and> device_run E evs1 t \<and>
     Ev_start (Some cfg) \<in> set evs1 \<and> auto_mark_app_valid cfg \<and>
     cs = us @ VTaskDelay (pdMS_TO_TICKS E (auto_mark_valid_delay_ms cfg)) # trace t)"

text \<open>What justifies a confirmation made after the calls \<open>cs\<close>.\<close>

definition confirmation_due :: "esp_idf \<Rightarrow> event list \<Rightarrow> call list \<Rightarrow> bool" where
  "confirmation_due E evs cs \<longleftrightarrow> unconfirmed E cs \<and> (Ev_app_mark_valid \<in> set evs \<or>
     (\<exists>evs2 evs1. evs = evs2 @ Ev_mark_valid_resume # evs1 \<and> delay_entered E evs1 cs))"

fun confirmations :: "(call list \<Rightarrow> bool) \<Rightarrow> call list \<Rightarrow> bool" where
  "confirmations P [] \<longleftrightarrow> True"
| "confirmations P (c # cs) \<longleftrightarrow> confirmations P cs \<and> (c = Esp_ota_mark_app_valid \<longrightarrow> P cs)"

definition mark_task_ok :: "esp_idf \<Rightarrow> event list \<Rightarrow> link_dev \<Rightarrow> bool" where
  "mark_task_ok E evs s \<longleftrightarrow> (s_mark_valid_task_handle s \<noteq> None \<longrightarrow> s_task_handle s \<noteq> None \<and>
     (\<exists>cfg. Ev_start (Some cfg) \<in> set evs \<and> auto_mark_app_valid cfg \<and>
        auto_mark_valid_delay_ms (s_config s) = auto_mark_valid_delay_ms cfg)) \<and>
     (mark_valid_delaying s \<longrightarrow> s_mark_valid_task_handle s \<noteq> None \<and> delay_entered E evs (trace s))"

lemma confirmations_at: "confirmations P (xs @ Esp_ota_mark_app_valid # ys) \<Longrightarrow> P ys"
  by (induction xs) auto

lemma confirmations_mono: "confirmations P cs \<Longrightarrow> (\<And>cs. P cs \<Longrightarrow> Q cs) \<Longrightarrow> confirmations Q cs"
  by (induction cs) auto

lemma confirmations_other:
  "\<forall>c\<in>set cs. c \<noteq> Esp_ota_mark_app_valid \<Longrightarrow> confirmations P (cs @ ds) = confirmations P ds"
  by (induction cs) auto

lemma delay_entered_later: "delay_entered E evs cs \<Longrightarrow> delay_entered E (ev # evs) (us @ cs)"
  unfolding delay_entered_def by (metis append_Cons append_assoc)

lemma confirmation_due_Cons: "confirmation_due E evs cs \<Longrightarrow> confirmation_due E (ev # evs) cs"
  unfolding confirmation_due_def by (metis append_Cons list.set_intros(2))

lemma mark_app_valid_confirmations:
  assumes "confirmations P (trace s)" "unconfirmed E (trace s) \<Longrightarrow> P (trace s)"
  shows "confirmations P (trace (snd (ota_link_mark_app_valid E s)))"
  using assms
  by (auto simp: ota_link_mark_app_valid_def unconfirmed_def running_app_needs_validation_def Let_def
      split: prod.splits)

lemma mark_app_valid_fields [simp]:
  "s_config (snd (ota_link_mark_app_valid E s)) = s_config s"
  "s_task_handle (snd (ota_link_mark_app_valid E s)) = s_task_handle s"
  "s_mark_valid_task_handle (snd (ota_link_mark_app_valid E s)) = s_mark_valid_task_handle s"
  "mark_valid_delaying (snd (ota_link_mark_app_valid E s)) = mark_valid_delaying s"
  "s_boot_count (snd (ota_link_mark_app_valid E s)) = s_boot_count s"
  by (auto simp: ota_link_mark_app_valid_def Let_def split: prod.split)

lemma start_tasks_mark:
  assumes "start_tasks E cfg s = Some (err, s')" "s_mark_valid_task_handle s = None" "s_mark_valid_task_handle s' \<noteq> None"
  shows "auto_mark_app_valid (s_config s) \<and> s_task_handle s' \<noteq> None \<and> s_config s' = s_config s"
proof -
  have "case start_tasks E cfg s of None \<Rightarrow> True | Some (_, s') \<Rightarrow> s_mark_valid_task_handle s' \<noteq> None \<longrightarrow>
      auto_mark_app_valid (s_config s) \<and> s_task_handle s' \<noteq> None \<and> s_config s' = s_config s"
    using assms(2)
    by (cases "transport (s_config s)") (auto simp: start_tasks_def Let_def protocol_set_writer_def split: option.split)
  then show ?thesis using assms(1,3) by simp
qed

lemma start_uart_config:
  assumes "start_uart E s = (e, s')"
  shows "auto_mark_app_valid (s_config s') = auto_mark_app_valid (s_config s)"
    "auto_mark_valid_delay_ms (s_config s') = auto_mark_valid_delay_ms (s_config s)"
    "s_mark_valid_task_handle s' = s_mark_valid_task_handle s" "mark_valid_delaying s' = mark_valid_delaying s"
    "s_boot_count s' = s_boot_count s"
  using assms by (auto simp: start_uart_def Let_def split: if_splits)

lemma start_tasks_fields:
  assumes "start_tasks E cfg s = Some (err, s')"
  shows "mark_valid_delaying s' = mark_valid_delaying s" "s_boot_count s' = s_boot_count s"
proof -
  have "case start_tasks E cfg s of None \<Rightarrow> True | Some (_, s') \<Rightarrow>
      mark_valid_delaying s' = mark_valid_delaying s \<and> s_boot_count s' = s_boot_count s"
    by (cases "transport (s_config s)") (auto simp: start_tasks_def Let_def protocol_set_writer_def split: option.split)
  then show "mark_valid_delaying s' = mark_valid_delaying s" "s_boot_count s' = s_boot_count s" by (simp_all add: assms)
qed

lemma info_init_mark [simp]:
  "s_mark_valid_task_handle (device_info_init E s) = s_mark_valid_task_handle s"
  "mark_valid_delaying (device_info_init E s) = mark_valid_delaying s"
  by (simp_all add: device_info_init_eq Let_def)

lemma open_transport_fields:
  assumes "open_transport E cfg s = (e, u)"
  shows "auto_mark_app_valid (s_config u) = auto_mark_app_valid (s_config s)"
    "auto_mark_valid_delay_ms (s_config u) = auto_mark_valid_delay_ms (s_config s)"
    "s_mark_valid_task_handle u = s_mark_valid_task_handle s" "mark_valid_delaying u = mark_valid_delaying s"
    "s_boot_count u = s_boot_count s"
  using assms start_uart_config [of E s e u] by (auto simp: open_transport_def split: option.splits if_splits)

lemma start_mark_task:
  assumes "ota_link_start_with_config E (Some cfg) s = Some (err, s')" "mark_task_ok E evs s"
  shows "mark_task_ok E (Ev_start (Some cfg) # evs) s'"
  using assms(1)
proof (cases rule: start_cases)
  case 1
  then show ?thesis using assms(2) delay_entered_later [of E evs _ _ "[]"] by (auto simp: mark_task_ok_def)
next
  case 2
  then show ?thesis using assms(2) by (auto simp: mark_task_ok_def)
next
  case (3 t u e)
  have "s_mark_valid_task_handle s = None" "\<not> mark_valid_delaying s"
    using assms(2) 3(1) by (auto simp: mark_task_ok_def)
  then have t: "s_mark_valid_task_handle t = None" "s_config t = cfg" "\<not> mark_valid_delaying t"
    using configure_only_auth [OF 3(3)] by auto
  note u = open_transport_fields [OF 3(4)]
  have u': "s_mark_valid_task_handle u = None" "\<not> mark_valid_delaying u" using u t by simp_all
  then have d: "\<not> mark_valid_delaying s'" using 3(5) start_tasks_fields(1) by metis
  show ?thesis
  proof (cases "s_mark_valid_task_handle s' = None")
    case False
    then have "start_tasks E cfg u = Some (err, s')" using 3(5) u'(1) by auto
    from start_tasks_mark [OF this u'(1) False] show ?thesis using u t d by (auto simp: mark_task_ok_def)
  qed (simp add: mark_task_ok_def d)
qed

text \<open>What an iteration of the command loop leaves alone.\<close>

lemma rx_frame:
  assumes "link_inv E s" "enabled (Ev_rx r b) s" "exec_event E (Ev_rx r b) s = Some (f, s')"
  shows "s_mark_valid_task_handle s' = s_mark_valid_task_handle s \<and> s_task_handle s' = s_task_handle s \<and>
    s_config s' = s_config s \<and> mark_valid_delaying s' = mark_valid_delaying s \<and> s_boot_count s' = s_boot_count s \<and>
    calls_since s s'"
  using assms
proof (cases rule: event_cases)
  case (1 b k t)
  have w: "s_write t \<noteq> None" using 1(4,5) by (auto simp: link_inv_def link_running_def)
  note inv = delivers_inv [OF 1(4,6)]
  have "calls_since s s'"
    using commands_calls [OF inv 1(3)] delivers_fields(1) [OF 1(2)] by (simp add: calls_since_def)
  then show ?thesis
    using settings_link_fields [OF commands_settings [OF inv w 1(3)]] 1(2) by (auto simp: delivers_def)
next
  case 2
  have "s' = s \<or> s' = emit (VTaskDelay (pdMS_TO_TICKS E 10)) s \<or> (\<exists>p k. s' = s\<lparr>s_parser := p, s_packet := k\<rparr>)"
    using assms(3) 2(2) by (auto simp: ota_link_task_iteration_def bind_eq_Some delivers_def split: if_splits)
  then show ?thesis
    by (auto intro: calls_sinceI [of _ "[]"] calls_sinceI [of _ "[VTaskDelay (pdMS_TO_TICKS E 10)]"])
qed

lemma run_confirmations:
  "device_run E evs s \<Longrightarrow> confirmations (confirmation_due E evs) (trace s) \<and> mark_task_ok E evs s"
proof (induction rule: device_run.induct)
  case boot
  show ?case by (simp add: boot_dev_def mark_task_ok_def)
next
  case (step evs s ev s')
  have inv: "link_inv E s" using device_run_inv [OF step.hyps(1)] .
  have old: "confirmations (confirmation_due E (ev # evs)) (trace s)"
    using step.IH confirmation_due_Cons by (blast intro: confirmations_mono)
  have keep: "confirmations (confirmation_due E (ev # evs)) (trace s') \<and> mark_task_ok E (ev # evs) s'"
    if "s_mark_valid_task_handle s' = s_mark_valid_task_handle s" "s_task_handle s' = s_task_handle s"
      "s_config s' = s_config s" "mark_valid_delaying s' = mark_valid_delaying s"
      "trace s' = cs @ trace s" "confirmations (confirmation_due E (ev # evs)) (cs @ trace s)" for cs
    using that step.IH delay_entered_later [of E evs "trace s" ev cs] by (auto simp: mark_task_ok_def)
  show ?case
  proof (cases ev)
    case (Ev_start c)
    show ?thesis
    proof (cases c)
      case None
      then show ?thesis using step.hyps(3) keep [of "[]"] old Ev_start by (simp add: ota_link_start_with_config_def)
    next
      case (Some cfg)
      then obtain err where st: "ota_link_start_with_config E (Some cfg) s = Some (err, s')"
        using step.hyps(3) Ev_start by (auto simp: bind_eq_Some)
      then show ?thesis
        using start_adds [OF st] start_mark_task [OF st] step.IH old Ev_start Some
        by (auto simp: adds_def list_all_iff setup_call_def confirmations_other)
    qed
  next
    case (Ev_rx r b)
    note fr = rx_frame [OF inv step.hyps(2,3) [unfolded Ev_rx]]
    then obtain cs where cs: "trace s' = cs @ trace s" "list_all packet_call cs" by (auto simp: calls_since_def)
    then have "confirmations (confirmation_due E (ev # evs)) (cs @ trace s)"
      using old by (auto simp: list_all_iff packet_call_def intro!: confirmations_other [THEN iffD2])
    then show ?thesis using keep [OF _ _ _ _ cs(1)] fr by blast
  next
    case Ev_mark_valid_delay
    have s': "s' = mark_valid_task_delay E s" using step.hyps(3) Ev_mark_valid_delay by simp
    have m: "s_mark_valid_task_handle s \<noteq> None" "mark_task_ok E evs s"
      using step.hyps(2) step.IH Ev_mark_valid_delay by auto
    then obtain cfg where cfg: "Ev_start (Some cfg) \<in> set evs" "auto_mark_app_valid cfg"
      "auto_mark_valid_delay_ms (s_config s) = auto_mark_valid_delay_ms cfg" by (auto simp: mark_task_ok_def)
    then have "delay_entered E (ev # evs) (trace s')"
      unfolding delay_entered_def s' mark_valid_task_delay_def using step.hyps(1) Ev_mark_valid_delay
      by (intro exI [of _ "[]"] exI [of _ evs] exI [of _ s] exI [of _ cfg]) simp
    then show ?thesis using old m unfolding s' by (auto simp: mark_task_ok_def mark_valid_task_delay_def)
  next
    case Ev_mark_valid_resume
    have "confirmations (confirmation_due E (ev # evs)) (trace (snd (ota_link_mark_app_valid E s)))"
    proof (rule mark_app_valid_confirmations [OF old])
      assume u: "unconfirmed E (trace s)"
      have "delay_entered E evs (trace s)"
        using step.hyps(2) step.IH Ev_mark_valid_resume by (auto simp: mark_task_ok_def)
      with u show "confirmation_due E (ev # evs) (trace s)"
        unfolding confirmation_due_def Ev_mark_valid_resume by (metis append_Nil)
    qed
    moreover have "s' = emit VTaskDelete ((snd (ota_link_mark_app_valid E s))
        \<lparr>s_mark_valid_task_handle := None, mark_valid_delaying := False\<rparr>)"
      using step.hyps(3) Ev_mark_valid_resume by (simp add: mark_valid_task_resume_def Let_def split: prod.splits)
    ultimately show ?thesis by (simp add: mark_task_ok_def)
  next
    case Ev_app_mark_valid
    have c: "confirmations (confirmation_due E (ev # evs)) (trace (snd (ota_link_mark_app_valid E s)))"
      by (rule mark_app_valid_confirmations [OF old]) (simp add: confirmation_due_def Ev_app_mark_valid)
    obtain cs where "trace (snd (ota_link_mark_app_valid E s)) = cs @ trace s"
      using quiet_mark_app_valid [of s E] by (auto simp: adds_def)
    then show ?thesis using step.hyps(3) keep [of cs] c Ev_app_mark_valid by auto
  next
    case Ev_task_entry
    then show ?thesis using step.hyps(3) keep [of "[]"] old by (auto simp: ota_link_task_init_def)
  next
    case Ev_app_mark_invalid
    then show ?thesis
      using step.hyps(3) keep [of "[Esp_ota_mark_app_invalid_and_reboot]"] old
      by (auto simp: ota_link_mark_app_invalid_and_reboot_def split: if_splits)
  qed
qed

section \<open>Starting\<close>

text \<open>The services a start needs: the UART driver and task creation succeed.\<close>

definition services_available :: "esp_idf \<Rightarrow> bool" where
  "services_available E \<longleftrightarrow> (\<forall>cs p n. uart_driver_install E cs p n = ESP_OK) \<and>
     (\<forall>cs p n. uart_param_config E cs p n = ESP_OK) \<and> (\<forall>cs p a b c d. uart_set_pin E cs p a b c d = ESP_OK) \<and>
     (\<forall>cs nm sz pr. xTaskCreate E cs nm sz pr \<noteq> None)"

definition transport_complete :: "ota_link_config_t \<Rightarrow> bool" where
  "transport_complete cfg \<longleftrightarrow>
     (\<forall>t. transport cfg = Some t \<longrightarrow> transport_read t \<noteq> None \<and> transport_write t \<noteq> None)"

lemma start_tasks_OK:
  assumes "services_available E" "transport (s_config s) \<noteq> None"
  shows "\<exists>s'. start_tasks E cfg s = Some (ESP_OK, s')"
proof -
  obtain t h where "transport (s_config s) = Some t" "xTaskCreate E (trace s) ''ota_link''
      (task_stack_size (s_config s)) (task_priority (s_config s)) = Some h"
    using assms unfolding services_available_def by blast
  then show ?thesis by (auto simp: start_tasks_def Let_def)
qed

lemma start_succeeds:
  assumes "link_inv E s" "config_ok cfg" "services_available E" "s_task_handle s = None" "\<not> bad_key cfg"
    "transport_complete cfg"
  shows "\<exists>s'. ota_link_start_with_config E (Some cfg) s = Some (ESP_OK, s')"
proof -
  let ?s = "s\<lparr>s_config := cfg\<rparr>"
  have i: "cmd_inv E ?s" using assms(1) by (simp add: link_inv_def)
  obtain a where a: "auth_configure (cfg_auth_key cfg) (cfg_auth_key_len cfg) (require_authentication cfg) ?s =
      Some (?s\<lparr>s_auth := a\<rparr>)"
    using auth_configure_as_configured [OF i assms(2,5)] by blast
  let ?d = "device_info_init E (?s\<lparr>s_auth := a\<rparr>)"
  obtain e u where u: "open_transport E cfg ?d = (e, u)" by fastforce
  then have "e = ESP_OK" "transport (s_config u) \<noteq> None"
    using assms(3,6)
    by (auto simp: open_transport_def start_uart_def services_available_def transport_complete_def Let_def
        split: option.splits if_splits)
  moreover have "ota_link_start_with_config E (Some cfg) s =
      (let (err, s) = open_transport E cfg ?d in if err \<noteq> ESP_OK then Some (err, s) else start_tasks E cfg s)"
    using assms(4,5) a
    unfolding ota_link_start_with_config_def bad_key_def open_transport_def Let_def by auto
  ultimately show ?thesis using u start_tasks_OK [OF assms(3)] by simp
qed

definition sample_key :: bytes where
  "sample_key = replicate 16 7"

definition sample_config :: ota_link_config_t where
  "sample_config = app_config sample_idf True sample_key"

lemma sample_config_ok [simp]:
  "config_ok sample_config" "\<not> bad_key sample_config" "transport_complete sample_config"
  "require_authentication sample_config" "services_available sample_idf"
  by (simp_all add: sample_config_def app_config_def config_ok_def bad_key_def transport_complete_def
      services_available_def sample_key_def OTA_LINK_DEFAULT_CONFIG_def sample_idf_def)

text \<open>A device just after its link was started.\<close>

lemma start_ota:
  assumes "ota_link_start_with_config E (Some cfg) s = Some (err, s')"
  shows "s_ota s' = s_ota s"
  using start_adds [OF assms] by (simp add: adds_def)

lemma started:
  assumes "services_available E" "config_ok cfg" "\<not> bad_key cfg" "transport_complete cfg"
  obtains s where "device_run E [Ev_start (Some cfg)] s" "s_task_handle s \<noteq> None" "s_parser s = zero_parser"
    "s_ota s = zero_ota" "auth_required (s_auth s) = require_authentication cfg"
    "require_authentication (s_config s) = require_authentication cfg"
proof -
  obtain s where s: "ota_link_start_with_config E (Some cfg) (boot_dev E) = Some (ESP_OK, s)"
    using start_succeeds [OF boot_inv assms(2,1) _ assms(3,4)] by (auto simp: boot_dev_def)
  have en: "enabled (Ev_start (Some cfg)) (boot_dev E)" using assms(2) by (simp add: config_ok_def)
  have "device_run E [Ev_start (Some cfg)] s"
    by (rule device_run.step [OF device_run.boot en]) (simp add: s)
  moreover have "start_outcome E cfg (boot_dev E) ESP_OK s"
    using ota_link_start_safe [OF boot_inv [of E] assms(2)] s by simp
  moreover have "s_parser s = zero_parser" "s_ota s = zero_ota"
    using start_parser [OF s] start_ota [OF s] by (simp_all add: boot_dev_def)
  ultimately show ?thesis
    using that by (auto simp: start_outcome_def link_inv_def link_running_def)
qed

lemma sample_started:
  "\<exists>s. device_run sample_idf [Ev_start (Some sample_config)] s \<and> s_task_handle s \<noteq> None \<and>
    require_authentication (s_config s)"
  by (rule started [OF sample_config_ok(5,1-3)]) auto

lemma start_incomplete:
  assumes "link_inv E s" "config_ok cfg" "s_task_handle s = None" "\<not> bad_key cfg" "\<not> transport_complete cfg"
  shows "\<exists>s'. ota_link_start_with_config E (Some cfg) s = Some (ESP_ERR_INVALID_ARG, s')"
proof -
  have "cmd_inv E (s\<lparr>s_config := cfg\<rparr>)" using assms(1) by (simp add: link_inv_def)
  from auth_configure_as_configured [OF this assms(2,4)] show ?thesis
    using assms(3-5)
    by (auto simp: ota_link_start_with_config_def bad_key_def transport_complete_def Let_def)
qed

text \<open>A start that asks for it creates the confirmation task.\<close>

lemma needs_validation_trace: "running_app_needs_validation E s = running_app_needs_validation E \<lparr>trace = trace s\<rparr>"
  by (simp add: running_app_needs_validation_def)

lemma start_tasks_confirms:
  assumes "services_available E" "transport (s_config s) \<noteq> None" "auto_mark_app_valid (s_config s)"
    "\<And>cs. running_app_needs_validation E \<lparr>trace = cs\<rparr>"
  shows "\<exists>s'. start_tasks E cfg s = Some (ESP_OK, s') \<and> s_mark_valid_task_handle s' \<noteq> None"
proof -
  obtain t where "transport (s_config s) = Some t" using assms(2) by blast
  moreover define h where "h cs nm sz pr = the (xTaskCreate E cs nm sz pr)" for cs nm sz pr
  moreover have "xTaskCreate E cs nm sz pr = Some (h cs nm sz pr)" for cs nm sz pr
    using assms(1) unfolding h_def services_available_def by (metis option.collapse)
  moreover have "running_app_needs_validation E u" for u :: "'a link_dev_scheme"
    using assms(4) needs_validation_trace by metis
  ultimately show ?thesis using assms(3) by (simp add: start_tasks_def Let_def)
qed

section \<open>The boot counter over a run\<close>

text \<open>The state after the events \<open>evs\<close> (most recent first) of a boot, and the number of start requests
  among them that found the link not running and passed the check of the key, whatever their result.\<close>

fun state_after :: "esp_idf \<Rightarrow> event list \<Rightarrow> link_dev option" where
  "state_after E [] = Some (boot_dev E)"
| "state_after E (ev # evs) = do { s \<leftarrow> state_after E evs; (f, s') \<leftarrow> exec_event E ev s; Some s' }"

definition start_attempt :: "event \<Rightarrow> link_dev option \<Rightarrow> bool" where
  "start_attempt ev s \<longleftrightarrow> (case (ev, s) of
     (Ev_start (Some cfg), Some s) \<Rightarrow> s_task_handle s = None \<and> \<not> bad_key cfg | _ \<Rightarrow> False)"

fun start_attempts :: "esp_idf \<Rightarrow> event list \<Rightarrow> nat" where
  "start_attempts E [] = 0"
| "start_attempts E (ev # evs) = start_attempts E evs + (if start_attempt ev (state_after E evs) then 1 else 0)"

lemma state_after_run: "device_run E evs s \<Longrightarrow> state_after E evs = Some s"
  by (induction rule: device_run.induct) auto

text \<open>The counter in RAM and in flash: after \<open>n\<close> attempts of a boot that found \<open>v0\<close>.\<close>

definition counted :: "u32 option \<Rightarrow> nat \<Rightarrow> link_dev \<Rightarrow> bool" where
  "counted v0 n s \<longleftrightarrow> (if n = 0 then s_boot_count s = 0 \<and> nvs_stored (trace s) = None
     else s_boot_count s = count_of v0 + of_nat n \<and> nvs_stored (trace s) = Some (count_of v0 + of_nat n))"

lemma counted_init:
  assumes "counted v0 n s" "nvs_works E v0" "nvs_stored (trace t) = nvs_stored (trace s)"
  shows "counted v0 (Suc n) (device_info_init E t)"
proof -
  have "count_of (nvs_value v0 (trace t)) = count_of v0 + of_nat n"
    using assms(1,3) by (auto simp: counted_def nvs_value_def count_of_def split: if_splits)
  then show ?thesis using device_info_init_counts [OF assms(2), of t] by (simp add: counted_def)
qed

lemma counted_quiet:
  assumes "counted v0 n s" "s_boot_count s' = s_boot_count s" "trace s' = cs @ trace s" "\<forall>c\<in>set cs. \<not> nvs_call c"
  shows "counted v0 n s'"
  using assms nvs_stored_quiet [OF assms(4), of "trace s"] by (auto simp: counted_def)

lemma mark_app_valid_calls:
  "\<exists>cs. trace (snd (ota_link_mark_app_valid E s)) = cs @ trace s \<and> (\<forall>c\<in>set cs. \<not> nvs_call c)"
  by (auto simp: ota_link_mark_app_valid_def Let_def split: prod.split intro: exI [of _ "[]"]
      exI [of _ "[Esp_ota_mark_app_valid]"])

lemma open_transport_handle: "open_transport E cfg s = (e, u) \<Longrightarrow> s_task_handle u = s_task_handle s"
  by (auto simp: open_transport_def start_uart_def Let_def split: option.splits if_splits)

lemma start_tasks_nvs:
  assumes "start_tasks E cfg s = Some (err, s')"
  shows "nvs_stored (trace s') = nvs_stored (trace s)"
proof -
  have "case start_tasks E cfg s of None \<Rightarrow> True | Some (_, s') \<Rightarrow> nvs_stored (trace s') = nvs_stored (trace s)"
    by (cases "transport (s_config s)") (auto simp: start_tasks_def Let_def split: option.split)
  then show ?thesis by (simp add: assms)
qed

lemma open_transport_nvs: "open_transport E cfg s = (e, u) \<Longrightarrow> nvs_stored (trace u) = nvs_stored (trace s)"
  by (auto simp: open_transport_def start_uart_def Let_def split: option.splits if_splits)

lemma start_counted:
  assumes "ota_link_start_with_config E (Some cfg) s = Some (err, s')" "counted v0 n s" "nvs_works E v0"
  shows "counted v0 (if s_task_handle s = None \<and> \<not> bad_key cfg then Suc n else n) s'"
  using assms(1)
proof (cases rule: start_cases)
  case (3 t u e)
  have t: "trace t = trace s" using configure_only_auth [OF 3(3)] by auto
  have c: "counted v0 (Suc n) (device_info_init E t)"
    using assms(2,3) t by (simp add: counted_init)
  then have "counted v0 (Suc n) u"
    using open_transport_nvs [OF 3(4)] open_transport_fields(5) [OF 3(4)] by (simp add: counted_def)
  moreover have "s_boot_count s' = s_boot_count u" "nvs_stored (trace s') = nvs_stored (trace u)"
    using 3(5) start_tasks_nvs start_tasks_fields(2) by metis+
  ultimately show ?thesis using 3(1,2) by (simp add: counted_def)
qed (use assms(2) in \<open>auto simp: counted_def\<close>)

lemma run_counted:
  "device_run E evs s \<Longrightarrow> nvs_works E v0 \<Longrightarrow> counted v0 (start_attempts E evs) s"
proof (induction rule: device_run.induct)
  case boot
  show ?case by (simp add: counted_def boot_dev_def)
next
  case (step evs s ev s')
  have inv: "link_inv E s" using device_run_inv [OF step.hyps(1)] .
  have c: "counted v0 (start_attempts E evs) s" using step.IH step.prems .
  have st: "state_after E evs = Some s" using state_after_run [OF step.hyps(1)] .
  have same: "counted v0 (start_attempts E (ev # evs)) s'"
    if "\<not> start_attempt ev (Some s)" "s_boot_count s' = s_boot_count s" "trace s' = cs @ trace s"
      "\<forall>c\<in>set cs. \<not> nvs_call c" for cs
    using counted_quiet [OF c that(2-4)] that(1) st by simp
  show ?case
  proof (cases ev)
    case (Ev_start x)
    show ?thesis
    proof (cases x)
      case None
      then show ?thesis
        using step.hyps(3) same [of "[]"] Ev_start by (simp add: ota_link_start_with_config_def start_attempt_def)
    next
      case (Some cfg)
      then obtain err where "ota_link_start_with_config E (Some cfg) s = Some (err, s')"
        using step.hyps(3) Ev_start by (auto simp: bind_eq_Some)
      from start_counted [OF this c step.prems] show ?thesis
        using Some Ev_start st by (auto simp: start_attempt_def split: if_splits)
    qed
  next
    case (Ev_rx r b)
    note fr = rx_frame [OF inv step.hyps(2,3) [unfolded Ev_rx]]
    then obtain cs where cs: "trace s' = cs @ trace s" "list_all packet_call cs" by (auto simp: calls_since_def)
    have "\<not> nvs_call x" if "packet_call x" for x using that by (cases x) (simp_all add: packet_call_def)
    then have "\<forall>c\<in>set cs. \<not> nvs_call c" using cs(2) by (auto simp: list_all_iff)
    then show ?thesis using same [OF _ _ cs(1)] fr Ev_rx by (simp add: start_attempt_def)
  next
    case Ev_mark_valid_resume
    obtain cs where cs: "trace (snd (ota_link_mark_app_valid E s)) = cs @ trace s" "\<forall>c\<in>set cs. \<not> nvs_call c"
      using mark_app_valid_calls by blast
    have "s' = emit VTaskDelete ((snd (ota_link_mark_app_valid E s))
        \<lparr>s_mark_valid_task_handle := None, mark_valid_delaying := False\<rparr>)"
      using step.hyps(3) Ev_mark_valid_resume by (simp add: mark_valid_task_resume_def Let_def split: prod.splits)
    then show ?thesis
      using same [of "VTaskDelete # cs"] cs Ev_mark_valid_resume by (simp add: start_attempt_def)
  next
    case Ev_app_mark_valid
    obtain cs where "trace (snd (ota_link_mark_app_valid E s)) = cs @ trace s" "\<forall>c\<in>set cs. \<not> nvs_call c"
      using mark_app_valid_calls by blast
    then show ?thesis
      using step.hyps(3) same [of cs] Ev_app_mark_valid mark_app_valid_fields(5) [of E s]
      by (simp add: start_attempt_def)
  next
    case Ev_mark_valid_delay
    then have "s' = mark_valid_task_delay E s" using step.hyps(3) by simp
    then show ?thesis
      using same [of "[VTaskDelay (pdMS_TO_TICKS E (auto_mark_valid_delay_ms (s_config s)))]"] Ev_mark_valid_delay
      by (simp add: mark_valid_task_delay_def start_attempt_def)
  next
    case Ev_task_entry
    then have "s' = ota_link_task_init s" using step.hyps(3) by simp
    then show ?thesis using same [of "[]"] Ev_task_entry by (simp add: ota_link_task_init_def start_attempt_def)
  next
    case Ev_app_mark_invalid
    then have "s' = emit Esp_ota_mark_app_invalid_and_reboot s"
      using step.hyps(3) by (auto simp: ota_link_mark_app_invalid_and_reboot_def split: if_splits)
    then show ?thesis
      using same [of "[Esp_ota_mark_app_invalid_and_reboot]"] Ev_app_mark_invalid by (simp add: start_attempt_def)
  qed
qed

text \<open>Two start requests of one boot: one that fails for its transport, and one that succeeds.\<close>

definition sample_incomplete :: ota_link_config_t where
  "sample_incomplete = sample_config\<lparr>transport := Some (Custom_transport (Some 0) None)\<rparr>"

lemma sample_incomplete_ok [simp]:
  "config_ok sample_incomplete" "\<not> bad_key sample_incomplete" "\<not> transport_complete sample_incomplete"
  by (simp_all add: sample_incomplete_def sample_config_def app_config_def config_ok_def bad_key_def
      transport_complete_def sample_key_def OTA_LINK_DEFAULT_CONFIG_def)

lemma sample_two_starts:
  "\<exists>s. device_run nvs_idf [Ev_start (Some sample_config), Ev_start (Some sample_incomplete)] s \<and>
    start_attempts nvs_idf [Ev_start (Some sample_config), Ev_start (Some sample_incomplete)] = 2"
proof -
  let ?E = nvs_idf
  have av: "services_available ?E" using sample_config_ok(5) by (simp add: services_available_def nvs_idf_def)
  have h0: "s_task_handle (boot_dev ?E) = None" by (simp add: boot_dev_def)
  obtain s1 where s1: "ota_link_start_with_config ?E (Some sample_incomplete) (boot_dev ?E) = Some (ESP_ERR_INVALID_ARG, s1)"
    using start_incomplete [OF boot_inv sample_incomplete_ok(1) h0 sample_incomplete_ok(2,3)] by blast
  have "enabled (Ev_start (Some sample_incomplete)) (boot_dev ?E)"
    using sample_incomplete_ok(1) by (simp add: config_ok_def)
  then have r1: "device_run ?E [Ev_start (Some sample_incomplete)] s1"
    by (rule device_run.step [OF device_run.boot]) (simp add: s1)
  have h1: "s_task_handle s1 = None"
    using ota_link_start_safe [OF boot_inv [of ?E] sample_incomplete_ok(1)] s1 h0 by (simp add: start_outcome_def)
  obtain s2 where s2: "ota_link_start_with_config ?E (Some sample_config) s1 = Some (ESP_OK, s2)"
    using start_succeeds [OF device_run_inv [OF r1] sample_config_ok(1) av h1 sample_config_ok(2,3)] by blast
  have "enabled (Ev_start (Some sample_config)) s1" using sample_config_ok(1) by (simp add: config_ok_def)
  then have "device_run ?E [Ev_start (Some sample_config), Ev_start (Some sample_incomplete)] s2"
    by (rule device_run.step [OF r1]) (simp add: s2)
  moreover have "start_attempts ?E [Ev_start (Some sample_config), Ev_start (Some sample_incomplete)] = 2"
    using h0 h1 s1 by (simp add: start_attempt_def)
  ultimately show ?thesis by blast
qed

text \<open>A run in which the confirmation task resumes from its delay.\<close>

lemma start_confirms:
  assumes "link_inv E s" "config_ok cfg" "services_available E" "s_task_handle s = None" "\<not> bad_key cfg"
    "transport_complete cfg" "auto_mark_app_valid cfg" "\<And>cs. running_app_needs_validation E \<lparr>trace = cs\<rparr>"
  shows "\<exists>s'. ota_link_start_with_config E (Some cfg) s = Some (ESP_OK, s') \<and> s_mark_valid_task_handle s' \<noteq> None"
proof -
  obtain s' where s': "ota_link_start_with_config E (Some cfg) s = Some (ESP_OK, s')"
    using start_succeeds [OF assms(1-6)] by blast
  have ok: "start_outcome E cfg s ESP_OK s'"
    using ota_link_start_safe [OF assms(1,2)] s' by simp
  then have h: "s_task_handle s' \<noteq> None" by (simp add: start_outcome_def)
  from s' show ?thesis
  proof (cases rule: start_cases)
    case (3 t u e)
    have t: "s_config t = cfg" "s_task_handle t = None" using configure_only_auth [OF 3(3)] assms(4) by auto
    note u = open_transport_fields [OF 3(4)]
    have "s_task_handle u = None" using open_transport_handle [OF 3(4)] t by simp
    then have st: "start_tasks E cfg u = Some (ESP_OK, s')" using 3(5) h by auto
    then have "transport (s_config u) \<noteq> None" by (auto simp: start_tasks_def bind_eq_Some)
    from start_tasks_confirms [OF assms(3) this _ assms(8), of cfg] show ?thesis
      using st u(1) t assms(7) s' by auto
  qed (use assms(4,5) h in auto)
qed

section \<open>Properties\<close>

text \<open>C19. What the boot counter counts.  Where NVS works as documented (a read gives the last committed
  value; \<open>v0\<close> is the one the boot finds), the counter is incremented and committed once by every
  start request that finds the link not running and passes the check of the key, whether or not the
  start then succeeds, and by nothing else.  It is not one increment per boot: a boot whose first
  start fails for its transport and whose second succeeds counts twice, and a boot without a start
  counts nothing and reports 0.  Over any run of a boot, with \<open>n\<close> such requests, the counter is the
  value found plus \<open>n\<close>, modulo \<open>2 ^ 32\<close>.\<close>

theorem boot_counter_counts_starts:
  assumes "device_run E evs s" "nvs_works E v0"
  shows "let n = start_attempts E evs in
    s_boot_count s = (if n = 0 then 0 else count_of v0 + of_nat n) \<and>
    nvs_stored (trace s) = (if n = 0 then None else Some (count_of v0 + of_nat n))"
  using run_counted [OF assms] by (simp add: counted_def Let_def split: if_splits)

theorem boot_counter_counts_starts_witness:
  "\<exists>s. device_run nvs_idf [Ev_start (Some sample_config), Ev_start (Some sample_incomplete)] s \<and>
    s_boot_count s = 41 + 2 \<and> nvs_stored (trace s) = Some (41 + 2)"
proof -
  obtain s where s: "device_run nvs_idf [Ev_start (Some sample_config), Ev_start (Some sample_incomplete)] s"
    "start_attempts nvs_idf [Ev_start (Some sample_config), Ev_start (Some sample_incomplete)] = 2"
    using sample_two_starts by blast
  from boot_counter_counts_starts [OF s(1) nvs_idf_works] s show ?thesis
    unfolding Let_def s(2) by (auto simp: count_of_def)
qed

text \<open>C26. The device never faults: in every state of a boot, whatever the services answered and whatever
  bytes arrived, every event that can happen completes without leaving an array or calling a null
  function pointer, and the invariant of the device holds afterwards: array sizes, use of OTA
  handles, the parser, the replay cache and, while the command task exists, a transport that also
  gets the answers, authentication as configured and no UART driver but the configured one.\<close>

theorem device_never_faults:
  assumes "device_run E evs s" "enabled ev s"
  shows "ensures (exec_event E ev s) (\<lambda>f s'. link_inv E s' \<and> handles_ok (trace s'))"
  by (rule ensures_mono [OF exec_event_safe [OF device_run_inv [OF assms(1)] assms(2)]])
     (auto simp: link_inv_def cmd_inv_def dev_inv_def ota_inv_def)

theorem device_never_faults_witness:
  "\<exists>s. device_run sample_idf [Ev_start (Some sample_config)] s \<and>
    ensures (exec_event sample_idf (Ev_rx 1 0xAA) s) (\<lambda>f s'. link_inv sample_idf s' \<and> handles_ok (trace s'))"
proof -
  obtain s where s: "device_run sample_idf [Ev_start (Some sample_config)] s" "s_task_handle s \<noteq> None"
    using sample_started by blast
  then have "enabled (Ev_rx 1 0xAA) s" by simp
  from device_never_faults [OF s(1) this] s(1) show ?thesis by blast
qed

text \<open>C27. A start is all or nothing: either it returns \<open>ESP_OK\<close>, the command task exists, the answers go
  to the transport of the configuration and authentication is required exactly as configured, with
  the configured key; or it returns an error and leaves neither a new task nor an installed UART
  driver behind.\<close>

theorem start_all_or_nothing:
  assumes "device_run E evs s" "config_ok cfg"
  shows "ensures (ota_link_start_with_config E (Some cfg) s) (\<lambda>err s'.
    if err = ESP_OK
    then s_task_handle s = None \<and> s_task_handle s' \<noteq> None \<and> s_write s' \<noteq> None \<and>
      s_write s' = transport_write (case transport cfg of None \<Rightarrow> S_uart_transport | Some t \<Rightarrow> t) \<and>
      (auth_is_enabled s' \<longleftrightarrow> require_authentication cfg) \<and>
      (require_authentication cfg \<longrightarrow>
        (\<exists>k. cfg_auth_key cfg = Some k \<and> current_key (s_auth s') = take (cfg_auth_key_len cfg) k))
    else s_task_handle s' = s_task_handle s \<and> uart_open (trace s') = uart_open (trace s))"
  using ota_link_start_safe [OF device_run_inv [OF assms(1)] assms(2)]
  by (rule ensures_mono)
     (auto simp: start_outcome_def link_inv_def link_running_def auth_is_enabled_def
      dest!: sym [of "Some _" "cfg_auth_key cfg"] split: if_splits)

theorem start_all_or_nothing_witness:
  "ensures (ota_link_start_with_config sample_idf (Some sample_config) (boot_dev sample_idf)) (\<lambda>err s'.
    if err = ESP_OK
    then s_task_handle (boot_dev sample_idf) = None \<and> s_task_handle s' \<noteq> None \<and> s_write s' \<noteq> None \<and>
      s_write s' = transport_write (case transport sample_config of None \<Rightarrow> S_uart_transport | Some t \<Rightarrow> t) \<and>
      (auth_is_enabled s' \<longleftrightarrow> require_authentication sample_config) \<and>
      (require_authentication sample_config \<longrightarrow>
        (\<exists>k. cfg_auth_key sample_config = Some k \<and>
           current_key (s_auth s') = take (cfg_auth_key_len sample_config) k))
    else s_task_handle s' = s_task_handle (boot_dev sample_idf) \<and> uart_open (trace s') = uart_open (trace (boot_dev sample_idf)))"
  by (rule start_all_or_nothing [OF device_run.boot]) simp

text \<open>C28. Which start requests are refused: with the UART and the task service working, a start returns
  \<open>ESP_ERR_INVALID_STATE\<close> when the link already runs, otherwise \<open>ESP_ERR_INVALID_ARG\<close> when
  authentication is required without a key of 1 to 64 bytes or a function of the transport table is
  missing, and \<open>ESP_OK\<close> in every other case.\<close>

theorem start_result:
  assumes "device_run E evs s" "config_ok cfg" "services_available E"
  shows "ensures (ota_link_start_with_config E (Some cfg) s) (\<lambda>err s'. err =
    (if s_task_handle s \<noteq> None then ESP_ERR_INVALID_STATE
     else if bad_key cfg \<or> \<not> transport_complete cfg then ESP_ERR_INVALID_ARG else ESP_OK))"
proof (cases "s_task_handle s = None \<and> \<not> bad_key cfg")
  case True
  note inv = device_run_inv [OF assms(1)]
  show ?thesis
    using True start_succeeds [OF inv assms(2,3)] start_incomplete [OF inv assms(2)]
    by (cases "transport_complete cfg") auto
qed (auto simp: ota_link_start_with_config_def bad_key_def Let_def)

theorem start_result_witness:
  "ensures (ota_link_start_with_config sample_idf (Some sample_config) (boot_dev sample_idf)) (\<lambda>err s'. err =
    (if s_task_handle (boot_dev sample_idf) \<noteq> None then ESP_ERR_INVALID_STATE
     else if bad_key sample_config \<or> \<not> transport_complete sample_config then ESP_ERR_INVALID_ARG else ESP_OK))"
  by (rule start_result [OF device_run.boot]) simp_all

text \<open>C29. No effect without authorisation, at the level of received bytes: once the link was started with
  authentication required, an iteration of the command loop restarts the chip, changes the update or
  makes any call but writing to the link, drawing a nonce and the pause after a read error, only when
  the byte just read completes a received frame whose packet is a request of a protected command in
  an open session, tagged with the session key and not answered recently.\<close>

theorem link_effects_need_authorisation:
  assumes "device_run E evs s" "s_task_handle s \<noteq> None" "require_authentication (s_config s)"
  shows "ensures (ota_link_task_iteration E r b s) (\<lambda>f s'. \<exists>cs. trace s' = cs @ trace s \<and>
    (f = Reboots \<or> s_ota s' \<noteq> s_ota s \<or> (\<exists>c\<in>set cs. privileged c \<and> c \<noteq> VTaskDelay (pdMS_TO_TICKS E 10)) \<longrightarrow>
       r = 1 \<and> (\<exists>k xs. received (Ev_rx r b # evs) = xs @ wire (pkt_msg k) \<and>
         auth_command_is_protected (pkt_command k) \<and> authorised E k s)))"
proof -
  have inv: "link_inv E s" using device_run_inv [OF assms(1)] .
  obtain f s' where ex: "ota_link_task_iteration E r b s = Some (f, s')"
    using ota_link_task_iteration_safe [OF inv assms(2), of r b] by (auto simp: ensures_iff)
  have ev: "enabled (Ev_rx r b) s" "exec_event E (Ev_rx r b) s = Some (f, s')" using assms(2) ex by simp_all
  from inv ev show ?thesis
  proof (cases rule: event_cases)
    case (1 b' k t)
    have req: "auth_required (s_auth t)" and same: "authorised E k t = authorised E k s"
      using inv assms(2,3) 1(2) by (auto simp: link_inv_def link_running_def delivers_def authorised_def)
    obtain cs where cs: "trace s' = cs @ trace s"
      using commands_calls [OF delivers_inv [OF 1(4,6)] 1(3)] delivers_fields(1) [OF 1(2)]
      by (auto simp: calls_since_def)
    show ?thesis
    proof (cases "authorised E k t \<and> auth_command_is_protected (pkt_command k) \<and> pkt_version k = PROTOCOL_VERSION")
      case True
      then show ?thesis
        using ex cs same 1(1) delivered_frame(1) [OF assms(1) 1(2)] by auto
    next
      case False
      from commands_effects [OF delivers_inv [OF 1(4,6)] req False] show ?thesis
        using ex 1(3) delivers_fields [OF 1(2)] by auto
    qed
  next
    case 2
    obtain t w where "transport (s_config s) = Some t" "transport_read t = Some w"
      using inv assms(2) by (auto simp: link_inv_def link_running_def)
    then have "f = Continues \<and> (trace s' = trace s \<or> trace s' = [VTaskDelay (pdMS_TO_TICKS E 10)] @ trace s)"
      using ex 2(2) by (auto simp: ota_link_task_iteration_def bind_eq_Some delivers_def split: if_splits)
    moreover have "s_ota s' = s_ota s" using 2(1) by (simp add: adds_def)
    ultimately show ?thesis using ex by auto
  qed
qed

theorem link_effects_need_authorisation_witness:
  "\<exists>s. device_run sample_idf [Ev_start (Some sample_config)] s \<and>
    ensures (ota_link_task_iteration sample_idf 1 0xAA s) (\<lambda>f s'. \<exists>cs. trace s' = cs @ trace s \<and>
    (f = Reboots \<or> s_ota s' \<noteq> s_ota s \<or> (\<exists>c\<in>set cs. privileged c \<and> c \<noteq> VTaskDelay (pdMS_TO_TICKS sample_idf 10)) \<longrightarrow>
       (1 :: int) = 1 \<and> (\<exists>k xs. received [Ev_rx 1 0xAA, Ev_start (Some sample_config)] = xs @ wire (pkt_msg k) \<and>
         auth_command_is_protected (pkt_command k) \<and> authorised sample_idf k s)))"
proof -
  obtain s where s: "device_run sample_idf [Ev_start (Some sample_config)] s" "s_task_handle s \<noteq> None"
    "require_authentication (s_config s)" using sample_started by blast
  from link_effects_need_authorisation [OF this, of 1 "0xAA"] s(1) show ?thesis by blast
qed

text \<open>C30. A new image is confirmed only for a reason.  Every call that cancels the rollback was made while
  the running image was still new or pending, and either the application asked for it, or it was made
  by the confirmation task when that task resumed from its delay: earlier in the run, after a start
  that was configured to confirm the image, the task had called \<open>vTaskDelay\<close> with the delay of that
  configuration, whatever else happened in between.\<close>

theorem confirmation_justified:
  assumes "device_run E evs s" "trace s = xs @ Esp_ota_mark_app_valid # cs"
  shows "running_app_needs_validation E \<lparr>trace = cs\<rparr> \<and> (Ev_app_mark_valid \<in> set evs \<or>
    (\<exists>cfg evs3 evs2 evs1 t us. evs = evs3 @ Ev_mark_valid_resume # evs2 @ Ev_mark_valid_delay # evs1 \<and>
       device_run E evs1 t \<and> Ev_start (Some cfg) \<in> set evs1 \<and> auto_mark_app_valid cfg \<and>
       cs = us @ VTaskDelay (pdMS_TO_TICKS E (auto_mark_valid_delay_ms cfg)) # trace t))"
proof -
  have "confirmations (confirmation_due E evs) (xs @ Esp_ota_mark_app_valid # cs)"
    using run_confirmations [OF assms(1)] assms(2) by simp
  from confirmations_at [OF this] show ?thesis
    unfolding confirmation_due_def unconfirmed_def delay_entered_def by blast
qed

definition sample_auto_config :: ota_link_config_t where
  "sample_auto_config = sample_config\<lparr>auto_mark_app_valid := True\<rparr>"

lemma sample_confirmed:
  "\<exists>s cs. device_run sample_idf [Ev_mark_valid_resume, Ev_mark_valid_delay, Ev_start (Some sample_auto_config)] s \<and>
    trace s = [VTaskDelete] @ Esp_ota_mark_app_valid # cs"
proof -
  let ?E = sample_idf
  have cfg: "config_ok sample_auto_config" "\<not> bad_key sample_auto_config" "transport_complete sample_auto_config"
    "auto_mark_app_valid sample_auto_config"
    by (simp_all add: sample_auto_config_def sample_config_def app_config_def config_ok_def bad_key_def
        transport_complete_def sample_key_def OTA_LINK_DEFAULT_CONFIG_def)
  have v: "running_app_needs_validation ?E \<lparr>trace = cs\<rparr>" for cs
    by (simp add: running_app_needs_validation_def sample_idf_def)
  obtain s1 where s1: "ota_link_start_with_config ?E (Some sample_auto_config) (boot_dev ?E) = Some (ESP_OK, s1)"
    "s_mark_valid_task_handle s1 \<noteq> None"
    using start_confirms [OF boot_inv cfg(1) sample_config_ok(5) _ cfg(2-4) v] by (auto simp: boot_dev_def)
  have "enabled (Ev_start (Some sample_auto_config)) (boot_dev ?E)" using cfg(1) by (simp add: config_ok_def)
  then have r1: "device_run ?E [Ev_start (Some sample_auto_config)] s1"
    by (rule device_run.step [OF device_run.boot]) (simp add: s1)
  let ?s2 = "mark_valid_task_delay ?E s1"
  have "\<not> mark_valid_delaying s1"
    using conjunct2 [OF run_confirmations [OF r1]] by (auto simp: mark_task_ok_def delay_entered_def Cons_eq_append_conv)
  then have r2: "device_run ?E [Ev_mark_valid_delay, Ev_start (Some sample_auto_config)] ?s2"
    using s1(2) by (intro device_run.step [OF r1]) simp_all
  have "enabled Ev_mark_valid_resume ?s2" using s1(2) by (simp add: mark_valid_task_delay_def)
  then have "device_run ?E [Ev_mark_valid_resume, Ev_mark_valid_delay, Ev_start (Some sample_auto_config)]
      (mark_valid_task_resume ?E ?s2)" by (rule device_run.step [OF r2]) simp
  moreover have "trace (mark_valid_task_resume ?E ?s2) = [VTaskDelete] @ Esp_ota_mark_app_valid # trace ?s2"
    by (simp add: mark_valid_task_resume_def ota_link_mark_app_valid_def sample_idf_def)
  ultimately show ?thesis by blast
qed

theorem confirmation_justified_witness:
  "\<exists>cs cfg evs3 evs2 evs1 t us. running_app_needs_validation sample_idf \<lparr>trace = cs\<rparr> \<and>
    [Ev_mark_valid_resume, Ev_mark_valid_delay, Ev_start (Some sample_auto_config)] =
      evs3 @ Ev_mark_valid_resume # evs2 @ Ev_mark_valid_delay # evs1 \<and>
    device_run sample_idf evs1 t \<and> Ev_start (Some cfg) \<in> set evs1 \<and> auto_mark_app_valid cfg \<and>
    cs = us @ VTaskDelay (pdMS_TO_TICKS sample_idf (auto_mark_valid_delay_ms cfg)) # trace t"
proof -
  obtain s cs where s: "device_run sample_idf [Ev_mark_valid_resume, Ev_mark_valid_delay, Ev_start (Some sample_auto_config)] s"
    "trace s = [VTaskDelete] @ Esp_ota_mark_app_valid # cs"
    using sample_confirmed by blast
  have "Ev_app_mark_valid \<notin> set [Ev_mark_valid_resume, Ev_mark_valid_delay, Ev_start (Some sample_auto_config)]"
    by simp
  with confirmation_justified [OF s] show ?thesis by blast
qed

end
