(* ===== verification/Uploads.thy ===== *)
theory Uploads
  imports Device_Runs
begin

text \<open>
  Whole exchanges over the link: how the command loop executes a received frame, how a request of a
  client is executed and acknowledged, and a complete firmware upload.
\<close>

section \<open>Receiving a frame\<close>

abbreviation rx_events :: "bytes \<Rightarrow> event list" where
  "rx_events \<equiv> map (Ev_rx 1)"

lemma rx_incomplete:
  assumes "link_inv E s" "s_task_handle s \<noteq> None" "protocol_parser_feed (s_parser s) b (s_packet s) = Some (False, p, k)"
  shows "exec_event E (Ev_rx 1 b) s = Some (Continues, s\<lparr>s_parser := p, s_packet := k\<rparr>)"
  using assms by (auto simp: link_inv_def link_running_def ota_link_task_iteration_def)

lemma rx_complete:
  assumes "link_inv E s" "s_task_handle s \<noteq> None" "protocol_parser_feed (s_parser s) b (s_packet s) = Some (True, p, k)"
  shows "exec_event E (Ev_rx 1 b) s = commands_handle_packet E k (s\<lparr>s_parser := p, s_packet := k\<rparr>)"
  using assms by (auto simp: link_inv_def link_running_def ota_link_task_iteration_def)

lemma link_inv_parser:
  "link_inv E s \<Longrightarrow> parser_inv p \<Longrightarrow> packet_inv k \<Longrightarrow> link_inv E (s\<lparr>s_parser := p, s_packet := k\<rparr>)"
  by (auto simp: link_inv_def link_running_def)

lemma rx_prefix:
  assumes "link_inv E s" "s_task_handle s \<noteq> None" "pending (s_parser s) = []" "msg_ok m"
  shows "k < length (wire m) \<Longrightarrow> \<exists>p. run_ops (exec_event E) s (rx_events (take k (wire m))) =
      Some (replicate k Continues, s\<lparr>s_parser := p\<rparr>) \<and> parser_inv p \<and> pending p = take k (wire m)"
proof (induction k)
  case 0
  have "parser_inv (s_parser s)" using assms(1) by (simp add: link_inv_def)
  then show ?case using assms(3) by (intro exI [of _ "s_parser s"]) simp
next
  case (Suc k)
  then obtain p where p: "run_ops (exec_event E) s (rx_events (take k (wire m))) =
      Some (replicate k Continues, s\<lparr>s_parser := p\<rparr>)" "parser_inv p" "pending p = take k (wire m)"
    by auto
  let ?s = "s\<lparr>s_parser := p\<rparr>"
  have q: "packet_inv (s_packet s)" using assms(1) by (simp add: link_inv_def)
  have st: "parse_step (take k (wire m)) (wire m ! k) = (take (Suc k) (wire m), None)"
    unfolding wire_raw by (rule raw_frame_step [OF wire_body_ok [OF assms(4)]]) (use Suc.prems in \<open>simp_all add: wire_raw\<close>)
  obtain p' where p': "protocol_parser_feed p (wire m ! k) (s_packet s) = Some (False, p', s_packet s)"
    "parser_inv p'" "pending p' = take (Suc k) (wire m)"
    using protocol_parser_feed_refines [OF p(2) q, of "wire m ! k"] st p(3) by (auto split: if_splits)
  have "link_inv E ?s" using link_inv_parser [OF assms(1) p(2) q] by simp
  from rx_incomplete [OF this, of "wire m ! k" p' "s_packet s"] p'(1) assms(2)
  have "exec_event E (Ev_rx 1 (wire m ! k)) ?s = Some (Continues, s\<lparr>s_parser := p'\<rparr>)" by simp
  then show ?case
    using Suc.prems p(1) p'(2,3)
    by (intro exI [of _ p']) (simp add: take_Suc_conv_app_nth run_ops_append replicate_append_same)
qed

lemma wire_last_step:
  assumes "msg_ok m"
  defines "n \<equiv> length (wire m) - 1"
  shows "parse_step (take n (wire m)) (wire m ! n) = ([], Some m)" "n < length (wire m)"
    "wire m = take n (wire m) @ [wire m ! n]"
proof -
  show n: "n < length (wire m)" by (simp add: n_def wire_def)
  have "length (wire m) = Suc n" using n by (simp add: n_def)
  then show w: "wire m = take n (wire m) @ [wire m ! n]"
    using take_Suc_conv_app_nth [OF n] by simp
  have pre: "run_machine parse_step [] (take n (wire m)) = (take n (wire m), [])"
    unfolding wire_raw by (rule raw_frame_prefix [OF wire_body_ok [OF assms(1)]]) (use n in \<open>simp_all add: wire_raw\<close>)
  obtain a r where st: "parse_step (take n (wire m)) (wire m ! n) = (a, r)" by fastforce
  have "run_machine parse_step [] (take n (wire m) @ [wire m ! n]) = (a, case r of None \<Rightarrow> [] | Some x \<Rightarrow> [x])"
    using run_machine_snoc [OF pre st] by (simp split: option.split)
  then show "parse_step (take n (wire m)) (wire m ! n) = ([], Some m)"
    using wire_decode [OF assms(1)] w st by (auto split: option.splits)
qed

text \<open>The bytes of a frame, received by an idle parser, have exactly the effect of handling its packet.\<close>

lemma frame_handled:
  assumes "link_inv E s" "s_task_handle s \<noteq> None" "pending (s_parser s) = []" "msg_ok m"
  obtains k p t where "pkt_msg k = m" "packet_inv k" "t = s\<lparr>s_parser := p, s_packet := k\<rparr>" "link_inv E t"
    "pending p = []"
    "run_ops (exec_event E) s (rx_events (wire m)) = do {
       (f, s') \<leftarrow> commands_handle_packet E k t;
       Some (replicate (length (wire m) - 1) Continues @ [f], s') }"
proof -
  define n where "n = length (wire m) - 1"
  note w = wire_last_step [OF assms(4), folded n_def]
  obtain p where p: "run_ops (exec_event E) s (rx_events (take n (wire m))) =
      Some (replicate n Continues, s\<lparr>s_parser := p\<rparr>)" "parser_inv p" "pending p = take n (wire m)"
    using rx_prefix [OF assms w(2)] by blast
  let ?s = "s\<lparr>s_parser := p\<rparr>"
  have q: "packet_inv (s_packet s)" using assms(1) by (simp add: link_inv_def)
  obtain p' k where p': "protocol_parser_feed p (wire m ! n) (s_packet s) = Some (True, p', k)"
    "parser_inv p'" "packet_inv k" "pending p' = []" "pkt_msg k = m"
    using protocol_parser_feed_refines [OF p(2) q, of "wire m ! n"] w(1) p(3) by (auto split: if_splits)
  let ?t = "s\<lparr>s_parser := p', s_packet := k\<rparr>"
  have "link_inv E ?s" using link_inv_parser [OF assms(1) p(2) q] by simp
  from rx_complete [OF this, of "wire m ! n" p' k] p'(1) assms(2)
  have e: "exec_event E (Ev_rx 1 (wire m ! n)) ?s = commands_handle_packet E k ?t" by simp
  have "run_ops (exec_event E) s (rx_events (take n (wire m) @ [wire m ! n])) = do {
       (f, s') \<leftarrow> commands_handle_packet E k ?t; Some (replicate n Continues @ [f], s') }"
    using p(1) e by (cases "commands_handle_packet E k ?t") (auto simp: run_ops_append split: prod.split)
  from this [folded w(3)] show ?thesis
    using that [OF p'(5,3) refl link_inv_parser [OF assms(1) p'(2,3)] p'(4)] by (simp add: n_def)
qed

text \<open>Receiving bytes keeps the configuration and the task, and extends a run of the device.\<close>

lemma rx_keeps_link:
  assumes "link_inv E s" "s_task_handle s \<noteq> None" "exec_event E (Ev_rx r b) s = Some (f, s')"
  shows "link_inv E s'" "s_config s' = s_config s" "s_task_handle s' = s_task_handle s"
proof -
  have en: "enabled (Ev_rx r b) s" using assms(2) by simp
  show "link_inv E s'" using exec_event_safe [OF assms(1) en] assms(3) by simp
  have "s_config s' = s_config s \<and> s_task_handle s' = s_task_handle s"
    using assms(1) en assms(3)
  proof (cases rule: event_cases)
    case (1 b' k t)
    have "s_write t \<noteq> None" using 1(4,5) by (auto simp: link_inv_def link_running_def)
    from settings_link_fields(1,2) [OF commands_settings [OF delivers_inv [OF 1(4,6)] this 1(3)]]
    show ?thesis using 1(2) by (auto simp: delivers_def)
  next
    case 2
    then show ?thesis
      using assms(3) by (auto simp: ota_link_task_iteration_def bind_eq_Some delivers_def split: if_splits)
  qed
  then show "s_config s' = s_config s" "s_task_handle s' = s_task_handle s" by simp_all
qed

lemma rx_run:
  "device_run E evs s \<Longrightarrow> s_task_handle s \<noteq> None \<Longrightarrow> run_ops (exec_event E) s (rx_events bs) = Some (fs, s') \<Longrightarrow>
   set fs \<subseteq> {Continues} \<Longrightarrow> device_run E (rev (rx_events bs) @ evs) s' \<and> s_task_handle s' \<noteq> None"
proof (induction bs arbitrary: evs s fs)
  case (Cons b bs)
  then obtain f s1 gs where 1: "exec_event E (Ev_rx 1 b) s = Some (f, s1)"
    "run_ops (exec_event E) s1 (rx_events bs) = Some (gs, s')" "fs = f # gs"
    by (auto simp: bind_eq_Some simp del: exec_event.simps)
  have en: "enabled (Ev_rx 1 b) s" "f = Continues" using Cons.prems 1(3) by simp_all
  have "device_run E (Ev_rx 1 b # evs) s1"
    using device_run.step [OF Cons.prems(1) en(1)] 1(1) en(2) by simp
  moreover have "s_task_handle s1 \<noteq> None"
    using rx_keeps_link(3) [OF device_run_inv [OF Cons.prems(1)] Cons.prems(2) 1(1)] Cons.prems(2) by simp
  ultimately show ?case
    using Cons.IH [OF _ _ 1(2)] Cons.prems(4) 1(3) by simp
qed simp

section \<open>Requests of a client\<close>

text \<open>A client request: command, sequence number and body.  In a session the payload is the body and its
  tag.\<close>

definition request_msg :: "esp_idf \<Rightarrow> auth_state_t \<Rightarrow> u8 \<Rightarrow> u16 \<Rightarrow> bytes \<Rightarrow> msg" where
  "request_msg E a c q body = Msg PROTOCOL_VERSION c q
     (if auth_required a then body @ request_tag E (session_key a) c q body else body)"

text \<open>The answer to a request that was carried out.\<close>

definition ack_msg :: "esp_idf \<Rightarrow> auth_state_t \<Rightarrow> u8 \<Rightarrow> u16 \<Rightarrow> msg" where
  "ack_msg E a c q = Msg PROTOCOL_VERSION (cmd_code CMD_ACK) q
     (if auth_required a then [0] @ response_tag E (session_key a) c (cmd_code CMD_ACK) q [0] else [0])"

text \<open>The device can take requests with the keys in \<open>ks\<close>: the command task waits for a frame and, where
  authentication is required, a session is open in which none of \<open>ks\<close> was used recently.\<close>

definition ready :: "esp_idf \<Rightarrow> (u8 \<times> u16) set \<Rightarrow> link_dev \<Rightarrow> bool" where
  "ready E ks s \<longleftrightarrow> link_inv E s \<and> s_task_handle s \<noteq> None \<and> pending (s_parser s) = [] \<and>
     (auth_required (s_auth s) \<longrightarrow> authenticated (s_auth s) \<and> (\<forall>key\<in>ks. cache_lookup key (s_auth s) = None))"

definition same_session :: "auth_state_t \<Rightarrow> auth_state_t \<Rightarrow> bool" where
  "same_session a b \<longleftrightarrow> auth_required b = auth_required a \<and> session_key b = session_key a"

lemma same_session_msgs:
  "same_session a b \<Longrightarrow> request_msg E b = request_msg E a" "same_session a b \<Longrightarrow> ack_msg E b = ack_msg E a"
  by (simp_all add: same_session_def request_msg_def ack_msg_def fun_eq_iff)

lemma same_session_trans: "same_session a b \<Longrightarrow> same_session b c \<Longrightarrow> same_session a c"
  by (simp add: same_session_def)

definition max_body :: "auth_state_t \<Rightarrow> nat" where
  "max_body a = (if auth_required a then 1008 else 1024)"

lemma request_fresh:
  assumes "ready E ks s" "(c, q) \<in> ks" "packet_inv k" "pkt_msg k = request_msg E (s_auth s) c q body"
    "length body \<le> max_body (s_auth s)" "s_auth t = s_auth s"
  shows "request_status E k t = Fresh (of_nat (length body))" "take (length body) (pkt_payload k) = body"
    "pkt_command k = c" "pkt_sequence k = q" "pkt_version k = PROTOCOL_VERSION"
proof -
  show k: "pkt_command k = c" "pkt_sequence k = q" "pkt_version k = PROTOCOL_VERSION"
    using assms(4) by (simp_all add: pkt_msg_def request_msg_def)
  have b: "pkt_bytes k = (if auth_required (s_auth s) then body @ request_tag E (session_key (s_auth s)) c q body else body)"
    using assms(4) by (simp add: pkt_msg_def request_msg_def pkt_bytes_def)
  have "request_status E k t = Fresh (of_nat (length body)) \<and> take (length body) (pkt_payload k) = body"
  proof (cases "auth_required (s_auth s)")
    case True
    then show ?thesis
      using tagged_fresh [OF assms(3), of t body E] assms(1,2,6) b k by (auto simp: ready_def)
  next
    case False
    have "length body = unat (pkt_length k)"
      using b False length_pkt_bytes [OF assms(3)] by (simp add: pkt_bytes_def)
    then have "pkt_length k = of_nat (length body)" "take (length body) (pkt_payload k) = body"
      using b False by (simp_all add: pkt_bytes_def)
    then show ?thesis using False assms(6) by (simp add: request_status_def Let_def)
  qed
  then show "request_status E k t = Fresh (of_nat (length body))" "take (length body) (pkt_payload k) = body" by simp_all
qed

text \<open>A verdict keeps the session and uses up only its own key.\<close>

lemma verdict_session:
  assumes "cache_inv (s_auth t)"
  shows "same_session (s_auth t) (s_auth (verdict E k err t))"
    "authenticated (s_auth (verdict E k err t)) = authenticated (s_auth t)"
    "cache_lookup key (s_auth t) = None \<Longrightarrow> key \<noteq> (pkt_command k, pkt_sequence k) \<Longrightarrow>
     cache_lookup key (s_auth (verdict E k err t)) = None"
proof -
  show "same_session (s_auth t) (s_auth (verdict E k err t))"
    "authenticated (s_auth (verdict E k err t)) = authenticated (s_auth t)"
    by (simp_all add: same_session_def verdict_def)
  assume key: "cache_lookup key (s_auth t) = None" "key \<noteq> (pkt_command k, pkt_sequence k)"
  show "cache_lookup key (s_auth (verdict E k err t)) = None"
  proof (cases "protected_session t (pkt_command k)")
    case True
    obtain c r where e: "s_auth (verdict E k err t) =
        cache_insert (Cached (pkt_command k, pkt_sequence k) (packet_digest E k) (c, r)) (s_auth t)" "length r \<le> 1024"
      using verdict_cached [OF True, of E err] by blast
    have "cached_ok (Cached (pkt_command k, pkt_sequence k) (packet_digest E k) (c, r))"
      using e(2) by (simp add: cached_ok_def)
    from ring.lookup_insert_other [OF assms this key(1)] key(2) e(1) show ?thesis by simp
  qed (use key in \<open>simp add: verdict_def answer_def\<close>)
qed

text \<open>An OTA request whose operation succeeds is acknowledged, and the device is ready for the next.\<close>

lemma request_acked:
  assumes "ready E ks s" "(c, q) \<in> ks" "c \<in> ota_codes" "length body \<le> max_body (s_auth s)"
    and "\<And>t p. s_ota t = s_ota s \<Longrightarrow> trace t = trace s \<Longrightarrow> ota_inv (t :: link_dev) \<Longrightarrow> length p = 1024 \<Longrightarrow>
      take (length body) p = body \<Longrightarrow>
      \<exists>t'. ota_request E c p (of_nat (length body)) t = Some (ERR_OK, t') \<and> P t'"
    and "\<And>t t' w. P t \<Longrightarrow> s_ota t' = s_ota t \<Longrightarrow> trace t' = w # trace t \<Longrightarrow> call_tx w \<noteq> None \<Longrightarrow> P t'"
  obtains fs s' where
    "run_ops (exec_event E) s (rx_events (wire (request_msg E (s_auth s) c q body))) = Some (fs, s')"
    "set fs \<subseteq> {Continues}" "ready E (ks - {(c, q)}) s'" "same_session (s_auth s) (s_auth s')"
    "P s'" "sent (trace s') = wire (ack_msg E (s_auth s) c q) # sent (trace s)"
proof -
  have rd: "link_inv E s" "s_task_handle s \<noteq> None" "pending (s_parser s) = []" using assms(1) by (auto simp: ready_def)
  have mo: "msg_ok (request_msg E (s_auth s) c q body)"
    using assms(4) by (auto simp: msg_ok_def request_msg_def max_body_def)
  obtain k p t where f: "pkt_msg k = request_msg E (s_auth s) c q body" "packet_inv k"
    "t = s\<lparr>s_parser := p, s_packet := k\<rparr>" "link_inv E t" "pending p = []"
    "run_ops (exec_event E) s (rx_events (wire (request_msg E (s_auth s) c q body))) = do {
       (f, s') \<leftarrow> commands_handle_packet E k t;
       Some (replicate (length (wire (request_msg E (s_auth s) c q body)) - 1) Continues @ [f], s') }"
    using frame_handled [OF rd mo] .
  have ts: "s_auth t = s_auth s" "s_ota t = s_ota s" "trace t = trace s" "s_packet t = k" "s_task_handle t \<noteq> None"
    using f(3) rd(2) by simp_all
  note k = request_fresh [OF assms(1,2) f(2,1) assms(4) ts(1)]
  have d: "dev_inv E t" "cmd_inv E t" "ota_inv t" "cache_inv (s_auth t)"
    using f(4) by (simp_all add: link_inv_def cmd_inv_def dev_inv_def auth_inv_def)
  have prot: "auth_command_is_protected (pkt_command k)" "pkt_command k \<notin> {cmd_code CMD_REBOOT, cmd_code CMD_ROLLBACK}"
    using assms(3) k(3) by (auto simp: ota_codes_def auth_command_is_protected_def)
  have "length (pkt_payload k) = 1024" using f(2) by (simp add: packet_inv_def)
  from assms(5) [OF ts(2,3) d(3) this k(2)] obtain t' where
    t': "ota_request E c (pkt_payload k) (of_nat (length body)) t = Some (ERR_OK, t')" "P t'"
    by blast
  have at: "s_auth t' = s_auth s" and pt: "s_write t' = s_write t"
    using ota_request_safe [OF d(1) fresh_length(2) [OF f(2) k(1)], of c] ota_request_settings [OF t'(1)] t'(1) ts(1)
    by simp_all
  let ?s' = "verdict E k ERR_OK t'"
  have h: "commands_handle_packet E k t = Some (Continues, ?s')"
    unfolding commands_protected [OF d(1) f(2) k(5) prot(1)] protected_command_def k(1)
    using prot(2) t'(1) by (simp add: fresh_request_def k(3))
  have "s_write t \<noteq> None" using f(4) ts(5) by (auto simp: link_inv_def link_running_def)
  note st = settings_link_fields [OF commands_settings [OF d(2) f(2) this h]]
  have "link_inv E ?s'" using link_inv_packet [OF f(4) ts(5)] h ts(4) by simp
  moreover have ci: "cache_inv (s_auth t')" using d(4) at ts(1) by simp
  note vs = verdict_session [OF this, where E = E and k = k and err = ERR_OK]
  have "cache_lookup key (s_auth ?s') = None" if "auth_required (s_auth s)" "key \<in> ks - {(c, q)}" for key
    using vs(3) [of key] that assms(1) at k(3,4) by (auto simp: ready_def)
  ultimately have "ready E (ks - {(c, q)}) ?s'"
    using st(2,3) ts(5) f(3,5) vs(1,2) assms(1) at by (auto simp: ready_def same_session_def)
  moreover have "same_session (s_auth s) (s_auth ?s')" using vs(1) at by simp
  moreover have "answer_payload E k (cmd_code CMD_ACK) [err_code ERR_OK] t' =
      (if auth_required (s_auth s) then [0] @ response_tag E (session_key (s_auth s)) c (cmd_code CMD_ACK) q [0] else [0])"
    using prot(1) assms(1) at k(3,4) by (simp add: answer_payload_def protected_session_def ready_def)
  then have tr: "trace ?s' = tx_call t' (wire (ack_msg E (s_auth s) c q)) # trace t'"
    using k(4) by (simp add: verdict_def ack_msg_def)
  then have "sent (trace ?s') = wire (ack_msg E (s_auth s) c q) # sent (trace s)"
    using ota_request_log(2) [OF t'(1)] ts(3) by simp
  moreover have "P ?s'" by (rule assms(6) [OF t'(2) _ tr]) simp_all
  ultimately show ?thesis
    using f(6) h
    by (intro that [where s' = ?s' and
          fs = "replicate (length (wire (request_msg E (s_auth s) c q body)) - 1) Continues @ [Continues]"])
       auto
qed

section \<open>A firmware upload\<close>

text \<open>A request as command, sequence number and body, its frame and the frame that acknowledges it.\<close>

type_synonym request_t = "u8 \<times> u16 \<times> bytes"

definition req_key :: "request_t \<Rightarrow> u8 \<times> u16" where
  "req_key r = (case r of (c, q, body) \<Rightarrow> (c, q))"

definition req_frame :: "esp_idf \<Rightarrow> auth_state_t \<Rightarrow> request_t \<Rightarrow> bytes" where
  "req_frame E a r = (case r of (c, q, body) \<Rightarrow> wire (request_msg E a c q body))"

definition ack_frame :: "esp_idf \<Rightarrow> auth_state_t \<Rightarrow> request_t \<Rightarrow> bytes" where
  "ack_frame E a r = (case r of (c, q, body) \<Rightarrow> wire (ack_msg E a c q))"

fun data_requests :: "nat \<Rightarrow> nat \<Rightarrow> u16 \<Rightarrow> bytes list \<Rightarrow> request_t list" where
  "data_requests i off q [] = []"
| "data_requests i off q (d # ds) = (cmd_code CMD_OTA_DATA, q, le32 (of_nat i) @ le32 (of_nat off) @ d) #
     data_requests (Suc i) (off + length d) (q + 1) ds"

definition upload_requests :: "u16 \<Rightarrow> bytes \<Rightarrow> bytes list \<Rightarrow> request_t list" where
  "upload_requests q digest ds =
     (cmd_code CMD_OTA_BEGIN, q, le32 (of_nat (length (concat ds))) @ digest) #
     data_requests 0 0 (q + 1) ds @ [(cmd_code CMD_OTA_END, q + 1 + of_nat (length ds), [])]"

text \<open>What an update of \<open>part\<close> with the image \<open>img\<close> needs of the service, and nothing for other images: the
  partition is offered, \<open>esp_ota_begin\<close> accepts the size while no handle is open, \<open>esp_ota_write\<close> on the
  open handle accepts the next bytes of the image after those written so far, and once exactly the
  image has been written \<open>esp_ota_end\<close> finds it valid, the partition has the digest, and the boot
  partition can be set.\<close>

definition image_accepted :: "esp_idf \<Rightarrow> esp_partition_t \<Rightarrow> bytes \<Rightarrow> bytes \<Rightarrow> bool" where
  "image_accepted E part img digest \<longleftrightarrow>
     (\<forall>cs. esp_ota_get_next_update_partition E cs = Some part) \<and>
     (\<forall>cs. open_handle cs = None \<longrightarrow> fst (esp_ota_begin E cs part (of_nat (length img))) = ESP_OK) \<and>
     (\<forall>cs h d rest. open_handle cs = Some h \<and> staged cs @ d @ rest = img \<longrightarrow> esp_ota_write E cs h d = ESP_OK) \<and>
     (\<forall>cs h. open_handle cs = Some h \<and> staged cs = img \<longrightarrow> esp_ota_end E cs h = ESP_OK \<and>
        digest_matches E (Esp_ota_end h ESP_OK # cs) part digest \<and>
        esp_ota_set_boot_partition E (Esp_ota_end h ESP_OK # cs) part = ESP_OK)"

lemma open_handle_inv: "ota_inv s \<Longrightarrow> open_handle (trace s) = (if ota_active (s_ota s) then Some (ota_handle (s_ota s)) else None)"
  by (simp add: ota_inv_def)

text \<open>An update to \<open>part\<close> with the bytes \<open>img\<close> received so far.\<close>

definition progress :: "esp_partition_t \<Rightarrow> nat \<Rightarrow> bytes \<Rightarrow> bytes \<Rightarrow> 'a ota_dev_scheme \<Rightarrow> bool" where
  "progress part n digest img s \<longleftrightarrow> ota_active (s_ota s) \<and> ota_partition (s_ota s) = Some part \<and>
     unat (firmware_size (s_ota s)) = n \<and> expected_sha256 (s_ota s) = digest \<and> staged (trace s) = img \<and>
     ota_image_inv s"

lemma progress_cong:
  "s_ota t = s_ota s \<Longrightarrow> staged (trace t) = staged (trace s) \<Longrightarrow> progress part n dg img t = progress part n dg img s"
  by (simp add: progress_def ota_image_inv_def)

lemma staged_tx: "call_tx w \<noteq> None \<Longrightarrow> staged (w # cs) = staged cs"
  by (cases w) simp_all

lemma progress_tx:
  "progress part n dg img t \<Longrightarrow> s_ota t' = s_ota t \<Longrightarrow> trace t' = w # trace t \<Longrightarrow> call_tx w \<noteq> None \<Longrightarrow>
   progress part n dg img t'"
  using progress_cong [of t' t] staged_tx [of w "trace t"] by simp

lemma begin_progress:
  assumes "image_accepted E part full dg" "\<not> ota_active (s_ota t)" "ota_inv t" "n = length full" "0 < n"
    "n \<le> unat (part_size part)" "unat (part_size part) + 1016 < 2 ^ 32" "length dg = 32" "length p = 1024"
    "take 36 p = le32 (of_nat n) @ dg"
  shows "\<exists>t'. ota_request E (cmd_code CMD_OTA_BEGIN) p 36 t = Some (ERR_OK, t') \<and> progress part n dg [] t'"
proof -
  have n: "unat (of_nat n :: u32) = n" using assms(6,7) by (simp add: unat_of_nat)
  have g: "get32 p = of_nat n" "take 32 (drop 4 p) = dg"
  proof -
    have "get32 p = get32 (take 36 p)" using get32_take [of 0 36 p] assms(9) by simp
    then show "get32 p = of_nat n" using get32_le32 [of "of_nat n" dg] assms(10) by simp
    have "take 32 (drop 4 p) = drop 4 (take 36 p)" by (simp add: drop_take)
    then show "take 32 (drop 4 p) = dg" using assms(10) by simp
  qed
  have part: "esp_ota_get_next_update_partition E (trace t) = Some part"
    using assms(1) by (simp add: image_accepted_def)
  have "fst (esp_ota_begin E (trace t) part (of_nat n)) = ESP_OK"
    using assms(1,4) open_handle_inv [OF assms(3)] assms(2) by (simp add: image_accepted_def)
  then obtain h where h: "esp_ota_begin E (trace t) part (of_nat n) = (ESP_OK, h)" by (metis prod.collapse)
  have "of_nat n \<noteq> (0 :: u32)" "\<not> part_size part < of_nat n"
    using n assms(5,6) by (auto simp: word_less_nat_alt)
  then show ?thesis
    using assms(2,5-7,9) n g part h by (auto simp: ota_request_def ota_manager_begin_eq Let_def progress_def ota_image_inv_def)
qed

lemma write_keeps_partition:
  assumes "ota_inv s" "unat len \<le> length p" "ota_manager_write_data E p len s = Some (r, t)"
  shows "ota_partition (s_ota t) = ota_partition (s_ota s)"
proof -
  have "length (last_chunk_data (s_ota s)) = 1016" using assms(1) by (simp add: ota_inv_def)
  then show ?thesis
    using assms(3) by (auto simp: ota_manager_write_data_eq [OF assms(2)] Let_def split: if_splits)
qed

lemma write_progress:
  assumes "image_accepted E part full dg" "progress part n dg img t" "ota_inv t" "d \<noteq> []" "length d + 8 \<le> 1024"
    "img @ d @ rest = full" "length p = 1024"
    "take (length d + 8) p = le32 i @ le32 (of_nat (length img)) @ d" "n = length full"
  shows "\<exists>t'. ota_request E (cmd_code CMD_OTA_DATA) p (of_nat (length d + 8)) t = Some (ERR_OK, t') \<and>
    progress part n dg (img @ d) t'"
proof -
  define len where "len = (of_nat (length d + 8) :: u16)"
  have len: "unat len = length d + 8" unfolding len_def using assms(5) by (rule unat_of_nat_u16)
  have pr: "ota_active (s_ota t)" "ota_image_inv t" "staged (trace t) = img" "unat (firmware_size (s_ota t)) = n"
    "expected_sha256 (s_ota t) = dg" "ota_partition (s_ota t) = Some part"
    using assms(2) by (simp_all add: progress_def)
  have le: "length img + length d \<le> n" using assms(6,9) by auto
  have "n + 1016 < 2 ^ 32" using pr(1,2,4) by (simp add: ota_image_inv_def)
  then have off: "unat (of_nat (length img) :: u32) = length img" using le by (simp add: unat_of_nat)
  have dp: "drop 4 (take (length d + 8) p) = le32 (of_nat (length img)) @ d" "drop 8 (take (length d + 8) p) = d"
    unfolding assms(8) by simp_all
  have "get32 (drop 4 p) = get32 (drop 4 (take (length d + 8) p))"
    using get32_take [of 4 "length d + 8" p] assms(5,7) by simp
  then have g: "unat (get32 (drop 4 p)) = length img" unfolding dp(1) using off by simp
  have c: "chunk_of p len = d" using dp(2) by (simp add: chunk_of_def len drop_take)
  have l: "8 < unat len" "unat len \<le> 1024" "unat len \<le> length p" using len assms(4,5,7) by simp_all
  have ok: "esp_ota_write E (trace t) (ota_handle (s_ota t)) d = ESP_OK"
    using assms(1,6) open_handle_inv [OF assms(3)] pr(1,3) unfolding image_accepted_def by metis
  obtain r t' where w: "ota_manager_write_data E p len t = Some (r, t')"
    "(r, update_of t') = update_write True (length img) d (update_of t)" "ota_image_inv t'"
    using ota_write_refines [OF assms(3) pr(2) l, of E] ok unfolding g c
    by (auto simp: ensures_iff)
  then have "r = ERR_OK" "update_of t' = Update n dg (img @ d) (length d)"
    using pr le by (simp_all add: update_of_def)
  moreover have "ota_partition (s_ota t') = Some part"
    using write_keeps_partition [OF assms(3) l(3) w(1)] pr(6) by simp
  ultimately show ?thesis
    using w unfolding len_def [symmetric]
    by (auto simp: ota_request_def progress_def update_of_def split: if_splits)
qed

lemma end_switches:
  assumes "image_accepted E part img dg" "progress part n dg img t" "ota_inv t" "length img = n"
  shows "\<exists>t'. ota_request E (cmd_code CMD_OTA_END) p 0 t = Some (ERR_OK, t') \<and>
    \<not> ota_active (s_ota t') \<and> (\<exists>cs. trace t' = Esp_ota_set_boot_partition part ESP_OK # cs \<and> staged cs = img)"
proof -
  have pr: "ota_active (s_ota t)" "ota_partition (s_ota t) = Some part" "staged (trace t) = img"
    "expected_sha256 (s_ota t) = dg" "bytes_received (s_ota t) = firmware_size (s_ota t)"
    using assms(2,4) by (auto simp: progress_def ota_image_inv_def word_unat_eq_iff)
  have "open_handle (trace t) = Some (ota_handle (s_ota t))" using open_handle_inv [OF assms(3)] pr(1) by simp
  then have "esp_ota_end E (trace t) (ota_handle (s_ota t)) = ESP_OK"
    "digest_matches E (Esp_ota_end (ota_handle (s_ota t)) ESP_OK # trace t) part dg"
    "esp_ota_set_boot_partition E (Esp_ota_end (ota_handle (s_ota t)) ESP_OK # trace t) part = ESP_OK"
    using assms(1) pr(3) by (simp_all add: image_accepted_def)
  then show ?thesis
    using pr by (simp add: ota_request_def ota_manager_end_eq [OF assms(3) pr(1,2,5)] Let_def)
qed

text \<open>The frames of several requests, one after the other.\<close>

definition executes :: "esp_idf \<Rightarrow> (u8 \<times> u16) set \<Rightarrow> request_t list \<Rightarrow> (link_dev \<Rightarrow> bool) \<Rightarrow> link_dev \<Rightarrow> bool" where
  "executes E ks rs P s \<longleftrightarrow> (\<exists>fs s'.
     run_ops (exec_event E) s (rx_events (concat (map (req_frame E (s_auth s)) rs))) = Some (fs, s') \<and>
     set fs \<subseteq> {Continues} \<and> ready E (ks - req_key ` set rs) s' \<and> same_session (s_auth s) (s_auth s') \<and> P s' \<and>
     sent (trace s') = rev (map (ack_frame E (s_auth s)) rs) @ sent (trace s))"

lemma executes_append:
  assumes "executes E ks rs P s"
    and "\<And>t. P t \<Longrightarrow> ready E (ks - req_key ` set rs) t \<Longrightarrow> same_session (s_auth s) (s_auth t) \<Longrightarrow>
      executes E (ks - req_key ` set rs) rs' Q t"
  shows "executes E ks (rs @ rs') Q s"
proof -
  obtain fs t where 1: "run_ops (exec_event E) s (rx_events (concat (map (req_frame E (s_auth s)) rs))) = Some (fs, t)"
    "set fs \<subseteq> {Continues}" "ready E (ks - req_key ` set rs) t" "same_session (s_auth s) (s_auth t)" "P t"
    "sent (trace t) = rev (map (ack_frame E (s_auth s)) rs) @ sent (trace s)"
    using assms(1) by (auto simp: executes_def)
  have eq: "req_frame E (s_auth t) = req_frame E (s_auth s)" "ack_frame E (s_auth t) = ack_frame E (s_auth s)"
    using same_session_msgs [OF 1(4)] by (simp_all add: req_frame_def ack_frame_def fun_eq_iff)
  obtain gs u where 2: "run_ops (exec_event E) t (rx_events (concat (map (req_frame E (s_auth s)) rs'))) = Some (gs, u)"
    "set gs \<subseteq> {Continues}" "ready E (ks - req_key ` set rs - req_key ` set rs') u" "same_session (s_auth t) (s_auth u)"
    "Q u" "sent (trace u) = rev (map (ack_frame E (s_auth s)) rs') @ sent (trace t)"
    using assms(2) [OF 1(5,3,4)] by (auto simp: executes_def eq)
  have "ks - req_key ` set (rs @ rs') = ks - req_key ` set rs - req_key ` set rs'" by auto
  then show ?thesis
    using 1 2 same_session_trans [OF 1(4) 2(4)] unfolding executes_def
    by (intro exI [of _ "fs @ gs"] exI [of _ u]) (simp add: run_ops_append)
qed

lemma executes_request:
  assumes "ready E ks s" "(c, q) \<in> ks" "c \<in> ota_codes" "length body \<le> max_body (s_auth s)"
    and "\<And>t p. s_ota t = s_ota s \<Longrightarrow> trace t = trace s \<Longrightarrow> ota_inv (t :: link_dev) \<Longrightarrow> length p = 1024 \<Longrightarrow>
      take (length body) p = body \<Longrightarrow>
      \<exists>t'. ota_request E c p (of_nat (length body)) t = Some (ERR_OK, t') \<and> P t'"
    and "\<And>t t' w. P t \<Longrightarrow> s_ota t' = s_ota t \<Longrightarrow> trace t' = w # trace t \<Longrightarrow> call_tx w \<noteq> None \<Longrightarrow> P t'"
  shows "executes E ks [(c, q, body)] P s"
proof -
  obtain fs s' where "run_ops (exec_event E) s (rx_events (wire (request_msg E (s_auth s) c q body))) = Some (fs, s')"
    "set fs \<subseteq> {Continues}" "ready E (ks - {(c, q)}) s'" "same_session (s_auth s) (s_auth s')" "P s'"
    "sent (trace s') = wire (ack_msg E (s_auth s) c q) # sent (trace s)"
    by (rule request_acked [where P = P, OF assms(1-4)]) (assumption | erule assms(5,6))+
  then show ?thesis by (auto simp: executes_def req_key_def req_frame_def ack_frame_def)
qed

lemma executes_data:
  assumes "image_accepted E part full dg" "n = length full"
  shows "ready E ks s \<Longrightarrow> progress part n dg img s \<Longrightarrow> distinct (map req_key (data_requests i (length img) q ds)) \<Longrightarrow>
    req_key ` set (data_requests i (length img) q ds) \<subseteq> ks \<Longrightarrow>
    (\<And>d. d \<in> set ds \<Longrightarrow> d \<noteq> [] \<and> length d + 8 \<le> max_body (s_auth s)) \<Longrightarrow> img @ concat ds = full \<Longrightarrow>
    executes E ks (data_requests i (length img) q ds) (progress part n dg (img @ concat ds)) s"
proof (induction ds arbitrary: ks s img i q)
  case Nil
  then show ?case by (auto simp: executes_def same_session_def)
next
  case (Cons d ds)
  let ?body = "le32 (of_nat i) @ le32 (of_nat (length img)) @ d" and ?c = "cmd_code CMD_OTA_DATA"
  let ?rs = "data_requests (Suc i) (length (img @ d)) (q + 1) ds"
  have d: "d \<noteq> []" "length d + 8 \<le> max_body (s_auth s)" "length d + 8 \<le> 1024"
    using Cons.prems(5) [of d] by (auto simp: max_body_def split: if_splits)
  have "executes E ks [(?c, q, ?body)] (progress part n dg (img @ d)) s"
  proof (rule executes_request [OF Cons.prems(1) _ _ _ _ progress_tx])
    show "(?c, q) \<in> ks" using Cons.prems(4) by (simp add: req_key_def)
    show "?c \<in> ota_codes" by (simp add: ota_codes_def)
    show "length ?body \<le> max_body (s_auth s)" using d(2) by simp
    fix t :: link_dev and p :: bytes
    assume t: "s_ota t = s_ota s" "trace t = trace s" "ota_inv t" "length p = 1024" "take (length ?body) p = ?body"
    have "progress part n dg img t" using Cons.prems(2) progress_cong [of t s] t(1,2) by simp
    moreover have "length ?body = length d + 8" by simp
    ultimately show "\<exists>t'. ota_request E ?c p (of_nat (length ?body)) t = Some (ERR_OK, t') \<and> progress part n dg (img @ d) t'"
      using write_progress [OF assms(1) _ t(3) d(1,3) _ t(4) _ assms(2), of img "concat ds"] Cons.prems(6) t(5)
      by (simp only:) simp
  qed
  moreover have "executes E (ks - req_key ` set [(?c, q, ?body)]) ?rs (progress part n dg ((img @ d) @ concat ds)) t"
    if t: "progress part n dg (img @ d) t" "ready E (ks - req_key ` set [(?c, q, ?body)]) t"
      "same_session (s_auth s) (s_auth t)" for t
  proof (rule Cons.IH [OF t(2,1)])
    show "distinct (map req_key ?rs)" "req_key ` set ?rs \<subseteq> ks - req_key ` set [(?c, q, ?body)]"
      using Cons.prems(3,4) by (auto simp: image_iff)
    show "d' \<noteq> [] \<and> length d' + 8 \<le> max_body (s_auth t)" if "d' \<in> set ds" for d'
      using Cons.prems(5) [of d'] that t(3) by (simp add: max_body_def same_session_def)
    show "(img @ d) @ concat ds = full" using Cons.prems(6) by simp
  qed
  ultimately have "executes E ks ([(?c, q, ?body)] @ ?rs) (progress part n dg ((img @ d) @ concat ds)) s"
    by (rule executes_append)
  then show ?case by simp
qed

lemma data_request_keys:
  "map req_key (data_requests i off q ds) = map (\<lambda>j. (cmd_code CMD_OTA_DATA, q + of_nat j)) [0..<length ds]"
proof (induction ds arbitrary: i off q)
  case (Cons d ds)
  have "[0..<length (d # ds)] = 0 # map Suc [0..<length ds]" by (simp add: map_Suc_upt upt_conv_Cons del: upt_Suc)
  moreover have "map req_key (data_requests (Suc i) (off + length d) (q + 1) ds) =
      map (\<lambda>j. (cmd_code CMD_OTA_DATA, q + of_nat (Suc j))) [0..<length ds]"
    unfolding Cons.IH by (simp add: add.assoc)
  moreover have "req_key (c, q', body) = (c, q')" for c q' body by (simp add: req_key_def)
  ultimately show ?case by (simp add: comp_def del: upt_Suc of_nat_Suc)
qed simp

lemma data_request_keys_distinct:
  assumes "length ds \<le> 65536"
  shows "distinct (map req_key (data_requests i off q ds))"
proof -
  have "inj_on (\<lambda>j. (cmd_code CMD_OTA_DATA, q + of_nat j)) (set [0..<length ds])"
  proof (rule inj_onI)
    fix j j' assume j: "j \<in> set [0..<length ds]" "j' \<in> set [0..<length ds]"
      and "(cmd_code CMD_OTA_DATA, q + of_nat j) = (cmd_code CMD_OTA_DATA, q + of_nat j')"
    then have "unat (of_nat j :: u16) = unat (of_nat j' :: u16)" by simp
    then show "j = j'" using j assms by (simp add: unat_of_nat)
  qed
  then show ?thesis unfolding data_request_keys by (simp add: distinct_map)
qed

definition switched :: "esp_partition_t \<Rightarrow> bytes \<Rightarrow> link_dev \<Rightarrow> bool" where
  "switched part img s \<longleftrightarrow> \<not> ota_active (s_ota s) \<and>
     (\<exists>xs cs. trace s = xs @ Esp_ota_set_boot_partition part ESP_OK # cs \<and> staged cs = img)"

lemma switched_more:
  assumes "switched part img u" "s_ota u' = s_ota u" "trace u' = w # trace u"
  shows "switched part img u'"
proof -
  obtain xs cs where "trace u = xs @ Esp_ota_set_boot_partition part ESP_OK # cs" "staged cs = img"
    using assms(1) by (auto simp: switched_def)
  then have "trace u' = (w # xs) @ Esp_ota_set_boot_partition part ESP_OK # cs \<and> staged cs = img"
    using assms(3) by simp
  then show ?thesis using assms(1,2) unfolding switched_def by metis
qed

lemma upload_executes:
  assumes "image_accepted E part (concat ds) dg" "ready E ks s" "\<not> ota_active (s_ota s)"
    "\<And>d. d \<in> set ds \<Longrightarrow> d \<noteq> [] \<and> length d + 8 \<le> max_body (s_auth s)"
    "length dg = 32" "length (concat ds) \<le> unat (part_size part)" "unat (part_size part) + 1016 < 2 ^ 32"
    "length ds \<le> 65536" "req_key ` set (upload_requests q dg ds) \<subseteq> ks" "ds \<noteq> []"
  shows "executes E ks (upload_requests q dg ds) (switched part (concat ds)) s"
proof -
  let ?img = "concat ds" and ?n = "length (concat ds)"
  let ?b = "(cmd_code CMD_OTA_BEGIN, q, le32 (of_nat ?n) @ dg)" and ?d = "data_requests 0 0 (q + 1) ds"
    and ?e = "(cmd_code CMD_OTA_END, q + 1 + of_nat (length ds), [])"
  have pos: "0 < ?n" using assms(4,10) by (cases ds) auto
  note dg = assms(5)
  have ks: "req_key ?b \<in> ks" "req_key ` set ?d \<subseteq> ks - {req_key ?b}" "req_key ?e \<in> ks - {req_key ?b} - req_key ` set ?d"
  proof -
    have "req_key ` set ?d = (\<lambda>j. (cmd_code CMD_OTA_DATA, q + 1 + of_nat j)) ` {0..<length ds}"
      using arg_cong [OF data_request_keys [of 0 0 "q + 1" ds], of set] by simp
    then show "req_key ?b \<in> ks" "req_key ` set ?d \<subseteq> ks - {req_key ?b}" "req_key ?e \<in> ks - {req_key ?b} - req_key ` set ?d"
      using assms(9) by (auto simp: upload_requests_def req_key_def)
  qed
  have 1: "executes E ks [?b] (progress part ?n dg []) s"
  proof (rule executes_request [OF assms(2) _ _ _ _ progress_tx])
    show "(cmd_code CMD_OTA_BEGIN, q) \<in> ks" using ks(1) by (simp add: req_key_def)
    show "length (le32 (of_nat ?n) @ dg) \<le> max_body (s_auth s)" using dg by (simp add: max_body_def)
    fix t :: link_dev and p :: bytes
    assume t: "s_ota t = s_ota s" "trace t = trace s" "length p = 1024" "ota_inv t"
      "take (length (le32 (of_nat ?n) @ dg)) p = le32 (of_nat ?n) @ dg"
    have "length (le32 (of_nat ?n :: u32) @ dg) = 36" using dg by simp
    then show "\<exists>t'. ota_request E (cmd_code CMD_OTA_BEGIN) p (of_nat (length (le32 (of_nat ?n :: u32) @ dg))) t =
        Some (ERR_OK, t') \<and> progress part ?n dg [] t'"
      using begin_progress [OF assms(1) _ t(4) refl pos assms(6,7) dg t(3)] assms(3) t by simp
  qed (simp add: ota_codes_def)
  have 2: "executes E (ks - req_key ` set [?b]) ?d (progress part ?n dg ?img) t"
    if t: "progress part ?n dg [] t" "ready E (ks - req_key ` set [?b]) t" "same_session (s_auth s) (s_auth t)" for t
    using executes_data [OF assms(1) refl t(2,1), of 0 "q + 1" ds] data_request_keys_distinct [OF assms(8)] ks(2)
      assms(4) t(3) by (simp add: max_body_def same_session_def)
  have 3: "executes E (ks - req_key ` set ([?b] @ ?d)) [?e] (switched part ?img) t"
    if t: "progress part ?n dg ?img t" "ready E (ks - req_key ` set ([?b] @ ?d)) t" for t
  proof (rule executes_request [OF t(2)])
    show "(cmd_code CMD_OTA_END, q + 1 + of_nat (length ds)) \<in> ks - req_key ` set ([?b] @ ?d)"
      using ks(3) by (auto simp: req_key_def)
    show "\<exists>u'. ota_request E (cmd_code CMD_OTA_END) p (of_nat (length [])) u = Some (ERR_OK, u') \<and> switched part ?img u'"
      if u: "s_ota u = s_ota t" "trace u = trace t" "ota_inv u" for u p
    proof -
      have "progress part ?n dg ?img u" using t(1) progress_cong [of u t] u by simp
      from end_switches [OF assms(1) this u(3) refl, of p] show ?thesis
        by (fastforce simp: switched_def intro: exI [of _ "[]"])
    qed
  qed (auto simp: ota_codes_def intro: switched_more)
  have "executes E ks ([?b] @ ?d) (progress part ?n dg ?img) s" using 1 2 by (rule executes_append)
  then have "executes E ks (([?b] @ ?d) @ [?e]) (switched part ?img) s" using 3 by (rule executes_append)
  then show ?thesis by (simp add: upload_requests_def)
qed

text \<open>An image of two chunks and a platform that finds only this image valid: it refuses any other at
  \<open>esp_ota_end\<close>.  The last 32 bytes of an ESP-IDF image are its digest.\<close>

definition sample_chunks :: "bytes list" where
  "sample_chunks = [replicate 20 1, replicate 20 2]"

definition image_digest :: "bytes \<Rightarrow> bytes" where
  "image_digest img = drop (length img - 32) img"

definition sample_flash :: esp_idf where
  "sample_flash = sample_idf\<lparr>
     esp_ota_end := (\<lambda>cs _. if staged cs = concat sample_chunks then ESP_OK else ESP_FAIL),
     esp_partition_get_sha256 := (\<lambda>cs _. (ESP_OK, \<lambda>i. image_digest (staged cs) ! i))\<rparr>"

definition sample_open_config :: ota_link_config_t where
  "sample_open_config = app_config sample_flash False []"

abbreviation sample_upload_requests :: "u16 \<Rightarrow> request_t list" where
  "sample_upload_requests q \<equiv> upload_requests q (image_digest (concat sample_chunks)) sample_chunks"

lemma sample_flash_ok [simp]:
  "services_available sample_flash" "config_ok sample_open_config" "\<not> bad_key sample_open_config"
  "transport_complete sample_open_config" "\<not> require_authentication sample_open_config" "partitions_fit sample_flash"
  "image_accepted sample_flash sample_partition (concat sample_chunks) (image_digest (concat sample_chunks))"
  "length (image_digest (concat sample_chunks)) = 32"
proof -
  show "services_available sample_flash" "config_ok sample_open_config" "\<not> bad_key sample_open_config"
    "transport_complete sample_open_config" "\<not> require_authentication sample_open_config" "partitions_fit sample_flash"
    by (simp_all add: services_available_def sample_flash_def sample_idf_def sample_open_config_def app_config_def
        OTA_LINK_DEFAULT_CONFIG_def config_ok_def bad_key_def transport_complete_def partitions_fit_def sample_partition_def)
  show l: "length (image_digest (concat sample_chunks)) = 32" by (simp add: image_digest_def sample_chunks_def)
  have "map ((!) (image_digest (concat sample_chunks))) [0..<32] = image_digest (concat sample_chunks)"
    using map_nth [of "image_digest (concat sample_chunks)", unfolded l] .
  then show "image_accepted sample_flash sample_partition (concat sample_chunks) (image_digest (concat sample_chunks))"
    by (simp add: image_accepted_def sample_flash_def sample_idf_def digest_matches_def)
qed

text \<open>The upload of that image to a device just started.\<close>

lemma sample_upload:
  obtains s where "device_run sample_flash [Ev_start (Some sample_open_config)] s" "s_task_handle s \<noteq> None"
    "parser_length (s_parser s) = 0" "s_ota s = zero_ota" "\<not> auth_required (s_auth s)"
    "executes sample_flash UNIV (sample_upload_requests 1) (switched sample_partition (concat sample_chunks)) s"
proof -
  obtain s where s: "device_run sample_flash [Ev_start (Some sample_open_config)] s" "s_task_handle s \<noteq> None"
    "s_parser s = zero_parser" "s_ota s = zero_ota" "\<not> auth_required (s_auth s)"
    using started [OF sample_flash_ok(1-4)] sample_flash_ok(5) by metis
  have "ready sample_flash UNIV s"
    using s device_run_inv [OF s(1)] by (simp add: ready_def)
  then have "executes sample_flash UNIV (sample_upload_requests 1) (switched sample_partition (concat sample_chunks)) s"
    by (rule upload_executes [OF sample_flash_ok(7)])
       (use s sample_flash_ok(8) in \<open>auto simp: sample_chunks_def max_body_def sample_partition_def\<close>)
  with s show ?thesis using that by simp
qed

section \<open>Properties\<close>

text \<open>C31. The command loop executes what it receives: the bytes of any well-formed frame, arriving one by one
  at an idle parser, have exactly the effect of \<open>commands_handle_packet\<close> on a packet with the
  version, command, sequence number and payload of the frame, at the last byte.\<close>

theorem frame_executed:
  assumes "device_run E evs s" "s_task_handle s \<noteq> None" "parser_length (s_parser s) = 0" "msg_ok m"
  shows "\<exists>k p. pkt_msg k = m \<and> packet_inv k \<and> parser_length p = 0 \<and>
    run_ops (exec_event E) s (map (Ev_rx 1) (wire m)) = do {
      (f, s') \<leftarrow> commands_handle_packet E k (s\<lparr>s_parser := p, s_packet := k\<rparr>);
      Some (replicate (length (wire m) - 1) Continues @ [f], s') }"
proof -
  have inv: "link_inv E s" using device_run_inv [OF assms(1)] .
  then have "pending (s_parser s) = []" using assms(3) idle_pending by (auto simp: link_inv_def)
  from frame_handled [OF inv assms(2) this assms(4)] obtain k p where
    "pkt_msg k = m" "packet_inv k" "link_inv E (s\<lparr>s_parser := p, s_packet := k\<rparr>)" "pending p = []"
    "run_ops (exec_event E) s (map (Ev_rx 1) (wire m)) = do {
      (f, s') \<leftarrow> commands_handle_packet E k (s\<lparr>s_parser := p, s_packet := k\<rparr>);
      Some (replicate (length (wire m) - 1) Continues @ [f], s') }"
    by metis
  moreover from this(3,4) have "parser_length p = 0" using idle_pending [of p] by (simp add: link_inv_def)
  ultimately show ?thesis by blast
qed

theorem frame_executed_witness:
  "\<exists>s k p. device_run sample_flash [Ev_start (Some sample_open_config)] s \<and>
    pkt_msg k = Msg 1 1 7 [] \<and> packet_inv k \<and> parser_length p = 0 \<and>
    run_ops (exec_event sample_flash) s (map (Ev_rx 1) (wire (Msg 1 1 7 []))) = do {
      (f, s') \<leftarrow> commands_handle_packet sample_flash k (s\<lparr>s_parser := p, s_packet := k\<rparr>);
      Some (replicate (length (wire (Msg 1 1 7 [])) - 1) Continues @ [f], s') }"
proof -
  obtain s where s: "device_run sample_flash [Ev_start (Some sample_open_config)] s" "s_task_handle s \<noteq> None"
    "parser_length (s_parser s) = 0" using sample_upload by metis
  have "msg_ok (Msg 1 1 7 [])" by (simp add: msg_ok_def)
  from frame_executed [OF s this] s(1) show ?thesis by blast
qed

end
