(* ===== verification/Host_Protocol.thy ===== *)
theory Host_Protocol
  imports Framing
begin

text \<open>
  \<^verbatim>\<open>src/host/protocol.py\<close>: the packets the host builds and its streaming parser.

  Python integers are \<^typ>\<open>int\<close>, byte strings are byte lists, and a raised exception is the left of a
  sum.  \<open>struct.pack\<close> with \<open><H\<close> and \<open><I\<close> is \<open>le16\<close> and \<open>le32\<close>; \<open>zlib.crc32\<close> is the CRC-32
  of the standard library.
\<close>

section \<open>Building packets\<close>

datatype py_error = PacketTooLarge | ValueError | StructError | ProtocolError | IndexError | UnicodeDecodeError
  | SystemExit

definition MAGIC :: bytes where
  "MAGIC = [0xAA, 0x55]"

definition zlib_crc32 :: "bytes \<Rightarrow> u32" where
  "zlib_crc32 data = crc32 data"

definition build_packet :: "int \<Rightarrow> int \<Rightarrow> bytes \<Rightarrow> py_error + bytes" where
  "build_packet command sequence payload =
    (if length payload > 1024 then Inl PacketTooLarge
     else if \<not> (0 \<le> sequence \<and> sequence \<le> 0xFFFF) then Inl ValueError
     else if \<not> (0 \<le> command \<and> command \<le> 0xFF) then Inl StructError
     else
       let header = MAGIC @ [1, word_of_int command] @ le16 (word_of_int sequence) @ le16 (of_nat (length payload));
           crc_input = drop 2 header @ payload
       in Inr (header @ payload @ le32 (zlib_crc32 crc_input)))"

definition build_ota_begin_payload :: "int \<Rightarrow> bytes \<Rightarrow> py_error + bytes" where
  "build_ota_begin_payload size_arg sha =
    (if \<not> (0 < size_arg \<and> size_arg \<le> 0xFFFFFFFF) then Inl ValueError
     else if length sha \<noteq> 32 then Inl ValueError
     else Inr (le32 (word_of_int size_arg) @ sha))"

definition build_ota_data_payload :: "int \<Rightarrow> int \<Rightarrow> bytes \<Rightarrow> py_error + bytes" where
  "build_ota_data_payload chunk_number offset data =
    (if \<not> (0 \<le> chunk_number \<and> chunk_number \<le> 0xFFFFFFFF) then Inl ValueError
     else if \<not> (0 \<le> offset \<and> offset \<le> 0xFFFFFFFF) then Inl ValueError
     else if length data > 1016 then Inl PacketTooLarge
     else if length data = 0 then Inl ValueError
     else Inr (le32 (word_of_int chunk_number) @ le32 (word_of_int offset) @ data))"

section \<open>The streaming parser\<close>

text \<open>\<open>bytearray.find(MAGIC)\<close>\<close>

fun find_magic :: "bytes \<Rightarrow> nat option" where
  "find_magic [] = None"
| "find_magic [a] = None"
| "find_magic (a # b # xs) = (if [a, b] = MAGIC then Some 0 else map_option Suc (find_magic (b # xs)))"

definition keep_possible_partial_magic :: "bytes \<Rightarrow> bytes" where
  "keep_possible_partial_magic buf = (if buf \<noteq> [] \<and> last buf = 0xAA then [0xAA] else [])"

lemma find_magic_bound: "find_magic buf = Some i \<Longrightarrow> i + 2 \<le> length buf"
  by (induction buf arbitrary: i rule: find_magic.induct) (auto split: if_splits)

text \<open>The loop of \<open>PacketParser.feed\<close>: the packets found and the buffer that is left.\<close>

function feed_loop :: "bytes \<Rightarrow> msg list \<times> bytes" where
  "feed_loop buf = (case find_magic buf of
     None \<Rightarrow> ([], keep_possible_partial_magic buf)
   | Some magic_index \<Rightarrow>
       let buf = drop magic_index buf in
       if length buf < 8 then ([], buf)
       else
         let version = buf ! 2; command = buf ! 3; sequence = get16 (drop 4 buf);
             n = unat (get16 (drop 6 buf)) in
         if take 2 buf \<noteq> MAGIC then feed_loop (drop 1 buf)
         else if n > 1024 then feed_loop (drop 2 buf)
         else if length buf < 8 + n + 4 then ([], buf)
         else
           let raw = take (8 + n + 4) buf;
               payload = take n (drop 8 raw);
               expected_crc = get32 (drop (8 + n) raw);
               actual_crc = zlib_crc32 (drop 2 (take (8 + n) raw));
               buf = drop (8 + n + 4) buf in
           if actual_crc \<noteq> expected_crc then feed_loop buf
           else let (packets, buf) = feed_loop buf in (Msg version command sequence payload # packets, buf))"
  by pat_completeness auto
termination
  by (relation "measure length") (auto dest: find_magic_bound)

declare feed_loop.simps [simp del]

definition parser_feed :: "bytes \<Rightarrow> bytes \<Rightarrow> msg list \<times> bytes" where
  "parser_feed buf data = feed_loop (buf @ data)"

text \<open>Several reads from the serial port.\<close>

fun feed_all :: "bytes \<Rightarrow> bytes list \<Rightarrow> msg list \<times> bytes" where
  "feed_all buf [] = ([], buf)"
| "feed_all buf (d # ds) = (let (ps, buf) = parser_feed buf d; (qs, buf) = feed_all buf ds in (ps @ qs, buf))"

section \<open>The parser, one frame at a time\<close>

text \<open>What the loop does with a buffer that starts with the magic bytes.\<close>

definition frame_len :: "bytes \<Rightarrow> nat" where
  "frame_len buf = 12 + unat (get16 (drop 6 buf))"

lemma feed_loop_None: "find_magic buf = None \<Longrightarrow> feed_loop buf = ([], keep_possible_partial_magic buf)"
  by (subst feed_loop.simps) simp

lemma find_magic_drop: "find_magic buf = Some i \<Longrightarrow> find_magic (drop i buf) = Some 0 \<and> take 2 (drop i buf) = MAGIC"
proof (induction buf arbitrary: i rule: find_magic.induct)
  case (3 a b xs)
  show ?case
  proof (cases "[a, b] = MAGIC")
    case False
    then obtain j where "find_magic (b # xs) = Some j" "i = Suc j" using 3(2) by auto
    with 3(1) [OF False] show ?thesis by simp
  qed (use 3(2) in auto)
qed auto

lemma feed_loop_drop: "find_magic buf = Some i \<Longrightarrow> feed_loop buf = feed_loop (drop i buf)"
  using find_magic_drop [of buf i]
  by (simp only: feed_loop.simps [of buf] feed_loop.simps [of "drop i buf"] option.case drop_0)

lemma find_magic_0: "take 2 buf = MAGIC \<Longrightarrow> find_magic buf = Some 0"
  by (cases buf rule: find_magic.cases) (auto simp: MAGIC_def)

lemma feed_loop_frame:
  assumes "take 2 buf = MAGIC"
  shows "feed_loop buf =
    (if length buf < 8 then ([], buf)
     else if frame_len buf > 1036 then feed_loop (drop 2 buf)
     else if length buf < frame_len buf then ([], buf)
     else if crc32 (drop 2 (take (frame_len buf - 4) buf)) \<noteq> get32 (drop (frame_len buf - 4) buf)
       then feed_loop (drop (frame_len buf) buf)
     else let (packets, rest) = feed_loop (drop (frame_len buf) buf) in
       (Msg (buf ! 2) (buf ! 3) (get16 (drop 4 buf)) (take (frame_len buf - 12) (drop 8 buf)) # packets, rest))"
proof -
  define n where "n = unat (get16 (drop 6 buf))"
  have fl: "frame_len buf = 8 + n + 4" by (simp add: frame_len_def n_def)
  have crc: "get32 (drop (8 + n) (take (8 + n + 4) buf)) = get32 (drop (8 + n) buf)" if "\<not> length buf < 8 + n + 4"
    using get32_take [of "8 + n" "8 + n + 4" buf] that by simp
  have tk: "take (8 + n) (take (8 + n + 4) buf) = take (8 + n) buf" by simp
  have pl: "take n (drop 8 (take (8 + n + 4) buf)) = take n (drop 8 buf)" by (simp add: drop_take)
  have fn: "8 + n + 4 - 4 = 8 + n" "8 + n + 4 - 12 = n" "1036 < 8 + n + 4 \<longleftrightarrow> 1024 < n" by simp_all
  show ?thesis
    unfolding fl feed_loop.simps [of buf] find_magic_0 [OF assms] option.case drop_0 Let_def n_def [symmetric] assms
      zlib_crc32_def tk pl fn
    by (simp only: crc if_cancel simp_thms if_False cong: if_cong)
qed

section \<open>Fragmentation\<close>

lemma find_magic_append: "find_magic buf = Some i \<Longrightarrow> find_magic (buf @ d) = Some i"
  by (induction buf arbitrary: i rule: find_magic.induct) (auto split: if_splits)

text \<open>Bytes without the magic pair can be dropped, except a last \<open>AA\<close>.\<close>

lemma feed_loop_skip:
  "find_magic buf = None \<Longrightarrow> feed_loop (buf @ d) = feed_loop (keep_possible_partial_magic buf @ d)"
proof (induction buf rule: find_magic.induct)
  case (3 a b xs)
  then have n: "[a, b] \<noteq> MAGIC" "find_magic (b # xs) = None" by (auto split: if_splits)
  have "feed_loop (a # b # xs @ d) = feed_loop (b # xs @ d)"
  proof (cases "find_magic (b # xs @ d)")
    case None
    then have "find_magic (a # b # xs @ d) = None" using n(1) by simp
    then show ?thesis using None by (simp add: feed_loop_None keep_possible_partial_magic_def)
  next
    case (Some i)
    then have "find_magic (a # b # xs @ d) = Some (Suc i)" using n(1) by simp
    then show ?thesis using Some by (simp only: feed_loop_drop drop_Suc_Cons)
  qed
  moreover have "keep_possible_partial_magic (a # b # xs) = keep_possible_partial_magic (b # xs)"
    by (simp add: keep_possible_partial_magic_def)
  ultimately show ?case using 3(1) [OF n] by simp
next
  case (2 a)
  show ?case
  proof (cases "a = 0xAA")
    case False
    have "feed_loop (a # d) = feed_loop d"
    proof (cases "find_magic d")
      case None
      then have "find_magic (a # d) = None" using False by (cases d) (auto simp: MAGIC_def)
      then show ?thesis using None False by (cases d) (simp_all add: feed_loop_None keep_possible_partial_magic_def)
    next
      case (Some i)
      then have "find_magic (a # d) = Some (Suc i)" using False by (cases d) (auto simp: MAGIC_def)
      then show ?thesis using Some by (simp only: feed_loop_drop drop_Suc_Cons)
    qed
    then show ?thesis using False by (simp add: keep_possible_partial_magic_def)
  qed (simp add: keep_possible_partial_magic_def)
qed (simp add: keep_possible_partial_magic_def)

lemma frame_append:
  assumes "8 \<le> length buf"
  shows "frame_len (buf @ d) = frame_len buf" "(buf @ d) ! 2 = buf ! 2" "(buf @ d) ! 3 = buf ! 3"
    "get16 (drop 4 buf @ d) = get16 (drop 4 buf)"
  using assms get16_append [of 6 buf d] get16_append [of 4 buf d] by (simp_all add: frame_len_def nth_append)

lemma feed_loop_append:
  "feed_loop (buf @ d) = (let (ps, b) = feed_loop buf; (qs, b') = feed_loop (b @ d) in (ps @ qs, b'))"
proof (induction "length buf" arbitrary: buf rule: less_induct)
  case less
  show ?case
  proof (cases "find_magic buf")
    case None
    then show ?thesis by (simp add: feed_loop_None feed_loop_skip)
  next
    case (Some i)
    define u where "u = drop i buf"
    have i: "i \<le> length buf" using find_magic_bound [OF Some] by simp
    have u: "take 2 u = MAGIC" "length u \<le> length buf" using find_magic_drop [OF Some] by (simp_all add: u_def)
    have ud: "take 2 (u @ d) = MAGIC" using u(1) by (cases u rule: find_magic.cases) (auto simp: MAGIC_def)
    have "feed_loop buf = feed_loop u" unfolding u_def by (rule feed_loop_drop [OF Some])
    moreover have "feed_loop (buf @ d) = feed_loop (u @ d)"
      using feed_loop_drop [OF find_magic_append [OF Some, of d]] i by (simp add: u_def)
    moreover have "feed_loop (u @ d) = (let (ps, b) = feed_loop u; (qs, b') = feed_loop (b @ d) in (ps @ qs, b'))"
    proof (cases "length u < 8 \<or> (frame_len u \<le> 1036 \<and> length u < frame_len u)")
      case True
      then have "feed_loop u = ([], u)" by (auto simp: feed_loop_frame [OF u(1)])
      then show ?thesis by simp
    next
      case False
      then have l: "8 \<le> length u" by simp
      have IH: "feed_loop (drop k u @ d) = (let (ps, b) = feed_loop (drop k u); (qs, b') = feed_loop (b @ d) in (ps @ qs, b'))"
        if "0 < k" for k
        using less [of "drop k u"] that l u(2) by simp
      note a = frame_append [OF l, of d]
      show ?thesis
      proof (cases "frame_len u > 1036")
        case True
        then show ?thesis
          using IH [of 2] l by (simp add: feed_loop_frame [OF u(1)] feed_loop_frame [OF ud] a(1))
      next
        case small: False
        then have fl: "frame_len u \<le> length u" "4 \<le> frame_len u" "12 \<le> frame_len u"
          using False by (auto simp: frame_len_def)
        then have "get32 (drop (frame_len u - 4) (u @ d)) = get32 (drop (frame_len u - 4) u)"
          by (intro get32_append) simp
        then show ?thesis
          using IH [of "frame_len u"] fl l small
          by (simp add: feed_loop_frame [OF u(1)] feed_loop_frame [OF ud] a split: prod.split)
      qed
    qed
    ultimately show ?thesis by simp
  qed
qed

lemma feed_loop_stable: "feed_loop buf = (ps, b) \<Longrightarrow> feed_loop b = ([], b)"
  using feed_loop_append [of buf "[]"] by (cases "feed_loop b") simp

lemma feed_all_concat: "feed_loop buf = ([], buf) \<Longrightarrow> feed_all buf ds = feed_loop (buf @ concat ds)"
proof (induction ds arbitrary: buf)
  case (Cons d ds)
  obtain ps b where 1: "feed_loop (buf @ d) = (ps, b)" by fastforce
  have "feed_all b ds = feed_loop (b @ concat ds)" using Cons.IH feed_loop_stable [OF 1] .
  then show ?case
    using feed_loop_append [of "buf @ d" "concat ds"] 1 by (simp add: parser_feed_def)
qed simp

section \<open>Frames\<close>

lemma length_MAGIC: "length MAGIC = 2"
  by (simp add: MAGIC_def)

lemma feed_wire:
  assumes "msg_ok m"
  shows "feed_loop (wire m @ r) = (let (ps, b) = feed_loop r in (m # ps, b))"
proof -
  obtain v c q p where m: "m = Msg v c q p" by (cases m)
  have p: "length p \<le> 1024" using assms by (simp add: m msg_ok_def)
  define w where "w = wire m @ r"
  have w: "w = MAGIC @ wire_body m @ le32 (crc32 (wire_body m)) @ r"
    by (simp add: w_def wire_def MAGIC_def PROTOCOL_MAGIC_0_def PROTOCOL_MAGIC_1_def)
  have "drop 6 w = le16 (of_nat (length p)) @ p @ le32 (crc32 (wire_body m)) @ r"
    by (simp add: w MAGIC_def m)
  then have fl: "frame_len w = 12 + length p"
    using p by (simp add: frame_len_def unat_of_nat_u16)
  have lb: "length (wire_body m) = 6 + length p" by (simp add: m)
  have 1: "take 2 w = MAGIC" "drop (frame_len w) w = r" "drop 2 (take (frame_len w - 4) w) = wire_body m"
    "drop (frame_len w - 4) w = le32 (crc32 (wire_body m)) @ r"
    unfolding fl using lb length_MAGIC by (simp_all add: w)
  have 2: "w ! 2 = v" "w ! 3 = c" "get16 (drop 4 w) = q" "take (frame_len w - 12) (drop 8 w) = p" "8 \<le> length w"
    unfolding fl by (simp_all add: w MAGIC_def m)
  have lw: "length w = 12 + length p + length r" using lb by (simp add: w MAGIC_def)
  have "feed_loop w = (let (ps, b) = feed_loop r in (m # ps, b))"
    unfolding feed_loop_frame [OF 1(1)] 1(2-4) 2 using p lw fl by (simp add: m)
  then show ?thesis by (simp add: w_def)
qed

lemma find_magic_no_magic: "find_magic xs = None \<longleftrightarrow> no_magic xs"
  by (induction xs rule: find_magic.induct) (auto simp: MAGIC_def PROTOCOL_MAGIC_0_def PROTOCOL_MAGIC_1_def)

lemma feed_noise_wire:
  assumes "no_magic x" "msg_ok m"
  shows "feed_loop (x @ wire m @ r) = (let (ps, b) = feed_loop r in (m # ps, b))"
proof -
  have f: "find_magic x = None" using assms(1) by (simp add: find_magic_no_magic)
  obtain w where w: "wire m = 0xAA # 0x55 # w"
    by (simp add: wire_def PROTOCOL_MAGIC_0_def PROTOCOL_MAGIC_1_def)
  have "feed_loop (0xAA # wire m @ r) = feed_loop (wire m @ r)"
  proof -
    have "find_magic (0xAA # wire m @ r) = Some 1" by (simp add: w MAGIC_def)
    from feed_loop_drop [OF this] show ?thesis by simp
  qed
  then have "feed_loop (x @ wire m @ r) = feed_loop (wire m @ r)"
    using feed_loop_skip [OF f, of "wire m @ r"] by (auto simp: keep_possible_partial_magic_def split: if_splits)
  then show ?thesis by (simp add: feed_wire [OF assms(2)])
qed

lemma feed_frames:
  assumes "\<And>x m. (x, m) \<in> set fs \<Longrightarrow> no_magic x \<and> msg_ok m"
  shows "feed_loop (concat (map (\<lambda>(x, m). x @ wire m) fs)) = (map snd fs, [])"
  using assms
proof (induction fs)
  case Nil
  show ?case by (simp add: feed_loop_None keep_possible_partial_magic_def)
next
  case (Cons f fs)
  obtain x m where f: "f = (x, m)" by fastforce
  have "no_magic x" "msg_ok m" using Cons.prems [of x m] by (simp_all add: f)
  moreover have "feed_loop (concat (map (\<lambda>(x, m). x @ wire m) fs)) = (map snd fs, [])"
    by (rule Cons.IH, rule Cons.prems) (rule list.set_intros(2))
  ultimately show ?case by (simp add: f feed_noise_wire)
qed

lemma feed_loop_invariant:
  "feed_loop buf = (ps, b) \<Longrightarrow> list_all msg_ok ps \<and> length b < 1036 \<and> (b = [] \<or> b = [0xAA] \<or> take 2 b = MAGIC)"
proof (induction "length buf" arbitrary: buf ps b rule: less_induct)
  case less
  show ?case
  proof (cases "find_magic buf")
    case None
    then show ?thesis using less.prems by (auto simp: feed_loop_None keep_possible_partial_magic_def split: if_splits)
  next
    case (Some i)
    define u where "u = drop i buf"
    have u: "take 2 u = MAGIC" "length u \<le> length buf" using find_magic_drop [OF Some] by (simp_all add: u_def)
    have fu: "feed_loop u = (ps, b)" using less.prems feed_loop_drop [OF Some] by (simp add: u_def)
    have IH: "feed_loop (drop k u) = (ps', b') \<Longrightarrow>
        list_all msg_ok ps' \<and> length b' < 1036 \<and> (b' = [] \<or> b' = [0xAA] \<or> take 2 b' = MAGIC)"
      if "0 < k" "8 \<le> length u" for k ps' b'
      using less.hyps [of "drop k u"] that u(2) by simp
    have fl: "0 < frame_len u" by (simp add: frame_len_def)
    show ?thesis
      using fu u(1) IH [of 2 ps b] IH [OF fl]
      by (auto simp: feed_loop_frame [OF u(1)] msg_ok_def split: if_splits prod.splits)
  qed
qed

lemma build_packet_wire:
  assumes "0 \<le> c" "c \<le> 0xFF" "0 \<le> q" "q \<le> 0xFFFF" "length p \<le> 1024"
  shows "build_packet c q p = Inr (wire (Msg PROTOCOL_VERSION (word_of_int c) (word_of_int q) p))"
  using assms
  by (simp add: build_packet_def wire_def MAGIC_def zlib_crc32_def PROTOCOL_MAGIC_0_def PROTOCOL_MAGIC_1_def
      PROTOCOL_VERSION_def)

section \<open>Properties\<close>

text \<open>C34. Fragmentation does not matter: whatever the pieces in which the serial port returns a byte
  stream, \<open>PacketParser.feed\<close> delivers the same packets and ends with the same buffer as if all bytes
  had come at once.\<close>

theorem host_parser_fragmentation: "feed_all [] ds = parser_feed [] (concat ds)"
proof -
  have "feed_loop [] = ([], [])" by (simp add: feed_loop_None keep_possible_partial_magic_def)
  then show ?thesis by (simp add: feed_all_concat parser_feed_def)
qed

text \<open>C35. The host decodes the device: any sequence of device frames, each preceded by noise without the
  magic pair and received in any pieces, gives exactly the framed messages in order and an empty
  buffer.\<close>

theorem host_parser_decodes:
  assumes "\<And>x m. (x, m) \<in> set fs \<Longrightarrow> no_magic x \<and> msg_ok m" "concat ds = concat (map (\<lambda>(x, m). x @ wire m) fs)"
  shows "feed_all [] ds = (map snd fs, [])"
proof -
  have "feed_loop [] = ([], [])" by (simp add: feed_loop_None keep_possible_partial_magic_def)
  then show ?thesis using feed_frames [OF assms(1)] by (simp add: feed_all_concat assms(2))
qed

theorem host_parser_decodes_witness:
  "feed_all [] [[0x41, 0xAA], wire (Msg 1 0xF0 7 [0])] = (map snd [([0x41, 0xAA] :: bytes, Msg 1 0xF0 7 [0])], [])"
  by (rule host_parser_decodes) (auto simp: msg_ok_def PROTOCOL_MAGIC_0_def)

text \<open>C36. The parser object stays well formed: whatever bytes arrive, every packet delivered has a payload of
  at most 1024 bytes, the buffer keeps fewer than 1036 bytes, and it is empty, a lone first magic byte
  or starts with the magic pair.\<close>

theorem host_parser_invariant:
  "case parser_feed buf data of (packets, b) \<Rightarrow> list_all msg_ok packets \<and> length b < 1036 \<and>
     (b = [] \<or> b = [0xAA] \<or> take 2 b = MAGIC)"
  by (cases "feed_loop (buf @ data)") (auto simp: parser_feed_def dest: feed_loop_invariant)

text \<open>C37. What the host builds, the device receives: \<open>build_packet\<close> raises exactly when an argument does not
  fit its field, and otherwise returns bytes that an idle device parser decodes to one packet with
  the given command, sequence number and payload.\<close>

theorem host_packet_roundtrip:
  assumes "parser_inv p" "packet_inv k" "parser_length p = 0"
  shows "case build_packet c q payload of
      Inl e \<Rightarrow> \<not> (0 \<le> c \<and> c \<le> 0xFF \<and> 0 \<le> q \<and> q \<le> 0xFFFF \<and> length payload \<le> 1024)
    | Inr bs \<Rightarrow> 0 \<le> c \<and> c \<le> 0xFF \<and> 0 \<le> q \<and> q \<le> 0xFFFF \<and> length payload \<le> 1024 \<and>
        (\<exists>p' k'. feed_run p k bs =
           Some ([Msg PROTOCOL_VERSION (word_of_int c) (word_of_int q) payload], p', k') \<and> parser_length p' = 0)"
proof (cases "0 \<le> c \<and> c \<le> 0xFF \<and> 0 \<le> q \<and> q \<le> 0xFFFF \<and> length payload \<le> 1024")
  case True
  let ?m = "Msg PROTOCOL_VERSION (word_of_int c) (word_of_int q) payload"
  obtain ms p' k' where f: "feed_run p k (wire ?m) = Some (ms, p', k')" "parser_inv p'"
    "run_machine parse_step (pending p) (wire ?m) = (pending p', ms)"
    using feed_run_refines [OF assms(1,2)] by blast
  moreover have "run_machine parse_step [] (wire ?m) = ([], [?m])"
    using True by (intro wire_decode) (simp add: msg_ok_def)
  ultimately show ?thesis
    using True assms(3) idle_pending [OF assms(1)] idle_pending [OF f(2)] build_packet_wire [of c q payload] by auto
qed (auto simp: build_packet_def Let_def split: if_splits)

theorem host_packet_roundtrip_witness:
  "case build_packet 0x10 65535 [1, 2] of
      Inl e \<Rightarrow> \<not> (0 \<le> (0x10 :: int) \<and> (0x10 :: int) \<le> 0xFF \<and> 0 \<le> (65535 :: int) \<and> (65535 :: int) \<le> 0xFFFF \<and>
        length [1, 2 :: u8] \<le> 1024)
    | Inr bs \<Rightarrow> 0 \<le> (0x10 :: int) \<and> (0x10 :: int) \<le> 0xFF \<and> 0 \<le> (65535 :: int) \<and> (65535 :: int) \<le> 0xFFFF \<and>
        length [1, 2 :: u8] \<le> 1024 \<and>
        (\<exists>p' k'. feed_run zero_parser zero_packet bs =
           Some ([Msg PROTOCOL_VERSION (word_of_int 0x10) (word_of_int 65535) [1, 2]], p', k') \<and> parser_length p' = 0)"
  using host_packet_roundtrip [of zero_parser zero_packet "0x10" "65535" "[1, 2]"] by simp

end
