(* ===== verification/Host_Info.thy ===== *)
theory Host_Info
  imports Host_Protocol Device_Info
begin

text \<open>
  \<open>read_u8_string\<close> and \<open>parse_info_payload\<close> of \<^verbatim>\<open>src/host/protocol.py\<close>, against the payload that
  \<^verbatim>\<open>device_info.c\<close> builds.  A Python string is the list of its code points; \<open>bytes.decode\<close> is strict
  UTF-8; a \<open>try\<close> that catches \<open>ProtocolError\<close> is a case distinction on the exception.
\<close>

section \<open>Strings\<close>

type_synonym py_str = "nat list"

definition cont_byte :: "u8 \<Rightarrow> bool" where
  "cont_byte b \<longleftrightarrow> 0x80 \<le> b \<and> b \<le> 0xBF"

definition cont_bits :: "u8 \<Rightarrow> nat" where
  "cont_bits b = unat b - 0x80"

text \<open>\<open>data.decode("utf-8")\<close>: no overlong forms, no surrogates, at most U+10FFFF.\<close>

fun decode_utf8 :: "bytes \<Rightarrow> py_str option" where
  "decode_utf8 [] = Some []"
| "decode_utf8 (a # xs) =
    (if a < 0x80 then map_option (Cons (unat a)) (decode_utf8 xs)
     else if 0xC2 \<le> a \<and> a \<le> 0xDF then (case xs of
         b # xs' \<Rightarrow> if cont_byte b
           then map_option (Cons ((unat a - 0xC0) * 64 + cont_bits b)) (decode_utf8 xs') else None
       | _ \<Rightarrow> None)
     else if 0xE0 \<le> a \<and> a \<le> 0xEF then (case xs of
         b # c # xs' \<Rightarrow> if cont_byte b \<and> cont_byte c \<and> (a = 0xE0 \<longrightarrow> 0xA0 \<le> b) \<and> (a = 0xED \<longrightarrow> b \<le> 0x9F)
           then map_option (Cons ((unat a - 0xE0) * 4096 + cont_bits b * 64 + cont_bits c)) (decode_utf8 xs') else None
       | _ \<Rightarrow> None)
     else if 0xF0 \<le> a \<and> a \<le> 0xF4 then (case xs of
         b # c # d # xs' \<Rightarrow> if cont_byte b \<and> cont_byte c \<and> cont_byte d \<and> (a = 0xF0 \<longrightarrow> 0x90 \<le> b) \<and>
             (a = 0xF4 \<longrightarrow> b \<le> 0x8F)
           then map_option (Cons ((unat a - 0xF0) * 262144 + cont_bits b * 4096 + cont_bits c * 64 + cont_bits d))
             (decode_utf8 xs') else None
       | _ \<Rightarrow> None)
     else None)"

definition read_u8_string :: "bytes \<Rightarrow> nat \<Rightarrow> py_error + (py_str \<times> nat)" where
  "read_u8_string data off =
    (if off \<ge> length data then Inl ProtocolError
     else
       let n = unat (data ! off); off = off + 1; stop = off + n in
       if stop > length data then Inl ProtocolError
       else case decode_utf8 (take n (drop off data)) of
           None \<Rightarrow> Inl UnicodeDecodeError
         | Some v \<Rightarrow> Inr (v, stop))"

section \<open>The information payload\<close>

definition py_bind :: "py_error + 'a \<Rightarrow> ('a \<Rightarrow> py_error + 'b) \<Rightarrow> py_error + 'b" where
  "py_bind m f = (case m of Inl e \<Rightarrow> Inl e | Inr x \<Rightarrow> f x)"

text \<open>The loop over the slots; a slot is the dictionary of its label and its state.\<close>

record slot =
  slot_label :: py_str
  slot_state :: py_str

fun read_slots :: "nat \<Rightarrow> bytes \<Rightarrow> nat \<Rightarrow> py_error + (slot list \<times> nat)" where
  "read_slots 0 data off = Inr ([], off)"
| "read_slots (Suc n) data off =
     py_bind (read_u8_string data off) (\<lambda>(label, off).
     py_bind (read_u8_string data off) (\<lambda>(state, off).
     py_bind (read_slots n data off) (\<lambda>(rest, off).
       Inr (\<lparr>slot_label = label, slot_state = state\<rparr> # rest, off))))"

text \<open>The variables set by either layout, by their names, and the dictionary that is returned.\<close>

record info_names =
  rollback_possible :: bool
  chip_model :: py_str
  running_partition :: py_str
  boot_partition :: py_str
  ota_state :: py_str
  idf_version :: py_str
  project_name :: py_str
  build_date :: py_str
  ota_slot_list :: "slot list"

record info = info_names +
  protocol_version :: u8
  firmware :: py_str
  uptime_seconds :: u32
  free_heap :: u32
  boot_count :: u32

text \<open>The format string of the version.\<close>

definition firmware_text :: "u8 \<Rightarrow> u8 \<Rightarrow> u8 \<Rightarrow> py_str" where
  "firmware_text a b c = map unat (decimal (unat a) @ [0x2E] @ decimal (unat b) @ [0x2E] @ decimal (unat c))"

definition parse_current :: "bytes \<Rightarrow> py_error + info_names" where
  "parse_current payload =
    (if 16 \<ge> length payload then Inl IndexError
     else
       let rollback = (payload ! 16 \<noteq> 0) in
       py_bind (read_u8_string payload 17) (\<lambda>(chip, off).
       py_bind (read_u8_string payload off) (\<lambda>(running, off).
       py_bind (read_u8_string payload off) (\<lambda>(boot, off).
       py_bind (read_u8_string payload off) (\<lambda>(state, off).
       py_bind (read_u8_string payload off) (\<lambda>(idf, off).
       py_bind (read_u8_string payload off) (\<lambda>(project, off).
       py_bind (read_u8_string payload off) (\<lambda>(date, off).
       py_bind (if off < length payload
                then py_bind (read_slots (unat (payload ! off)) payload (off + 1)) (\<lambda>(slots, off). Inr slots)
                else Inr [])
         (\<lambda>slots. Inr \<lparr>rollback_possible = rollback, chip_model = chip, running_partition = running,
            boot_partition = boot, ota_state = state, idf_version = idf, project_name = project,
            build_date = date, ota_slot_list = slots\<rparr>)))))))))"

text \<open>The layout of older firmware, without the rollback byte, boot partition, state and slots.\<close>

definition parse_legacy :: "bytes \<Rightarrow> py_error + info_names" where
  "parse_legacy payload =
     py_bind (read_u8_string payload 16) (\<lambda>(chip, off).
     py_bind (read_u8_string payload off) (\<lambda>(running, off).
     py_bind (read_u8_string payload off) (\<lambda>(idf, off).
     py_bind (read_u8_string payload off) (\<lambda>(project, off).
     py_bind (read_u8_string payload off) (\<lambda>(date, off).
       Inr \<lparr>rollback_possible = False, chip_model = chip, running_partition = running,
         boot_partition = running, ota_state = map unat (c_string ''UNKNOWN''), idf_version = idf,
         project_name = project, build_date = date, ota_slot_list = []\<rparr>)))))"

definition parse_info_payload :: "bytes \<Rightarrow> py_error + info" where
  "parse_info_payload payload =
    (if length payload < 16 then Inl ProtocolError
     else
       py_bind (case parse_current payload of Inl ProtocolError \<Rightarrow> parse_legacy payload | r \<Rightarrow> r)
         (\<lambda>names. Inr (info_names.extend names
           (info.fields (payload ! 0) (firmware_text (payload ! 1) (payload ! 2) (payload ! 3))
             (get32 (drop 4 payload)) (get32 (drop 8 payload)) (get32 (drop 12 payload))))))"

section \<open>Lemmas\<close>

lemma py_bind_simps [simp]: "py_bind (Inr x) f = f x" "py_bind (Inl e) f = Inl e"
  by (simp_all add: py_bind_def)

lemma py_bind_if: "py_bind (if P then Inr x else Inl e) f = (if P then f x else Inl e)"
  by simp

lemma if_both: "(if P then if Q then x else y else y) = (if P \<and> Q then x else y)"
  by simp

lemma length_str8 [simp]: "length (str8 v) = length v + 1"
  by (simp add: str8_def)

text \<open>The text of a byte string, and reading it behind its length byte.\<close>

definition text_of :: "bytes \<Rightarrow> py_str" where
  "text_of v = (case decode_utf8 v of None \<Rightarrow> [] | Some t \<Rightarrow> t)"

abbreviation valid_utf8 :: "bytes \<Rightarrow> bool" where
  "valid_utf8 v \<equiv> decode_utf8 v \<noteq> None"

lemma read_str8:
  assumes "data = xs @ str8 v @ ys" "off = length xs" "length v \<le> 255"
  shows "read_u8_string data off =
    (if valid_utf8 v then Inr (text_of v, length (xs @ str8 v)) else Inl UnicodeDecodeError)"
proof -
  have "unat (of_nat (length v) :: u8) = length v" using assms(3) by (simp add: unat_of_nat)
  then show ?thesis by (auto simp: assms(1,2) read_u8_string_def str8_def Let_def text_of_def)
qed

definition slot_of :: "esp_idf \<Rightarrow> call list \<Rightarrow> esp_partition_t \<Rightarrow> slot" where
  "slot_of E cs p = \<lparr>slot_label = text_of (part_label p),
     slot_state = text_of (ota_state_name (image_state E cs (Some p)))\<rparr>"

lemma read_slots_strs8:
  "\<forall>v\<in>set (slot_strings E cs ps). length v \<le> 255 \<Longrightarrow>
   read_slots (length ps) (xs @ strs8 (slot_strings E cs ps)) (length xs) =
     (if \<forall>v\<in>set (slot_strings E cs ps). valid_utf8 v
      then Inr (map (slot_of E cs) ps, length (xs @ strs8 (slot_strings E cs ps))) else Inl UnicodeDecodeError)"
proof (induction ps arbitrary: xs)
  case (Cons p ps)
  let ?l = "part_label p" and ?s = "ota_state_name (image_state E cs (Some p))"
  let ?data = "xs @ strs8 (slot_strings E cs (p # ps))" and ?ys = "xs @ str8 ?l @ str8 ?s"
  have l: "length ?l \<le> 255" "length ?s \<le> 255" using Cons.prems by simp_all
  have eq: "?data = ?ys @ strs8 (slot_strings E cs ps)" by simp
  have r1: "read_u8_string ?data (length xs) =
      (if valid_utf8 ?l then Inr (text_of ?l, length (xs @ str8 ?l)) else Inl UnicodeDecodeError)"
    by (rule read_str8 [where ys = "str8 ?s @ strs8 (slot_strings E cs ps)"]) (use l in simp_all)
  have r2: "read_u8_string ?data (length (xs @ str8 ?l)) =
      (if valid_utf8 ?s then Inr (text_of ?s, length ((xs @ str8 ?l) @ str8 ?s)) else Inl UnicodeDecodeError)"
    by (rule read_str8 [where ys = "strs8 (slot_strings E cs ps)"]) (use l in simp_all)
  have "length ((xs @ str8 ?l) @ str8 ?s) = length ?ys" by simp
  note r2 = r2 [unfolded this]
  have r3: "read_slots (length ps) ?data (length ?ys) =
      (if \<forall>v\<in>set (slot_strings E cs ps). valid_utf8 v
       then Inr (map (slot_of E cs) ps, length ?data) else Inl UnicodeDecodeError)"
    using Cons.IH [of ?ys] Cons.prems unfolding eq by simp
  have "(\<forall>v\<in>set (slot_strings E cs (p # ps)). valid_utf8 v) \<longleftrightarrow>
      valid_utf8 ?l \<and> valid_utf8 ?s \<and> (\<forall>v\<in>set (slot_strings E cs ps). valid_utf8 v)" by simp
  then show ?case using r1 r2 r3 by (simp del: length_append strs8_simps append.simps slot_strings_simps add: slot_of_def)
qed simp

text \<open>The strings of the device, by name, each written from the service it comes from.\<close>

definition part_name :: "esp_partition_t option \<Rightarrow> bytes" where
  "part_name p = (case p of None \<Rightarrow> c_string ''unknown'' | Some p \<Rightarrow> part_label p)"

definition desc_text :: "esp_idf \<Rightarrow> (esp_app_desc_t \<Rightarrow> bytes) \<Rightarrow> string \<Rightarrow> bytes" where
  "desc_text E f d = (case esp_app_get_description E of None \<Rightarrow> c_string d | Some x \<Rightarrow> f x)"

definition running_state :: "esp_idf \<Rightarrow> call list \<Rightarrow> bytes" where
  "running_state E cs = ota_state_name (case esp_ota_get_running_partition E cs of
     None \<Rightarrow> ESP_OTA_IMG_UNDEFINED | Some p \<Rightarrow> image_state E cs (Some p))"

lemma info_strings_named:
  "info_strings E cs = [chip_model_name (esp_chip_model E), part_name (esp_ota_get_running_partition E cs),
     part_name (esp_ota_get_boot_partition E cs), running_state E cs, desc_text E desc_idf_ver ''unknown'',
     desc_text E desc_project_name ''esp32_ota_link'', desc_text E desc_date ''unknown'']"
  by (auto simp: info_strings_def part_name_def desc_text_def running_state_def Let_def split: option.split)

text \<open>What the device knows, as the dictionary the host should report.\<close>

definition device_names :: "esp_idf \<Rightarrow> call list \<Rightarrow> info_names" where
  "device_names E cs =
     \<lparr>rollback_possible = esp_ota_check_rollback_is_possible E cs,
      chip_model = text_of (chip_model_name (esp_chip_model E)),
      running_partition = text_of (part_name (esp_ota_get_running_partition E cs)),
      boot_partition = text_of (part_name (esp_ota_get_boot_partition E cs)),
      ota_state = text_of (running_state E cs),
      idf_version = text_of (desc_text E desc_idf_ver ''unknown''),
      project_name = text_of (desc_text E desc_project_name ''esp32_ota_link''),
      build_date = text_of (desc_text E desc_date ''unknown''),
      ota_slot_list = map (slot_of E cs) (ota_slots E cs)\<rparr>"

definition device_facts :: "esp_idf \<Rightarrow> 'a info_dev_scheme \<Rightarrow> info" where
  "device_facts E s =
    (let (a, b, c) = parse_app_version (map_option desc_version (esp_app_get_description E)) in
     info_names.extend (device_names E (trace s))
       \<lparr>protocol_version = PROTOCOL_VERSION, firmware = firmware_text a b c,
        uptime_seconds = ucast (esp_timer_get_time E (trace s) div 1000000),
        free_heap = heap_caps_get_free_size E (trace s), boot_count = s_boot_count s\<rparr>)"

definition info_texts :: "esp_idf \<Rightarrow> call list \<Rightarrow> bytes list" where
  "info_texts E cs = info_strings E cs @ slot_strings E cs (ota_slots E cs)"

text \<open>The positions of the strings behind the fixed part, and reading each of them.\<close>

definition str_pos :: "bytes \<Rightarrow> bytes list \<Rightarrow> nat \<Rightarrow> nat" where
  "str_pos f vs k = length f + length (strs8 (take k vs))"

lemma read_nth_str8:
  assumes "k < length vs" "length (vs ! k) \<le> 255"
  shows "read_u8_string (f @ strs8 vs @ rest) (str_pos f vs k) =
    (if valid_utf8 (vs ! k) then Inr (text_of (vs ! k), str_pos f vs (Suc k)) else Inl UnicodeDecodeError)"
proof -
  have "vs = take k vs @ vs ! k # drop (Suc k) vs" using assms(1) by (rule id_take_nth_drop)
  then have "strs8 vs = strs8 (take k vs) @ str8 (vs ! k) @ strs8 (drop (Suc k) vs)"
    by (metis strs8_simps append_assoc)
  moreover have "strs8 (take (Suc k) vs) = strs8 (take k vs) @ str8 (vs ! k)"
    using assms(1) by (simp add: take_Suc_conv_app_nth)
  ultimately show ?thesis
    using read_str8 [of "f @ strs8 vs @ rest" "f @ strs8 (take k vs)" "vs ! k" "strs8 (drop (Suc k) vs) @ rest"
        "str_pos f vs k"] assms(2)
    by (simp add: str_pos_def)
qed

lemma parse_current_layout:
  assumes "length f = 17" "f ! 16 = (if esp_ota_check_rollback_is_possible E cs then 1 else 0)"
    "\<forall>v\<in>set (info_texts E cs). length v \<le> 255" "length (ota_slots E cs) \<le> 255"
  shows "parse_current (f @ strs8 (info_strings E cs) @ of_nat (length (ota_slots E cs)) #
      strs8 (slot_strings E cs (ota_slots E cs))) =
    (if \<forall>v\<in>set (info_texts E cs). valid_utf8 v then Inr (device_names E cs) else Inl UnicodeDecodeError)"
proof -
  define vs os n where "vs = info_strings E cs" and "os = ota_slots E cs" and "n = (of_nat (length os) :: u8)"
  let ?ws = "strs8 (slot_strings E cs os)"
  define data where "data = f @ strs8 vs @ n # ?ws"
  have lv: "length vs = 7" by (simp add: vs_def info_strings_named)
  have len: "\<forall>v\<in>set vs. length v \<le> 255" "\<forall>v\<in>set (slot_strings E cs os). length v \<le> 255"
    using assms(3) by (auto simp: info_texts_def vs_def os_def)
  have r: "read_u8_string data (str_pos f vs k) =
      (if valid_utf8 (vs ! k) then Inr (text_of (vs ! k), str_pos f vs k') else Inl UnicodeDecodeError)"
    if "k < 7" "k' = k + 1" for k k'
    unfolding data_def using that lv len(1) read_nth_str8 [of k vs f] by simp
  have at: "str_pos f vs 0 = 17" "str_pos f vs 7 < length data" "data ! str_pos f vs 7 = n" "unat n = length os"
    using assms(1,4) lv nth_append_length [of "f @ strs8 vs" n ?ws]
    by (simp_all add: str_pos_def data_def n_def os_def unat_of_nat)
  have "read_slots (length os) data (str_pos f vs 7 + 1) =
      (if \<forall>v\<in>set (slot_strings E cs os). valid_utf8 v then Inr (map (slot_of E cs) os, length data)
       else Inl UnicodeDecodeError)"
    using read_slots_strs8 [OF len(2), of "f @ strs8 vs @ [n]"] lv by (simp add: data_def str_pos_def)
  note slots = this [folded at(4)]
  have rb: "data ! 16 = (if esp_ota_check_rollback_is_possible E cs then 1 else 0)" "16 < length data"
    using assms(1,2) by (simp_all add: data_def nth_append)
  have nth: "vs ! 0 = chip_model_name (esp_chip_model E)" "vs ! 1 = part_name (esp_ota_get_running_partition E cs)"
    "vs ! 2 = part_name (esp_ota_get_boot_partition E cs)" "vs ! 3 = running_state E cs"
    "vs ! 4 = desc_text E desc_idf_ver ''unknown''" "vs ! 5 = desc_text E desc_project_name ''esp32_ota_link''"
    "vs ! 6 = desc_text E desc_date ''unknown''"
    by (simp_all add: vs_def info_strings_named eval_nat_numeral)
  have all: "(\<forall>v\<in>set (info_texts E cs). valid_utf8 v) \<longleftrightarrow> valid_utf8 (vs ! 0) \<and> valid_utf8 (vs ! 1) \<and> valid_utf8 (vs ! 2) \<and>
      valid_utf8 (vs ! 3) \<and> valid_utf8 (vs ! 4) \<and> valid_utf8 (vs ! 5) \<and> valid_utf8 (vs ! 6) \<and>
      (\<forall>v\<in>set (slot_strings E cs os). valid_utf8 v)"
    unfolding nth by (auto simp: info_texts_def info_strings_named os_def)
  let ?R = "\<lambda>k k'. read_u8_string data (str_pos f vs k) =
    (if valid_utf8 (vs ! k) then Inr (text_of (vs ! k), str_pos f vs k') else Inl UnicodeDecodeError)"
  have rs: "?R 0 1" "?R 1 2" "?R 2 3" "?R 3 4" "?R 4 5" "?R 5 6" "?R 6 7"
    by (rule r; simp)+
  have last: "(if str_pos f vs 7 < length data then py_bind (read_slots (unat (data ! str_pos f vs 7)) data (str_pos f vs 7 + 1))
        (\<lambda>(slots, off). Inr slots) else Inr []) =
      (if \<forall>v\<in>set (slot_strings E cs os). valid_utf8 v then Inr (map (slot_of E cs) os) else Inl UnicodeDecodeError)"
    using at(2,3) slots by (simp add: py_bind_if)
  have "parse_current data = (if \<forall>v\<in>set (info_texts E cs). valid_utf8 v then Inr (device_names E cs) else Inl UnicodeDecodeError)"
    unfolding parse_current_def all
    using rb
    by (simp only: at(1) [symmetric] rs
        py_bind_if prod.case last if_both conj_assoc Let_def) (simp add: device_names_def nth nth(2) [unfolded One_nat_def] os_def)
  then show ?thesis by (simp add: data_def vs_def os_def n_def)
qed

lemma parse_layout:
  assumes "info_fits E s cap"
  shows "parse_info_payload (info_layout E s) =
    (if \<forall>v\<in>set (info_texts E (trace s)). valid_utf8 v then Inr (device_facts E s) else Inl UnicodeDecodeError)"
proof -
  define cs f where "cs = trace s" and "f = info_fixed E s"
  obtain a b c where v: "parse_app_version (map_option desc_version (esp_app_get_description E)) = (a, b, c)"
    by (metis prod_cases3)
  let ?w = "info_layout E s" and ?n = "of_nat (length (ota_slots E cs)) :: u8"
  have w: "?w = f @ strs8 (info_strings E cs) @ ?n # strs8 (slot_strings E cs (ota_slots E cs))"
    by (simp add: info_layout_def f_def cs_def)
  have lf: "length f = 17" by (simp add: f_def length_info_fixed)
  have fields: "?w ! 0 = PROTOCOL_VERSION" "?w ! 1 = a" "?w ! 2 = b" "?w ! 3 = c"
    "f ! 16 = (if esp_ota_check_rollback_is_possible E cs then 1 else 0)"
    "get32 (drop 4 ?w) = ucast (esp_timer_get_time E cs div 1000000)"
    "get32 (drop 8 ?w) = heap_caps_get_free_size E cs" "get32 (drop 12 ?w) = s_boot_count s"
    unfolding w f_def info_fixed_def v cs_def by (simp_all add: nth_append get32_le32 del: get32_def)
  have "parse_current ?w =
      (if \<forall>v\<in>set (info_texts E cs). valid_utf8 v then Inr (device_names E cs) else Inl UnicodeDecodeError)"
    unfolding w using parse_current_layout [OF lf fields(5)] assms by (simp add: info_fits_def info_texts_def cs_def)
  moreover have "\<not> length ?w < 16" using lf by (simp add: w)
  ultimately show ?thesis
    using fields v by (simp add: parse_info_payload_def device_facts_def info.defs info_names.defs cs_def)
qed

text \<open>A payload of exactly 16 bytes passes the length check and then fails with an \<open>IndexError\<close>, which the
  fallback for older firmware does not catch.\<close>

lemma sixteen_byte_payload: "length payload = 16 \<Longrightarrow> parse_info_payload payload = Inl IndexError"
  by (simp add: parse_info_payload_def parse_current_def)

section \<open>Property\<close>

text \<open>C39. The host reports what the device knows.  Whenever the device answers \<open>GET_INFO\<close> with a payload,
  and every text in it is valid UTF-8, \<open>parse_info_payload\<close> returns the dictionary with, under each
  key, the value of the device: protocol version, firmware version, uptime in seconds, free heap, boot
  count, rollback flag, chip model, running and boot partition, OTA state, IDF version, project name,
  build date and the label and state of every OTA slot.  If one of the texts is not valid UTF-8 (a
  partition label or a string of the application description), it raises \<open>UnicodeDecodeError\<close>.\<close>

theorem host_reads_info:
  "ensures (device_info_build_payload E (replicate 1024 0) 1024 s) (\<lambda>n b.
    n \<noteq> 0 \<longrightarrow> parse_info_payload (take n b) =
      (if \<forall>v\<in>set (info_texts E (trace s)). valid_utf8 v then Inr (device_facts E s) else Inl UnicodeDecodeError))"
  by (rule ensures_mono [OF device_info_build_payload_spec [of 1024 "replicate 1024 0"]])
     (auto simp: parse_layout split: if_splits)

lemma sample_texts: "\<forall>v\<in>set (info_texts sample_idf (trace sample_info)). valid_utf8 v"
  by (simp add: info_texts_def info_strings_def image_state_def ota_slots_def slot_strings_def
      partition_is_ota_slot_def sample_idf_def sample_partition_def c_string_def Let_def)

lemma sample_info_fits: "info_fits sample_idf sample_info 1024"
  by (simp add: info_fits_def info_layout_def length_info_fixed info_strings_def image_state_def ota_slots_def
      partition_is_ota_slot_def sample_idf_def sample_partition_def c_string_def Let_def)

theorem host_reads_info_witness:
  "\<exists>n b. device_info_build_payload sample_idf (replicate 1024 0) 1024 sample_info = Some (n, b) \<and>
    parse_info_payload (take n b) = Inr (device_facts sample_idf sample_info)"
proof -
  obtain n b where b: "device_info_build_payload sample_idf (replicate 1024 0) 1024 sample_info = Some (n, b)"
    "n = length (info_layout sample_idf sample_info)"
    using device_info_build_payload_spec [of 1024 "replicate 1024 0" sample_idf sample_info] sample_info_fits
    by (auto simp: ensures_iff)
  then have "n \<noteq> 0" by (simp add: info_layout_def length_info_fixed)
  then show ?thesis
    using host_reads_info [of sample_idf sample_info] b(1) sample_texts by auto
qed

end
