(* ===== verification/Spec2Isabelle.thy ===== *)
theory Spec2Isabelle
  imports Link_Prelude Platform Crc32 Protocol Framing Ota_Manager Hmac Auth Device_Info Commands Ota_Link
    Device_Runs Uploads Host_Protocol Host_Info
begin

text \<open>
  Verification library of ESP32 OTA Link, a component that lets a host update the firmware of an ESP32
  over a serial line.

  \<^bold>\<open>The program.\<close>  The firmware component (\<^verbatim>\<open>src/firmware/components/ota_link\<close>) receives bytes, finds
  frames in them, executes the command of each frame and answers with a frame.  Its parts call each
  other in one direction: \<^verbatim>\<open>ota_link.c\<close> (configuration, start-up, command loop, confirmation of a new
  image) feeds \<^verbatim>\<open>protocol.c\<close> (frames) and passes packets to \<^verbatim>\<open>commands.c\<close> (dispatcher), which uses
  \<^verbatim>\<open>auth.c\<close> (handshake, tags, replay cache), \<^verbatim>\<open>ota_manager.c\<close> (the update) and \<^verbatim>\<open>device_info.c\<close> (the
  \<open>INFO\<close> payload).  \<^verbatim>\<open>main.c\<close> is an example application.  The host (\<^verbatim>\<open>src/host\<close>, Python) builds packets
  and decodes answers.

  \<^bold>\<open>How it is modelled.\<close>  C functions are HOL functions on a device state, a record that each theory
  extends by the static variables of its file.  \<^term>\<open>None\<close> as a result is undefined behaviour: an access
  outside an array (\<open>load\<close>, \<open>store\<close>) or a call of a null pointer.  Machine integers are words of
  their width.  ESP-IDF, FreeRTOS and custom transports are the record \<open>esp_idf\<close> of arbitrary
  functions, an argument of every definition; calls with effects are recorded in the ghost field
  \<open>trace\<close> (most recent first), and answers may depend on it.  A function that may restart the chip
  returns a \<open>flow\<close>.  Delays are in ticks, the unit of \<open>vTaskDelay\<close>; \<open>pdMS_TO_TICKS\<close> is a parameter.
  Log output is left out.

  \<^item> \<open>Link_Prelude\<close>: arrays, loops, \<open>ensures\<close>; the contracts \<open>safe_machine\<close> (never faults, keeps an
    invariant) and \<open>logging_machine\<close> (the log only grows), with their consequences for sequences.
  \<^item> \<open>Platform\<close>: the interface to ESP-IDF and FreeRTOS.
  \<^item> \<open>Crc32\<close>, \<open>Protocol\<close>, \<open>Framing\<close>: \<^verbatim>\<open>protocol.c\<close>.  The parser refines the list machine
    \<open>parse_step\<close>; the contract \<open>frame_decoder\<close> of streaming decoders is interpreted on it.  C1 to C4
    and C38: memory safety and soundness, completeness with resynchronisation, detection of bursts,
    round trip (with the exact payload lengths for which the sender stays inside its buffer), and that
    a frame in progress is always decided.
  \<^item> \<open>Ota_Manager\<close>: \<^verbatim>\<open>ota_manager.c\<close> against the abstract \<open>update\<close>, whose image is what the flash
    accepted according to the trace.  C5 to C8.
  \<^item> \<open>Hmac\<close>, \<open>Auth\<close>: \<^verbatim>\<open>auth.c\<close>.  HMAC against FIPS 198-1, the handshake against an abstract session
    machine, the replay cache against the contract \<open>response_window\<close>.  C9 to C16.
  \<^item> \<open>Device_Info\<close>: \<^verbatim>\<open>device_info.c\<close>, the payload and the boot counter.  C17 and C18.
  \<^item> \<open>Commands\<close>: \<^verbatim>\<open>commands.c\<close>.  The dispatcher is shown equal to \<open>protected_command\<close>, a case
    distinction on the status of a request (fresh, repeated, refused).  C20 to C25, among them which
    retries are harmless, what a refusal may change, and when a packet restarts the chip.
  \<^item> \<open>Ota_Link\<close>: \<^verbatim>\<open>ota_link.h\<close>, \<^verbatim>\<open>ota_link.c\<close>, \<^verbatim>\<open>main.c\<close>, and the device as a step relation over
    events (\<open>device_run\<close>) with its invariant \<open>link_inv\<close>.  The confirmation task is two events, up to
    its delay and after it.
  \<^item> \<open>Device_Runs\<close>: runs of the device.  C19: the boot counter counts start attempts.  C26 to C30: the
    device never faults, starts are all or nothing, no effect without an authorised frame,
    confirmations are justified.
  \<^item> \<open>Uploads\<close>: receiving a frame is handling its packet (C31); the requests of a client and a whole
    upload.  The request list of an upload is a specification, as the host client sends it.
  \<^item> \<open>Host_Protocol\<close>, \<open>Host_Info\<close>: \<^verbatim>\<open>host/protocol.py\<close>, the packets and the \<open>INFO\<close> payload as the host
    reads them.  C34 to C37; C39 gives the decoded record field by field, and the error when a text is
    not UTF-8.
  \<^item> This theory: C32, every switch of the boot partition goes back to authorised frames, and C33, an
    upload completes.

  \<^bold>\<open>Bounds.\<close>  No loop of the firmware needs fuel: each runs over a list or an array; the unbounded command
  loop is one \<open>Ev_rx\<close> event per iteration.  The recursion of the host parser ends because every
  iteration shortens the buffer.  Hypotheses on the platform are named: \<open>partitions_fit\<close> (a partition is
  at least one chunk smaller than the 32-bit address space, so that \<open>offset + data_length\<close> in
  \<open>ota_manager_write_data\<close> does not wrap), \<open>services_available\<close>, \<open>nvs_works\<close> (a
  committed value is read back), \<open>image_accepted\<close> (the update service accepts this one image under this
  digest), and for pointers \<open>config_ok\<close>; each is shown to hold for a concrete platform by a witness.

  \<^bold>\<open>What modelling showed.\<close>  The replay cache also stores answers to requests that failed the tag check, so
  eight forged packets push out the entry of an executed request, and its bytes are then executed a
  second time in the same session (C25).  The boot counter is incremented by every start request that
  passes the key check, not once per boot (C19).  \<open>protocol_send_packet\<close> and \<open>auth_send_response\<close> copy
  the payload before any check of its length: above 1024 bytes they write outside their buffers (C4,
  C16), which no caller in the component does (C20).  The host parser of the \<open>INFO\<close> payload fails with
  an uncaught \<open>IndexError\<close> on 16 bytes.

  \<^bold>\<open>Not modelled.\<close>  Time: delays are recorded, not measured.  Reading from the transport: what one call
  returned is part of the event \<open>Ev_rx\<close>.  Preemption inside an event: each event is atomic, and events
  interleave freely.  The tasks share \<open>s_config\<close>, which only a start writes and no start writes once the
  command task exists, and the handle of the confirmation task, which that task clears last.  The text
  of log lines, including the second \<open>ota_state_name\<close> of \<^verbatim>\<open>ota_link.c\<close>.  Partition tables, build files and tests.  SHA-256
  is a parameter: that tags are hard to forge is not stated.

  \<^bold>\<open>Plan.\<close>  Next: the host client (\<^verbatim>\<open>host/otalink.py\<close>: retries, authentication, verification of
  answers) against the device in a closed loop.
\<close>

section \<open>Properties of the whole device\<close>

text \<open>C32. Every switch of the boot partition is accounted for.  If in any run of the device, over whatever
  bytes, starts and service answers, the boot partition was switched, then the device had received a
  frame with an \<open>OTA_END\<close> request and a frame with an \<open>OTA_BEGIN\<close> request; where authentication was
  enabled each was a fresh request tagged with the session key; when \<open>OTA_END\<close> was handled the flash
  had accepted exactly as many bytes as \<open>OTA_BEGIN\<close> announced, and the digest of the partition
  switched to was the one announced.\<close>

theorem boot_switch_accounted:
  assumes "device_run E evs s" "partitions_fit E" "Esp_ota_set_boot_partition part err \<in> set (trace s)"
  shows "\<exists>ke te kb tb. handled E evs ke te \<and> pkt_command ke = cmd_code CMD_OTA_END \<and>
    (auth_is_enabled te \<longrightarrow> authorised E ke te) \<and>
    handled E evs kb tb \<and> pkt_command kb = cmd_code CMD_OTA_BEGIN \<and>
    (auth_is_enabled tb \<longrightarrow> authorised E kb tb) \<and>
    length (staged (trace te)) = unat (get32 (pkt_payload kb)) \<and>
    digest_matches E (Esp_ota_end (ota_handle (s_ota te)) ESP_OK # trace te) part (take 32 (drop 4 (pkt_payload kb)))"
  using assms by (rule run_boot_origin)

theorem boot_switch_accounted_witness:
  "\<exists>evs ke te kb tb. handled sample_flash evs ke te \<and> pkt_command ke = cmd_code CMD_OTA_END \<and>
    (auth_is_enabled te \<longrightarrow> authorised sample_flash ke te) \<and>
    handled sample_flash evs kb tb \<and> pkt_command kb = cmd_code CMD_OTA_BEGIN \<and>
    (auth_is_enabled tb \<longrightarrow> authorised sample_flash kb tb) \<and>
    length (staged (trace te)) = unat (get32 (pkt_payload kb)) \<and>
    digest_matches sample_flash (Esp_ota_end (ota_handle (s_ota te)) ESP_OK # trace te) sample_partition
      (take 32 (drop 4 (pkt_payload kb)))"
proof -
  obtain s where s: "device_run sample_flash [Ev_start (Some sample_open_config)] s" "s_task_handle s \<noteq> None"
    "executes sample_flash UNIV (sample_upload_requests 1) (switched sample_partition (concat sample_chunks)) s"
    using sample_upload by metis
  then obtain fs s' bs where r: "run_ops (exec_event sample_flash) s (rx_events bs) = Some (fs, s')"
    "set fs \<subseteq> {Continues}" "switched sample_partition (concat sample_chunks) s'"
    by (auto simp: executes_def)
  have run: "device_run sample_flash (rev (rx_events bs) @ [Ev_start (Some sample_open_config)]) s'"
    using rx_run [OF s(1,2) r(1,2)] by simp
  have "Esp_ota_set_boot_partition sample_partition ESP_OK \<in> set (trace s')"
    using r(3) by (auto simp: switched_def)
  from boot_switch_accounted [OF run sample_flash_ok(6) this] show ?thesis by blast
qed

text \<open>C33. An upload completes.  Let the link be started, waiting for a frame, with no update in progress and,
  where authentication is enabled, an open session in whose replay cache none of the commands and
  sequence numbers of the upload occurs.  Take an image in non-empty chunks, at most 65536 of them and
  of at most 1016 bytes (1000 with authentication, for the tag), that is not larger than the
  partition, which is itself at least 1016 bytes smaller than the 32-bit address space, and let the
  update service accept this image under this digest (\<open>image_accepted\<close>; nothing is asked of it for
  other images).  Then the bytes of the requests of the upload, \<open>OTA_BEGIN\<close> with size and digest, one
  \<open>OTA_DATA\<close> per chunk and \<open>OTA_END\<close>, are all acknowledged, in order and under their sequence numbers;
  no event restarts the chip; when the boot partition is switched the flash has accepted exactly the
  image; and no update is active afterwards.\<close>

theorem upload_completes:
  assumes "device_run E evs s" "s_task_handle s \<noteq> None" "parser_length (s_parser s) = 0"
    and "\<not> ota_manager_is_active s"
    and "auth_is_enabled s \<longrightarrow> authenticated (s_auth s) \<and>
      (\<forall>r\<in>set (upload_requests q digest ds). cache_lookup (req_key r) (s_auth s) = None)"
    and "image_accepted E part (concat ds) digest" "length digest = 32"
    and "length (concat ds) \<le> unat (part_size part)" "unat (part_size part) + 1016 < 2 ^ 32"
    and "ds \<noteq> []" "length ds \<le> 65536"
    and "\<forall>d\<in>set ds. d \<noteq> [] \<and> length d \<le> (if auth_is_enabled s then 1000 else 1016)"
  shows "\<exists>fs s' xs cs. run_ops (exec_event E) s (map (Ev_rx 1) (concat (map (req_frame E (s_auth s))
      (upload_requests q digest ds)))) = Some (fs, s') \<and> set fs \<subseteq> {Continues} \<and>
    sent (trace s') = rev (map (ack_frame E (s_auth s)) (upload_requests q digest ds)) @ sent (trace s) \<and>
    trace s' = xs @ Esp_ota_set_boot_partition part ESP_OK # cs \<and> staged cs = concat ds \<and> \<not> ota_manager_is_active s'"
proof -
  let ?ks = "req_key ` set (upload_requests q digest ds)"
  have "pending (s_parser s) = []"
    using device_run_inv [OF assms(1)] assms(3) idle_pending by (auto simp: link_inv_def)
  then have "ready E ?ks s"
    using device_run_inv [OF assms(1)] assms(2,5) by (simp add: ready_def auth_is_enabled_def)
  from upload_executes [OF assms(6) this _ _ assms(7-9,11) order_refl assms(10)]
  have "executes E ?ks (upload_requests q digest ds) (switched part (concat ds)) s"
    using assms(4,12) by (auto simp: ota_manager_is_active_def auth_is_enabled_def max_body_def split: if_splits)
  then show ?thesis by (auto simp: executes_def switched_def ota_manager_is_active_def)
qed

theorem upload_completes_witness:
  "\<exists>s fs s' xs cs. run_ops (exec_event sample_flash) s (map (Ev_rx 1) (concat (map (req_frame sample_flash (s_auth s))
      (sample_upload_requests 9)))) = Some (fs, s') \<and>
    set fs \<subseteq> {Continues} \<and>
    sent (trace s') = rev (map (ack_frame sample_flash (s_auth s)) (sample_upload_requests 9)) @ sent (trace s) \<and>
    trace s' = xs @ Esp_ota_set_boot_partition sample_partition ESP_OK # cs \<and> staged cs = concat sample_chunks \<and>
    \<not> ota_manager_is_active s'"
proof -
  obtain s where s: "device_run sample_flash [Ev_start (Some sample_open_config)] s" "s_task_handle s \<noteq> None"
    "parser_length (s_parser s) = 0" "s_ota s = zero_ota" "\<not> auth_required (s_auth s)"
    using sample_upload by metis
  show ?thesis
    by (rule exI [of _ s], rule upload_completes [OF s(1-3) _ _ sample_flash_ok(7,8)])
       (use s(4,5) in \<open>auto simp: ota_manager_is_active_def auth_is_enabled_def sample_chunks_def sample_partition_def\<close>)
qed

end
